(* ===== verification/Prelude.thy ===== *)
theory Prelude
  imports Complex_Main "HOL-Library.Word" "HOL-Library.Sublist"
    "HOL-Library.Code_Target_Numeral"
begin

text \<open>
  What every theory of the development shares: the names of the model's basic types, the
  collections that the component proofs feed to the simplifier, and generic lemmas on lists,
  association lists, options and two's complement integers that are not about any component.

  A Go string is its list of bytes.  A Go \<^verbatim>\<open>time.Time\<close> is the number of nanoseconds since
  the zero time, so \<^verbatim>\<open>t.IsZero()\<close> is \<open>t = 0\<close>; a Go \<^verbatim>\<open>time.Duration\<close> is its count of
  nanoseconds.  Both are integers, and the places where the width of a Go integer can show are
  written out with \<open>wrap64\<close> or as words.
\<close>

type_synonym go_string = string
type_synonym time = int
type_synonym duration = int

text \<open>Rules for unfolding the models of Go's string and number functions.\<close>

named_theorems go_text

text \<open>Rules for unfolding durations, saturating subtraction and 64-bit wrap-around.\<close>

named_theorems go_time

text \<open>Field equations of the store's update functions.\<close>

named_theorems store_simps

subsection \<open>Units of time\<close>

abbreviation nanosecond :: duration where "nanosecond \<equiv> 1"
abbreviation millisecond :: duration where "millisecond \<equiv> 1000000"
abbreviation second :: duration where "second \<equiv> 1000000000"
abbreviation minute :: duration where "minute \<equiv> 60000000000"
abbreviation hour :: duration where "hour \<equiv> 3600000000000"

subsection \<open>Sixty-four bit integers\<close>

text \<open>The value an \<^verbatim>\<open>int64\<close> holds after arithmetic whose exact result is \<open>x\<close>.\<close>

definition wrap64 :: "int \<Rightarrow> int" where
  "wrap64 x = signed_take_bit 63 x"

lemma wrap64_id [simp]: "- (2 ^ 63) \<le> x \<Longrightarrow> x < 2 ^ 63 \<Longrightarrow> wrap64 x = x"
  by (simp add: wrap64_def signed_take_bit_int_eq_self)

lemma wrap64_bounds: "- (2 ^ 63) \<le> wrap64 x \<and> wrap64 x < 2 ^ 63"
  using signed_take_bit_int_greater_eq_minus_exp [of 63 x] signed_take_bit_int_less_exp [of 63 x]
  by (simp add: wrap64_def)

subsection \<open>Lists\<close>

lemma list_all_not_iff [go_text]: "\<not> list_all P xs \<longleftrightarrow> (\<exists>x \<in> set xs. \<not> P x)"
  by (simp add: list_all_iff)

lemma dropWhile_Nil_iff: "dropWhile P xs = [] \<longleftrightarrow> (\<forall>x \<in> set xs. P x)"
  by (rule dropWhile_eq_Nil_conv)

lemma takeWhile_append_stop:
  "\<forall>x \<in> set xs. P x \<Longrightarrow> \<not> P y \<Longrightarrow> takeWhile P (xs @ y # ys) = xs"
  by (induction xs) auto

lemma dropWhile_append_stop:
  "\<forall>x \<in> set xs. P x \<Longrightarrow> \<not> P y \<Longrightarrow> dropWhile P (xs @ y # ys) = y # ys"
  by (induction xs) auto

lemma length_filter_mono:
  "(\<And>x. x \<in> set xs \<Longrightarrow> P x \<Longrightarrow> Q x) \<Longrightarrow> length (filter P xs) \<le> length (filter Q xs)"
  by (induction xs) auto

lemma fold_invariant_list:
  "P s \<Longrightarrow> (\<And>x s. x \<in> set xs \<Longrightarrow> P s \<Longrightarrow> P (f x s)) \<Longrightarrow> P (fold f xs s)"
  by (induction xs arbitrary: s) auto

subsection \<open>Association lists as Go maps\<close>

text \<open>
  A Go map is the association list of its entries, keys distinct, in the order in which this
  run iterates it.  Go's read of an absent key returns the zero value of the type.
\<close>

definition lookup_or :: "'v \<Rightarrow> ('k \<times> 'v) list \<Rightarrow> 'k \<Rightarrow> 'v" where
  "lookup_or d m k = (case map_of m k of None \<Rightarrow> d | Some v \<Rightarrow> v)"

lemma lookup_or_simps [simp]:
  "lookup_or d [] k = d"
  "lookup_or d ((k', v) # m) k = (if k = k' then v else lookup_or d m k)"
  by (simp_all add: lookup_or_def)

lemma lookup_or_absent: "k \<notin> fst ` set m \<Longrightarrow> lookup_or d m k = d"
  by (simp add: lookup_or_def map_of_eq_None_iff [THEN iffD2])

lemma lookup_or_in: "lookup_or d m k \<noteq> d \<Longrightarrow> k \<in> fst ` set m"
  using lookup_or_absent by fastforce

lemma lookup_or_Some: "map_of m k = Some v \<Longrightarrow> lookup_or d m k = v"
  by (simp add: lookup_or_def)

subsection \<open>Results\<close>

text \<open>Go's \<^verbatim>\<open>if err != nil { return err }\<close>: the next step of a computation that may fail.\<close>

fun and_then :: "'e + 'a \<Rightarrow> ('a \<Rightarrow> 'e + 'b) \<Rightarrow> 'e + 'b" where
  "and_then (Inl e) f = Inl e"
| "and_then (Inr x) f = f x"

lemma and_then_Inr: "and_then r f = Inr y \<longleftrightarrow> (\<exists>x. r = Inr x \<and> f x = Inr y)"
  by (cases r) auto

lemma and_then_Inl: "and_then r f = Inl e \<longleftrightarrow> r = Inl e \<or> (\<exists>x. r = Inr x \<and> f x = Inl e)"
  by (cases r) auto

text \<open>\<^verbatim>\<open>slices.Index\<close>.\<close>

fun slice_index :: "'a \<Rightarrow> 'a list \<Rightarrow> nat option" where
  "slice_index x [] = None"
| "slice_index x (y # ys) = (if x = y then Some 0 else map_option Suc (slice_index x ys))"

lemma slice_index_Some: "slice_index x ys = Some i \<Longrightarrow> i < length ys \<and> ys ! i = x"
  by (induction ys arbitrary: i) (auto split: if_splits)

end
