(* ===== verification/GoText.thy ===== *)
theory GoText
  imports Prelude
begin

text \<open>
  The functions of Go's packages \<^verbatim>\<open>strings\<close> and \<^verbatim>\<open>strconv\<close> that the supervisor calls, on
  byte strings, with the facts about them the components need: cutting and splitting, the
  whitespace fields of a line, decimal and octal numbers, and the round trip of each printer
  with its parser.  Only the success or failure of a parse is kept, as the code never looks at
  the kind of a \<^verbatim>\<open>strconv\<close> error.
\<close>

subsection \<open>Character classes\<close>

definition is_digit :: "char \<Rightarrow> bool" where
  "is_digit c \<longleftrightarrow> 48 \<le> (of_char c :: nat) \<and> (of_char c :: nat) \<le> 57"

definition digit_val :: "char \<Rightarrow> nat" where
  "digit_val c = of_char c - 48"

definition digit_char :: "nat \<Rightarrow> char" where
  "digit_char n = char_of (48 + n)"

lemma digit_char_inverse [simp]:
  assumes "n < 10"
  shows "is_digit (digit_char n)" and "digit_val (digit_char n) = n"
  using assms by (simp_all add: is_digit_def digit_val_def digit_char_def of_char_of)

lemma digit_val_less: "is_digit c \<Longrightarrow> digit_val c < 10"
  by (auto simp: is_digit_def digit_val_def)

lemma digit_char_of_val: "is_digit c \<Longrightarrow> digit_char (digit_val c) = c"
  by (simp add: is_digit_def digit_val_def digit_char_def)

subsection \<open>strings\<close>

text \<open>\<^verbatim>\<open>strings.TrimPrefix\<close> and \<^verbatim>\<open>strings.CutPrefix\<close>.\<close>

definition trim_prefix :: "go_string \<Rightarrow> go_string \<Rightarrow> go_string" where
  "trim_prefix s p = (if prefix p s then drop (length p) s else s)"

text \<open>The byte offset of the first occurrence of a substring, \<^verbatim>\<open>strings.Index\<close>.\<close>

fun index_of :: "go_string \<Rightarrow> go_string \<Rightarrow> nat option" where
  "index_of sep [] = (if sep = [] then Some 0 else None)"
| "index_of sep (c # cs) =
     (if prefix sep (c # cs) then Some 0 else map_option Suc (index_of sep cs))"

text \<open>\<^verbatim>\<open>strings.Contains\<close>.\<close>

definition contains :: "go_string \<Rightarrow> go_string \<Rightarrow> bool" where
  "contains s sub \<longleftrightarrow> index_of sub s \<noteq> None"

text \<open>\<^verbatim>\<open>strings.ContainsAny\<close> and \<^verbatim>\<open>strings.ContainsRune\<close> for sets of ASCII characters.\<close>

definition contains_any :: "go_string \<Rightarrow> go_string \<Rightarrow> bool" where
  "contains_any s cs \<longleftrightarrow> list_ex (\<lambda>c. c \<in> set cs) s"

text \<open>\<^verbatim>\<open>strings.IndexAny\<close> for a set of ASCII characters; the code's \<open>-1\<close> is \<open>None\<close>.\<close>

fun index_any :: "go_string \<Rightarrow> go_string \<Rightarrow> nat option" where
  "index_any [] cs = None"
| "index_any (c # s) cs = (if c \<in> set cs then Some 0 else map_option Suc (index_any s cs))"

text \<open>\<^verbatim>\<open>strings.Cut\<close>: what is before and after the first separator, and whether there is one.\<close>

definition cut :: "go_string \<Rightarrow> go_string \<Rightarrow> go_string \<times> go_string \<times> bool" where
  "cut s sep = (case index_of sep s of
     None \<Rightarrow> (s, [], False)
   | Some i \<Rightarrow> (take i s, drop (i + length sep) s, True))"

text \<open>\<^verbatim>\<open>strings.Split\<close> for a separator of one byte.\<close>

fun split_on :: "char \<Rightarrow> go_string \<Rightarrow> go_string list" where
  "split_on d [] = [[]]"
| "split_on d (c # s) =
     (if c = d then [] # split_on d s
      else (case split_on d s of w # ws \<Rightarrow> (c # w) # ws | [] \<Rightarrow> [[c]]))"

text \<open>\<^verbatim>\<open>strings.Trim\<close> for a set of ASCII characters.\<close>

definition trim :: "go_string \<Rightarrow> go_string \<Rightarrow> go_string" where
  "trim s cs = rev (dropWhile (\<lambda>c. c \<in> set cs) (rev (dropWhile (\<lambda>c. c \<in> set cs) s)))"

definition digits10 :: go_string where "digits10 = ''0123456789''"

lemma split_on_nonempty [simp]: "split_on d s \<noteq> []"
  by (induction s) (auto split: list.splits)

lemma index_any_Some:
  "index_any s cs = Some i \<Longrightarrow>
     i < length s \<and> s ! i \<in> set cs \<and> (\<forall>j < i. s ! j \<notin> set cs)"
proof (induction s arbitrary: i)
  case (Cons c s)
  show ?case
  proof (cases "c \<in> set cs")
    case False
    with Cons.prems obtain k where "index_any s cs = Some k" and "i = Suc k" by auto
    with Cons.IH [of k] False show ?thesis by (auto simp: less_Suc_eq_0_disj)
  qed (use Cons.prems in auto)
qed simp

lemma index_any_append:
  "\<forall>c \<in> set s. c \<notin> set cs \<Longrightarrow> d \<in> set cs \<Longrightarrow> index_any (s @ d # t) cs = Some (length s)"
  by (induction s) auto

lemma index_any_None: "index_any s cs = None \<longleftrightarrow> (\<forall>c \<in> set s. c \<notin> set cs)"
  by (induction s) auto

lemma trim_Nil_iff: "trim s cs = [] \<longleftrightarrow> (\<forall>c \<in> set s. c \<in> set cs)"
proof -
  let ?in = "\<lambda>c. c \<in> set cs"
  have "trim s cs = [] \<longleftrightarrow> (\<forall>c \<in> set (dropWhile ?in s). ?in c)"
    unfolding trim_def by (simp only: rev_is_Nil_conv dropWhile_eq_Nil_conv set_rev)
  also have "\<dots> \<longleftrightarrow> dropWhile ?in s = []"
  proof
    assume all: "\<forall>c \<in> set (dropWhile ?in s). ?in c"
    show "dropWhile ?in s = []"
    proof (rule ccontr)
      assume ne: "dropWhile ?in s \<noteq> []"
      from hd_dropWhile [OF ne] all hd_in_set [OF ne] show False by blast
    qed
  next
    assume "dropWhile ?in s = []"
    then show "\<forall>c \<in> set (dropWhile ?in s). ?in c" by (simp only: list.set empty_iff ball_simps)
  qed
  also have "\<dots> \<longleftrightarrow> (\<forall>c \<in> set s. ?in c)" by (rule dropWhile_eq_Nil_conv)
  finally show ?thesis .
qed

lemma digit_chars: "map digit_char [0, 1, 2, 3, 4, 5, 6, 7, 8, 9] = digits10"
  by (simp add: digit_char_def digits10_def char_of_def bit_0)

lemma is_digit_iff: "is_digit c \<longleftrightarrow> c \<in> set digits10"
proof
  assume "is_digit c"
  then have "digit_val c < 10" and c: "c = digit_char (digit_val c)"
    by (simp_all add: digit_val_less digit_char_of_val)
  then have "digit_val c \<in> set [0, 1, 2, 3, 4, 5, 6, 7, 8, 9]" by auto
  then have "digit_char (digit_val c) \<in> set (map digit_char [0, 1, 2, 3, 4, 5, 6, 7, 8, 9])"
    by (metis image_eqI list.set_map)
  with c show "c \<in> set digits10" by (simp only: digit_chars)
qed (auto simp: digits10_def is_digit_def)

text \<open>The guard \<^verbatim>\<open>strings.Trim(s, "0123456789") != ""\<close> finds a byte that is no digit.\<close>

lemma trim_digits: "trim s digits10 = [] \<longleftrightarrow> (\<forall>c \<in> set s. is_digit c)"
  by (simp add: trim_Nil_iff is_digit_iff)

lemma index_of_single: "index_of [d] s = index_any s [d]"
  by (induction s) auto

lemma cut_single_absent: "d \<notin> set s \<Longrightarrow> cut s [d] = (s, [], False)"
proof -
  assume "d \<notin> set s"
  then have "index_any s [d] = None" by (auto simp: index_any_None)
  then show ?thesis by (simp add: cut_def index_of_single)
qed

lemma cut_single_first: "d \<notin> set s \<Longrightarrow> cut (s @ d # t) [d] = (s, t, True)"
proof -
  assume "d \<notin> set s"
  then have "index_any (s @ d # t) [d] = Some (length s)" by (intro index_any_append) auto
  then show ?thesis by (simp add: cut_def index_of_single)
qed

lemma split_on_absent: "d \<notin> set s \<Longrightarrow> split_on d s = [s]"
  by (induction s) auto

lemma split_on_first: "d \<notin> set s \<Longrightarrow> split_on d (s @ d # t) = s # split_on d t"
  by (induction s) auto

lemma split_on_no_sep: "w \<in> set (split_on d s) \<Longrightarrow> d \<notin> set w"
  by (induction s arbitrary: w) (auto split: list.splits if_splits)

subsection \<open>The whitespace-separated fields of a line\<close>

text \<open>
  The length in bytes of the white space rune a string starts with, 0 when it starts with none.
  The cases are the runes of \<^verbatim>\<open>unicode.IsSpace\<close> in UTF-8.  Their lead bytes never occur as
  continuation bytes, so reading byte by byte finds the runes Go's decoder finds, also in
  strings that are not valid UTF-8.
\<close>

definition space_len :: "go_string \<Rightarrow> nat" where
  "space_len s = (case map of_char (take 3 s) of
     [] \<Rightarrow> 0
   | a # r \<Rightarrow>
       if (9 \<le> a \<and> a \<le> 13) \<or> a = (32::nat) then 1
       else (case r of
         [] \<Rightarrow> 0
       | b # r' \<Rightarrow>
           if a = 0xC2 \<and> (b = 0x85 \<or> b = 0xA0) then 2
           else (case r' of
             [] \<Rightarrow> 0
           | c # _ \<Rightarrow>
               if (a = 0xE1 \<and> b = 0x9A \<and> c = 0x80)
                \<or> (a = 0xE2 \<and> b = 0x80 \<and> (0x80 \<le> c \<and> c \<le> 0x8A \<or> c = 0xA8 \<or> c = 0xA9 \<or> c = 0xAF))
                \<or> (a = 0xE2 \<and> b = 0x81 \<and> c = 0x9F)
                \<or> (a = 0xE3 \<and> b = 0x80 \<and> c = 0x80)
               then 3 else 0)))"

fun take_word :: "go_string \<Rightarrow> go_string \<times> go_string" where
  "take_word [] = ([], [])"
| "take_word (c # s) =
     (if space_len (c # s) > 0 then ([], c # s)
      else (let (w, r) = take_word s in (c # w, r)))"

lemma take_word_append: "take_word s = (w, r) \<Longrightarrow> s = w @ r"
  by (induction s arbitrary: w r) (auto split: if_splits prod.splits)

text \<open>\<^verbatim>\<open>strings.Fields\<close>.\<close>

function go_fields :: "go_string \<Rightarrow> go_string list" where
  "go_fields [] = []"
| "go_fields (c # s) =
     (if space_len (c # s) > 0 then go_fields (drop (space_len (c # s)) (c # s))
      else (let (w, r) = take_word s in (c # w) # go_fields r))"
  by pat_completeness auto
termination
proof (relation "measure length")
  fix c s x w r
  assume "x = take_word s" and "(w, r) = x"
  then have "s = w @ r" by (metis take_word_append)
  then show "(r, c # s) \<in> measure length" by simp
qed auto

definition graphic :: "char \<Rightarrow> bool" where
  "graphic c \<longleftrightarrow> 33 \<le> (of_char c :: nat) \<and> (of_char c :: nat) \<le> 126"

lemma space_len_graphic: "graphic c \<Longrightarrow> space_len (c # s) = 0"
  by (auto simp: space_len_def graphic_def split: list.splits)

lemma space_len_blank: "space_len (CHR '' '' # s) = 1"
  by (simp add: space_len_def)

lemma take_word_blank:
  "\<forall>c \<in> set w. graphic c \<Longrightarrow> 0 < space_len (b # t) \<Longrightarrow> take_word (w @ b # t) = (w, b # t)"
  by (induction w) (auto simp: space_len_graphic)

lemma take_word_all: "\<forall>c \<in> set w. graphic c \<Longrightarrow> take_word w = (w, [])"
  by (induction w) (auto simp: space_len_graphic)

lemma go_fields_word:
  "\<forall>c \<in> set w. graphic c \<Longrightarrow> w \<noteq> [] \<Longrightarrow> space_len (b # t) = 1
     \<Longrightarrow> go_fields (w @ b # t) = w # go_fields t"
  by (cases w) (auto simp: space_len_graphic take_word_blank)

lemma go_fields_last: "\<forall>c \<in> set w. graphic c \<Longrightarrow> w \<noteq> [] \<Longrightarrow> go_fields w = [w]"
  by (cases w) (auto simp: space_len_graphic take_word_all)

text \<open>No field is empty.\<close>

lemma go_fields_nonempty: "w \<in> set (go_fields s) \<Longrightarrow> w \<noteq> []"
  by (induction s rule: go_fields.induct) (auto split: if_splits prod.splits)

subsection \<open>Lower case\<close>

text \<open>
  \<^verbatim>\<open>strings.ToLower\<close>, as far as a comparison with ASCII words can tell: the two runes outside
  ASCII whose lower case is an ASCII letter (U+0130 and U+212A) become that letter, other runes
  outside ASCII stay outside ASCII.
\<close>

fun to_lower :: "go_string \<Rightarrow> go_string" where
  "to_lower [] = []"
| "to_lower (c # s) =
     (let a = (of_char c :: nat) in
      if 65 \<le> a \<and> a \<le> 90 then char_of (a + 32) # to_lower s
      else if a = 0xC4 \<and> s \<noteq> [] \<and> (of_char (hd s) :: nat) = 0xB0 then CHR ''i'' # to_lower (tl s)
      else if a = 0xE2 \<and> length s \<ge> 2 \<and> (of_char (hd s) :: nat) = 0x84 \<and> (of_char (s ! 1) :: nat) = 0xAA
        then CHR ''k'' # to_lower (drop 2 s)
      else c # to_lower s)"

subsection \<open>strconv\<close>

fun parse_digits :: "nat \<Rightarrow> go_string \<Rightarrow> nat \<Rightarrow> nat option" where
  "parse_digits b [] acc = Some acc"
| "parse_digits b (c # s) acc =
     (if is_digit c \<and> digit_val c < b then parse_digits b s (acc * b + digit_val c) else None)"

text \<open>\<^verbatim>\<open>strconv.ParseUint(s, base, bits)\<close> for a base up to ten.\<close>

definition parse_uint :: "nat \<Rightarrow> nat \<Rightarrow> go_string \<Rightarrow> nat option" where
  "parse_uint b bits s =
     (if s = [] then None
      else case parse_digits b s 0 of
        None \<Rightarrow> None
      | Some n \<Rightarrow> if n < 2 ^ bits then Some n else None)"

text \<open>\<^verbatim>\<open>strconv.ParseInt(s, 10, 64)\<close>, and \<^verbatim>\<open>strconv.Atoi\<close> where \<^verbatim>\<open>int\<close> has 64 bits.\<close>

definition parse_int :: "go_string \<Rightarrow> int option" where
  "parse_int s =
     (let neg = (s \<noteq> [] \<and> hd s = CHR ''-'');
          body = (if s \<noteq> [] \<and> (hd s = CHR ''+'' \<or> hd s = CHR ''-'') then tl s else s)
      in if body = [] then None
         else case parse_digits 10 body 0 of
           None \<Rightarrow> None
         | Some n \<Rightarrow>
             if neg then (if n \<le> 2 ^ 63 then Some (- int n) else None)
             else (if n < 2 ^ 63 then Some (int n) else None))"

abbreviation atoi :: "go_string \<Rightarrow> int option" where "atoi \<equiv> parse_int"

text \<open>\<^verbatim>\<open>strconv.FormatUint\<close> in a base up to ten, and \<^verbatim>\<open>strconv.FormatInt(n, 10)\<close>.\<close>

fun show_nat :: "nat \<Rightarrow> nat \<Rightarrow> go_string" where
  "show_nat b n =
     (if n < b \<or> b < 2 then [digit_char n] else show_nat b (n div b) @ [digit_char (n mod b)])"

declare show_nat.simps [simp del]

definition show_int :: "int \<Rightarrow> go_string" where
  "show_int n = (if n < 0 then CHR ''-'' # show_nat 10 (nat (- n)) else show_nat 10 (nat n))"

lemma parse_digits_append:
  "parse_digits b (s @ t) acc = Option.bind (parse_digits b s acc) (parse_digits b t)"
  by (induction s arbitrary: acc) auto

lemma parse_show_nat: "2 \<le> b \<Longrightarrow> b \<le> 10 \<Longrightarrow> parse_digits b (show_nat b n) 0 = Some n"
proof (induction b n rule: show_nat.induct)
  case (1 b n)
  show ?case
  proof (cases "n < b")
    case True
    with "1.prems" show ?thesis by (simp add: show_nat.simps [of b n])
  next
    case False
    with "1.prems" have "parse_digits b (show_nat b (n div b)) 0 = Some (n div b)"
      by (intro "1.IH") auto
    moreover have "parse_digits b [digit_char r] q = Some (q * b + r)" if "r < b" for q r
      using that "1.prems" by simp
    moreover have "n mod b < b" using "1.prems" by simp
    ultimately show ?thesis
      using False "1.prems"(1) by (simp add: show_nat.simps [of b n] parse_digits_append del: parse_digits.simps)
  qed
qed

lemma show_nat_nonempty [simp]: "show_nat b n \<noteq> []"
  by (subst show_nat.simps) simp

lemma show_nat_digits: "b \<le> 10 \<Longrightarrow> 2 \<le> b \<Longrightarrow> \<forall>c \<in> set (show_nat b n). is_digit c"
proof (induction b n rule: show_nat.induct)
  case (1 b n)
  have "n mod b < 10" using "1.prems" mod_less_divisor [of b n] by linarith
  with 1 show ?case by (subst show_nat.simps) auto
qed

lemma is_digit_graphic: "is_digit c \<Longrightarrow> graphic c \<and> c \<noteq> CHR ''=''"
  by (auto simp: is_digit_def graphic_def)

lemma is_digit_no_sign: "is_digit c \<Longrightarrow> c \<noteq> CHR ''+'' \<and> c \<noteq> CHR ''-''"
  by (auto simp: is_digit_def)

text \<open>Printing a number and reading it back.\<close>

lemma parse_show_int:
  assumes "- (2 ^ 63) \<le> n" and "n < 2 ^ 63"
  shows "parse_int (show_int n) = Some n"
proof -
  have hd: "hd (show_nat 10 k) \<noteq> CHR ''+'' \<and> hd (show_nat 10 k) \<noteq> CHR ''-''" for k
    using show_nat_digits [of 10 k] hd_in_set [OF show_nat_nonempty, of 10 k] is_digit_no_sign
    by fastforce
  show ?thesis
    using assms hd
    by (auto simp: parse_int_def show_int_def parse_show_nat nat_le_iff nat_less_iff)
qed

lemma show_int_graphic: "\<forall>c \<in> set (show_int n). graphic c \<and> c \<noteq> CHR ''=''"
  using show_nat_digits [of 10] is_digit_graphic by (auto simp: show_int_def graphic_def)

lemma show_int_nonempty [simp]: "show_int n \<noteq> []"
  by (simp add: show_int_def)

lemma parse_digits_Some_digits: "parse_digits b s acc = Some n \<Longrightarrow> \<forall>c \<in> set s. is_digit c"
  by (induction s arbitrary: acc) (auto split: if_splits)

lemma parse_int_bounds: "parse_int s = Some n \<Longrightarrow> - (2 ^ 63) \<le> n \<and> n < 2 ^ 63"
  by (auto simp: parse_int_def Let_def split: if_splits option.splits)

lemma parse_uint_bounds: "parse_uint b bits s = Some n \<Longrightarrow> n < 2 ^ bits"
  by (auto simp: parse_uint_def split: if_splits option.splits)

lemma atoi_digits:
  assumes "\<forall>c \<in> set s. is_digit c" and "atoi s = Some n"
  shows "0 \<le> n"
proof -
  have "s \<noteq> [] \<Longrightarrow> hd s \<noteq> CHR ''-''"
    using assms(1) is_digit_no_sign hd_in_set by blast
  with assms(2) show ?thesis
    by (auto simp: parse_int_def Let_def split: if_splits option.splits)
qed

end
