(* ===== verification/Protocol.thy ===== *)
theory Protocol
  imports GoText "HOL-Library.Multiset"
begin

text \<open>
  The worker protocol of \<^verbatim>\<open>src/main.go\<close>: one event per line, space-separated \<open>key=value\<close>
  fields (\<^verbatim>\<open>WriteEvent\<close>, \<^verbatim>\<open>ParseEvent\<close>, \<^verbatim>\<open>parseFields\<close>, \<^verbatim>\<open>validValue\<close>), and the goroutine of
  \<^verbatim>\<open>startProcess\<close> that turns a worker's stdout into messages: first the handshake, then one
  message per event until the stream fails.  The lemmas: what a line must be to be accepted,
  the round trip of writing and parsing, independence of the order of the fields, and that a
  worker writing well-formed events is read back event by event.
\<close>

subsection \<open>Events\<close>

record event =
  ev_type :: go_string
  ev_time :: int
  ev_id :: go_string
  ev_duration :: int

datatype protocol_error =
    InvalidRequestId
  | InvalidField go_string
  | UnsupportedVersion go_string
  | InvalidTimestamp
  | ReadyFields
  | InvalidDuration
  | UnexpectedFields
  | UnknownEvent go_string

text \<open>A rune of a value is printable ASCII other than a space and \<open>=\<close>; bytes outside ASCII are refused.\<close>

definition valid_value :: "go_string \<Rightarrow> bool" where
  "valid_value value \<longleftrightarrow> value \<noteq> [] \<and>
     list_all (\<lambda>c. \<not> ((of_char c :: nat) \<le> 32 \<or> (of_char c :: nat) > 126 \<or> c = CHR ''='')) value"

text \<open>The line \<^verbatim>\<open>WriteEvent\<close> hands to the writer, without its newline.\<close>

definition event_line :: "event \<Rightarrow> protocol_error + go_string" where
  "event_line e =
     (let line = ''v=1 event='' @ ev_type e @ '' ts='' @ show_int (ev_time e);
          has_id = (ev_type e = ''start'' \<or> ev_type e = ''end'')
      in if has_id \<and> \<not> valid_value (ev_id e) then Inl InvalidRequestId
         else Inr (line @ (if has_id then '' id='' @ ev_id e else [])
                        @ (if ev_type e = ''end'' then '' duration_ns='' @ show_int (ev_duration e) else [])))"

definition newline :: char where "newline = CHR 0x0A"
definition carriage_return :: char where "carriage_return = CHR 0x0D"

definition write_event :: "event \<Rightarrow> protocol_error + go_string" where
  "write_event e = map_sum id (\<lambda>line. line @ [newline]) (event_line e)"

text \<open>The loop of \<^verbatim>\<open>parseFields\<close> over the tokens of a line; \<open>fs\<close> is the map built so far.\<close>

fun parse_tokens :: "(go_string \<times> go_string) list \<Rightarrow> go_string list
    \<Rightarrow> protocol_error + (go_string \<times> go_string) list" where
  "parse_tokens fs [] = Inr fs"
| "parse_tokens fs (token # tokens) =
     (let (key, value, ok) = cut token ''='' in
      if \<not> ok \<or> key = [] \<or> \<not> valid_value value \<or> lookup_or [] fs key \<noteq> []
      then Inl (InvalidField token)
      else parse_tokens (fs @ [(key, value)]) tokens)"

definition parse_fields :: "go_string \<Rightarrow> protocol_error + (go_string \<times> go_string) list" where
  "parse_fields line = (case parse_tokens [] (go_fields line) of
     Inl e \<Rightarrow> Inl e
   | Inr fs \<Rightarrow>
       if lookup_or [] fs ''v'' \<noteq> ''1'' then Inl (UnsupportedVersion (lookup_or [] fs ''v''))
       else Inr fs)"

definition parse_event :: "go_string \<Rightarrow> protocol_error + event" where
  "parse_event line = (case parse_fields line of
     Inl e \<Rightarrow> Inl e
   | Inr fs \<Rightarrow>
       (let kind = lookup_or [] fs ''event''; ident = lookup_or [] fs ''id'' in
        case parse_int (lookup_or [] fs ''ts'') of
          None \<Rightarrow> Inl InvalidTimestamp
        | Some ts \<Rightarrow>
            if ts \<le> 0 then Inl InvalidTimestamp
            else if kind = ''ready'' then
              (if length fs \<noteq> 3 then Inl ReadyFields
               else Inr \<lparr>ev_type = kind, ev_time = ts, ev_id = ident, ev_duration = 0\<rparr>)
            else if kind = ''start'' \<or> kind = ''end'' then
              (if \<not> valid_value ident then Inl InvalidRequestId
               else if kind = ''end'' then
                 (case parse_int (lookup_or [] fs ''duration_ns'') of
                    None \<Rightarrow> Inl InvalidDuration
                  | Some d \<Rightarrow>
                      if d < 0 then Inl InvalidDuration
                      else if length fs \<noteq> 5 then Inl UnexpectedFields
                      else Inr \<lparr>ev_type = kind, ev_time = ts, ev_id = ident, ev_duration = d\<rparr>)
               else if length fs \<noteq> 4 then Inl UnexpectedFields
               else Inr \<lparr>ev_type = kind, ev_time = ts, ev_id = ident, ev_duration = 0\<rparr>)
            else Inl (UnknownEvent kind)))"

subsection \<open>The fields of a line\<close>

definition token_ok :: "go_string \<Rightarrow> bool" where
  "token_ok token \<longleftrightarrow> (let (key, value, ok) = cut token ''='' in ok \<and> key \<noteq> [] \<and> valid_value value)"

definition token_pair :: "go_string \<Rightarrow> go_string \<times> go_string" where
  "token_pair token = (let (key, value, ok) = cut token ''='' in (key, value))"

lemma valid_value_nonempty: "valid_value v \<Longrightarrow> v \<noteq> []"
  by (simp add: valid_value_def)

lemma lookup_or_Nil_iff:
  "\<forall>(k, v) \<in> set m. v \<noteq> [] \<Longrightarrow> lookup_or [] m k \<noteq> [] \<longleftrightarrow> k \<in> fst ` set m"
  by (induction m) (auto split: if_splits)

text \<open>
  The loop accepts exactly the tokens that are well formed and have distinct keys, and keeps
  one entry for each.
\<close>

lemma parse_tokens_Inr_iff:
  assumes "\<forall>(k, v) \<in> set fs. v \<noteq> []" and "distinct (map fst fs)"
  shows "parse_tokens fs tokens = Inr m \<longleftrightarrow>
     list_all token_ok tokens \<and> distinct (map fst (fs @ map token_pair tokens))
     \<and> m = fs @ map token_pair tokens"
  using assms
proof (induction tokens arbitrary: fs)
  case Nil
  then show ?case by auto
next
  case (Cons t ts)
  obtain k v ok where c: "cut t ''='' = (k, v, ok)" by (cases "cut t ''=''")
  show ?case
  proof (cases "token_ok t \<and> k \<notin> fst ` set fs")
    case True
    then have "ok \<and> k \<noteq> [] \<and> valid_value v \<and> lookup_or [] fs k = []"
      using c lookup_or_Nil_iff [OF Cons.prems(1), of k] by (auto simp: token_ok_def)
    then have "parse_tokens fs (t # ts) = parse_tokens (fs @ [(k, v)]) ts"
      using c by simp
    moreover have "token_pair t = (k, v)" using c by (simp add: token_pair_def)
    moreover have "\<forall>(a, b) \<in> set (fs @ [(k, v)]). b \<noteq> []"
      using Cons.prems(1) True c by (auto simp: token_ok_def dest: valid_value_nonempty)
    moreover have "distinct (map fst (fs @ [(k, v)]))"
      using Cons.prems(2) True by auto
    ultimately show ?thesis
      using Cons.IH [of "fs @ [(k, v)]"] True by auto
  next
    case False
    then have "parse_tokens fs (t # ts) = Inl (InvalidField t)"
      using c lookup_or_Nil_iff [OF Cons.prems(1), of k] by (auto simp: token_ok_def)
    moreover have "token_pair t = (k, v)" using c by (simp add: token_pair_def)
    ultimately show ?thesis using False by auto
  qed
qed

lemma parse_fields_Inr_iff:
  "parse_fields line = Inr m \<longleftrightarrow>
     list_all token_ok (go_fields line) \<and> distinct (map fst (map token_pair (go_fields line)))
     \<and> m = map token_pair (go_fields line) \<and> lookup_or [] m ''v'' = ''1''"
  using parse_tokens_Inr_iff [of "[]" "go_fields line" m]
  by (auto simp: parse_fields_def split: sum.splits)

lemma parse_fields_distinct: "parse_fields line = Inr m \<Longrightarrow> distinct (map fst m)"
  by (simp add: parse_fields_Inr_iff)

lemma keys_eq_if_length:
  assumes "distinct (map fst m)" and "distinct ks" and "set ks \<subseteq> fst ` set m"
    and "length m = length ks"
  shows "fst ` set m = set ks"
proof -
  have "card (fst ` set m) = length m"
    using distinct_card [OF assms(1)] by simp
  also have "\<dots> = card (set ks)" using assms(2,4) by (simp add: distinct_card)
  finally show ?thesis using card_subset_eq [OF _ assms(3)] by simp
qed

subsection \<open>What an accepted line says\<close>

definition event_ok :: "event \<Rightarrow> bool" where
  "event_ok e \<longleftrightarrow> 0 < ev_time e \<and> ev_time e < 2 ^ 63 \<and>
     (if ev_type e = ''ready'' then ev_id e = [] \<and> ev_duration e = 0
      else if ev_type e = ''start'' then valid_value (ev_id e) \<and> ev_duration e = 0
      else ev_type e = ''end'' \<and> valid_value (ev_id e) \<and> 0 \<le> ev_duration e \<and> ev_duration e < 2 ^ 63)"

definition event_keys :: "go_string \<Rightarrow> go_string list" where
  "event_keys kind =
     [''v'', ''event'', ''ts''] @ (if kind = ''ready'' then [] else [''id''])
       @ (if kind = ''end'' then [''duration_ns''] else [])"

lemma parse_int_Nil [simp]: "parse_int [] = None"
  by (simp add: parse_int_def)

lemma parse_event_Inr:
  assumes "parse_event line = Inr e"
  obtains m where "parse_fields line = Inr m"
    and "ev_type e = lookup_or [] m ''event''" and "ev_id e = lookup_or [] m ''id''"
    and "parse_int (lookup_or [] m ''ts'') = Some (ev_time e)" and "0 < ev_time e"
    and "ev_type e = ''ready'' \<and> length m = 3 \<and> ev_duration e = 0
      \<or> ev_type e = ''start'' \<and> valid_value (ev_id e) \<and> length m = 4 \<and> ev_duration e = 0
      \<or> ev_type e = ''end'' \<and> valid_value (ev_id e) \<and> length m = 5 \<and> 0 \<le> ev_duration e
        \<and> parse_int (lookup_or [] m ''duration_ns'') = Some (ev_duration e)"
  using assms
  by (auto simp: parse_event_def Let_def split: sum.splits option.splits if_splits)

lemma event_keys_simps:
  "event_keys ''ready'' = [''v'', ''event'', ''ts'']"
  "event_keys ''start'' = [''v'', ''event'', ''ts'', ''id'']"
  "event_keys ''end'' = [''v'', ''event'', ''ts'', ''id'', ''duration_ns'']"
  by (simp_all add: event_keys_def)

lemma parse_event_keys:
  assumes "parse_event line = Inr e" and "parse_fields line = Inr m"
  shows "fst ` set m = set (event_keys (ev_type e))"
proof -
  from assms have
    event: "ev_type e = lookup_or [] m ''event''" and ident: "ev_id e = lookup_or [] m ''id''" and
    ts: "parse_int (lookup_or [] m ''ts'') = Some (ev_time e)" and
    kinds: "ev_type e = ''ready'' \<and> length m = 3 \<and> ev_duration e = 0
      \<or> ev_type e = ''start'' \<and> valid_value (ev_id e) \<and> length m = 4 \<and> ev_duration e = 0
      \<or> ev_type e = ''end'' \<and> valid_value (ev_id e) \<and> length m = 5 \<and> 0 \<le> ev_duration e
        \<and> parse_int (lookup_or [] m ''duration_ns'') = Some (ev_duration e)"
    by (auto elim!: parse_event_Inr)
  have in_m: "k \<in> fst ` set m" if "lookup_or [] m k \<noteq> []" for k
    using that by (rule lookup_or_in)
  have "lookup_or [] m ''v'' = ''1''" 
    using assms(2) unfolding parse_fields_Inr_iff by blast
  then have base: "''v'' \<in> fst ` set m" "''ts'' \<in> fst ` set m"
    using ts by (auto intro!: in_m)
  from kinds have "set (event_keys (ev_type e)) \<subseteq> fst ` set m
      \<and> length m = length (event_keys (ev_type e)) \<and> distinct (event_keys (ev_type e))"
  proof (elim disjE conjE)
    assume t: "ev_type e = ''ready''" and "length m = 3"
    moreover have "''event'' \<in> fst ` set m" using t by (intro in_m) (simp add: event [symmetric])
    ultimately show ?thesis using base by (simp add: event_keys_simps)
  next
    assume t: "ev_type e = ''start''" and "length m = 4" and "valid_value (ev_id e)"
    moreover have "''event'' \<in> fst ` set m" using t by (intro in_m) (simp add: event [symmetric])
    moreover have "''id'' \<in> fst ` set m"
      using \<open>valid_value (ev_id e)\<close> by (intro in_m) (simp add: valid_value_def ident [symmetric])
    ultimately show ?thesis using base by (simp add: event_keys_simps)
  next
    assume t: "ev_type e = ''end''" and "length m = 5" and "valid_value (ev_id e)"
      and d: "parse_int (lookup_or [] m ''duration_ns'') = Some (ev_duration e)"
    moreover have "''event'' \<in> fst ` set m" using t by (intro in_m) (simp add: event [symmetric])
    moreover have "''id'' \<in> fst ` set m"
      using \<open>valid_value (ev_id e)\<close> by (intro in_m) (simp add: valid_value_def ident [symmetric])
    moreover have "''duration_ns'' \<in> fst ` set m" using d by (intro in_m) auto
    ultimately show ?thesis using base by (simp add: event_keys_simps)
  qed
  then show ?thesis
    using keys_eq_if_length parse_fields_distinct [OF assms(2)] by blast
qed

text \<open>The three shapes of an event.\<close>

lemma event_ok_iff:
  "event_ok e \<longleftrightarrow> 0 < ev_time e \<and> ev_time e < 2 ^ 63 \<and>
     (e = \<lparr>ev_type = ''ready'', ev_time = ev_time e, ev_id = [], ev_duration = 0\<rparr>
      \<or> e = \<lparr>ev_type = ''start'', ev_time = ev_time e, ev_id = ev_id e, ev_duration = 0\<rparr>
        \<and> valid_value (ev_id e)
      \<or> e = \<lparr>ev_type = ''end'', ev_time = ev_time e, ev_id = ev_id e, ev_duration = ev_duration e\<rparr>
        \<and> valid_value (ev_id e) \<and> 0 \<le> ev_duration e \<and> ev_duration e < 2 ^ 63)"
  by (cases e) (auto simp: event_ok_def)

lemma event_ok_cases:
  assumes "event_ok e"
  obtains (ready) ts where "e = \<lparr>ev_type = ''ready'', ev_time = ts, ev_id = [], ev_duration = 0\<rparr>"
      "0 < ts" "ts < 2 ^ 63"
  | (start) ts i where "e = \<lparr>ev_type = ''start'', ev_time = ts, ev_id = i, ev_duration = 0\<rparr>"
      "0 < ts" "ts < 2 ^ 63" "valid_value i"
  | (finish) ts i d where "e = \<lparr>ev_type = ''end'', ev_time = ts, ev_id = i, ev_duration = d\<rparr>"
      "0 < ts" "ts < 2 ^ 63" "valid_value i" "0 \<le> d" "d < 2 ^ 63"
  using assms by (cases e) (auto simp: event_ok_iff)

lemma parse_event_event_ok:
  assumes "parse_event line = Inr e"
  shows "event_ok e"
proof -
  from assms obtain m where m: "parse_fields line = Inr m" by (elim parse_event_Inr) auto
  have keys: "lookup_or [] m ''id'' = []" if "ev_type e = ''ready''"
    using parse_event_keys [OF assms m] that
    by (intro lookup_or_absent) (simp add: event_keys_simps)
  from assms have "ev_time e < 2 ^ 63" and "ev_duration e < 2 ^ 63"
    by (auto elim!: parse_event_Inr dest!: parse_int_bounds)
  moreover from assms m have ident: "ev_id e = lookup_or [] m ''id''" and "0 < ev_time e" and
    "ev_type e = ''ready'' \<and> length m = 3 \<and> ev_duration e = 0
      \<or> ev_type e = ''start'' \<and> valid_value (ev_id e) \<and> length m = 4 \<and> ev_duration e = 0
      \<or> ev_type e = ''end'' \<and> valid_value (ev_id e) \<and> length m = 5 \<and> 0 \<le> ev_duration e
        \<and> parse_int (lookup_or [] m ''duration_ns'') = Some (ev_duration e)"
    by (auto elim!: parse_event_Inr)
  ultimately show ?thesis
    by (elim disjE conjE) (simp_all add: event_ok_def keys)
qed

subsection \<open>Writing and reading back\<close>

fun join :: "go_string list \<Rightarrow> go_string" where
  "join [] = []"
| "join [w] = w"
| "join (w # ws) = w @ CHR '' '' # join ws"

lemma go_fields_join:
  "\<forall>w \<in> set ws. w \<noteq> [] \<and> (\<forall>c \<in> set w. graphic c) \<Longrightarrow> go_fields (join ws) = ws"
  by (induction ws rule: join.induct) (auto simp: go_fields_word go_fields_last space_len_blank)

lemma space_len_newline: "space_len (newline # t) = 1"
  by (simp add: space_len_def newline_def)

lemma go_fields_join_newline:
  "\<forall>w \<in> set ws. w \<noteq> [] \<and> (\<forall>c \<in> set w. graphic c) \<Longrightarrow> ws \<noteq> []
     \<Longrightarrow> go_fields (join ws @ [newline]) = ws"
  by (induction ws rule: join.induct)
    (auto simp: go_fields_word space_len_newline space_len_blank)

definition event_tokens :: "event \<Rightarrow> go_string list" where
  "event_tokens e =
     [''v=1'', ''event='' @ ev_type e, ''ts='' @ show_int (ev_time e)]
       @ (if ev_type e = ''ready'' then [] else [''id='' @ ev_id e])
       @ (if ev_type e = ''end'' then [''duration_ns='' @ show_int (ev_duration e)] else [])"

lemma event_line_tokens: "event_ok e \<Longrightarrow> event_line e = Inr (join (event_tokens e))"
  by (erule event_ok_cases) (simp_all add: event_line_def event_tokens_def Let_def)

lemma value_char_iff:
  "\<not> ((of_char c :: nat) \<le> 32 \<or> (of_char c :: nat) > 126 \<or> c = CHR ''='')
     \<longleftrightarrow> graphic c \<and> c \<noteq> CHR ''=''"
  unfolding graphic_def by linarith

lemma valid_value_iff:
  "valid_value v \<longleftrightarrow> v \<noteq> [] \<and> (\<forall>c \<in> set v. graphic c \<and> c \<noteq> CHR ''='')"
  unfolding valid_value_def list_all_iff value_char_iff ..

lemma valid_value_graphic: "valid_value v \<Longrightarrow> c \<in> set v \<Longrightarrow> graphic c"
  unfolding valid_value_iff by blast

lemma valid_value_show_int [simp]: "valid_value (show_int n)"
  unfolding valid_value_iff using show_int_graphic [of n] show_int_nonempty by blast

lemma token_of_pair:
  assumes "CHR ''='' \<notin> set k"
  shows "token_pair (k @ CHR ''='' # v) = (k, v)"
    and "token_ok (k @ CHR ''='' # v) \<longleftrightarrow> k \<noteq> [] \<and> valid_value v"
  using cut_single_first [OF assms, of v] by (simp_all add: token_pair_def token_ok_def)

lemmas token_simps = token_of_pair [of "''v''" for v, simplified]
  token_of_pair [of "''event''" for v, simplified] token_of_pair [of "''ts''" for v, simplified]
  token_of_pair [of "''id''" for v, simplified] token_of_pair [of "''duration_ns''" for v, simplified]

lemma graphic_append [simp]:
  "(\<forall>c \<in> set (s @ t). graphic c) \<longleftrightarrow> (\<forall>c \<in> set s. graphic c) \<and> (\<forall>c \<in> set t. graphic c)"
  by auto

lemma show_int_all_graphic [simp]: "c \<in> set (show_int n) \<Longrightarrow> graphic c"
  using show_int_graphic by blast

lemma event_tokens_graphic:
  assumes "event_ok e"
  shows "\<forall>w \<in> set (event_tokens e). w \<noteq> [] \<and> (\<forall>c \<in> set w. graphic c)"
proof -
  have lit: "graphic c" if "c \<in> set (''v=1'' @ ''event='' @ ''ts='' @ ''id='' @ ''duration_ns=''
      @ ''ready'' @ ''start'' @ ''end'')" for c
    using that by (auto simp: graphic_def)
  from assms show ?thesis
    by (cases rule: event_ok_cases) (auto simp: event_tokens_def lit dest: valid_value_graphic)
qed

lemma event_tokens_nonempty [simp]: "event_tokens e \<noteq> []"
  by (simp add: event_tokens_def)

lemma parse_fields_tokens:
  assumes "event_ok e" and "go_fields line = event_tokens e"
  shows "parse_fields line = Inr (map token_pair (event_tokens e))"
proof -
  have one: "valid_value ''1''" "valid_value ''ready''" "valid_value ''start''" "valid_value ''end''"
    by (simp_all add: valid_value_def)
  from assms(1) have "list_all token_ok (event_tokens e)
      \<and> distinct (map fst (map token_pair (event_tokens e)))
      \<and> lookup_or [] (map token_pair (event_tokens e)) ''v'' = ''1''"
    by (cases rule: event_ok_cases) (simp_all add: event_tokens_def token_simps one)
  with assms(2) show ?thesis by (simp add: parse_fields_Inr_iff)
qed

lemma parse_event_tokens:
  assumes "event_ok e" and "go_fields line = event_tokens e"
  shows "parse_event line = Inr e"
  using assms(1) parse_fields_tokens [OF assms]
  by (cases rule: event_ok_cases)
    (simp_all add: parse_event_def event_tokens_def token_simps parse_show_int)

lemma parse_written_event:
  assumes "event_ok e"
  shows "parse_event (join (event_tokens e)) = Inr e"
    and "parse_event (join (event_tokens e) @ [newline]) = Inr e"
  using event_tokens_graphic [OF assms]
  by (intro parse_event_tokens [OF assms], simp add: go_fields_join go_fields_join_newline)+

subsection \<open>Line-oriented streams\<close>

text \<open>
  The standard library's line readers on a whole stream.  \<open>read_slice\<close> is
  \<^verbatim>\<open>bufio.Reader.ReadSlice('\n')\<close> with the given buffer: it fails when no newline comes within the
  buffer.  \<open>scan_lines\<close> is a \<^verbatim>\<open>bufio.Scanner\<close> splitting lines with that buffer: the lines it
  delivers and whether it stopped at a line that does not fit.
\<close>

definition read_slice :: "nat \<Rightarrow> go_string \<Rightarrow> (go_string \<times> go_string) option" where
  "read_slice cap s = (case dropWhile (\<lambda>c. c \<noteq> newline) s of
     [] \<Rightarrow> None
   | _ # rest \<Rightarrow>
       let line = takeWhile (\<lambda>c. c \<noteq> newline) s in
       if length line < cap then Some (line @ [newline], rest) else None)"

definition drop_cr :: "go_string \<Rightarrow> go_string" where
  "drop_cr line = (if line \<noteq> [] \<and> last line = carriage_return then butlast line else line)"

function scan_lines :: "nat \<Rightarrow> go_string \<Rightarrow> go_string list \<times> bool" where
  "scan_lines cap s =
     (if s = [] then ([], False)
      else let line = takeWhile (\<lambda>c. c \<noteq> newline) s in
        if length line \<ge> cap then ([], True)
        else (case dropWhile (\<lambda>c. c \<noteq> newline) s of
          [] \<Rightarrow> ([drop_cr line], False)
        | _ # rest \<Rightarrow> let (ls, long) = scan_lines cap rest in (drop_cr line # ls, long)))"
  by pat_completeness auto
termination
proof (relation "measure (\<lambda>(n, s). length s)")
  fix s :: go_string and cap :: nat and x y rest
  assume "dropWhile (\<lambda>c. c \<noteq> newline) s = y # rest"
  then have "length (y # rest) \<le> length s" by (metis length_dropWhile_le)
  then show "((cap, rest), (cap, s)) \<in> measure (\<lambda>(n, s). length s)" by simp
qed auto

declare scan_lines.simps [simp del]

text \<open>
  The contract between a writer of one record per line and a reader of lines: decoding an
  encoded record gives it back, and its encoding is one line.
\<close>

locale line_codec =
  fixes enc :: "'a \<Rightarrow> go_string" and dec :: "go_string \<Rightarrow> 'a option" and ok :: "'a \<Rightarrow> bool"
  assumes dec_enc: "ok x \<Longrightarrow> dec (enc x) = Some x"
    and enc_line: "ok x \<Longrightarrow> c \<in> set (enc x) \<Longrightarrow> c \<noteq> newline \<and> c \<noteq> carriage_return"
begin

lemma enc_inject: "ok x \<Longrightarrow> ok y \<Longrightarrow> enc x = enc y \<Longrightarrow> x = y"
  using dec_enc by (metis option.inject)

lemma scan_one:
  assumes "ok x" and "length (enc x) < cap"
  shows "scan_lines cap (enc x @ newline # rest) =
    (let (ls, long) = scan_lines cap rest in (enc x # ls, long))"
proof -
  have plain: "\<forall>c \<in> set (enc x). c \<noteq> newline" using enc_line [OF assms(1)] by blast
  have "takeWhile (\<lambda>c. c \<noteq> newline) (enc x @ newline # rest) = enc x"
    and "dropWhile (\<lambda>c. c \<noteq> newline) (enc x @ newline # rest) = newline # rest"
    by (rule takeWhile_append_stop [OF plain], simp) (rule dropWhile_append_stop [OF plain], simp)
  moreover have "drop_cr (enc x) = enc x"
    using enc_line [OF assms(1)] last_in_set [of "enc x"] by (auto simp: drop_cr_def)
  ultimately show ?thesis
    using assms(2) by (simp add: scan_lines.simps [of cap "enc x @ newline # rest"] Let_def)
qed

lemma scan_stream:
  assumes "\<forall>x \<in> set xs. ok x \<and> length (enc x) < cap"
  shows "scan_lines cap (concat (map (\<lambda>x. enc x @ [newline]) xs)) = (map enc xs, False)"
  using assms
proof (induction xs)
  case Nil
  show ?case by (simp add: scan_lines.simps [of cap "[]"])
next
  case (Cons x xs)
  then show ?case by (simp add: scan_one)
qed

lemma decode_stream:
  assumes "\<forall>x \<in> set xs. ok x \<and> length (enc x) < cap"
  shows "map dec (fst (scan_lines cap (concat (map (\<lambda>x. enc x @ [newline]) xs)))) = map Some xs"
  using scan_stream [OF assms] assms dec_enc by simp

end

definition encode_event :: "event \<Rightarrow> go_string" where
  "encode_event e = (case event_line e of Inl _ \<Rightarrow> [] | Inr line \<Rightarrow> line)"

definition decode_event :: "go_string \<Rightarrow> event option" where
  "decode_event line = (case parse_event line of Inl _ \<Rightarrow> None | Inr e \<Rightarrow> Some e)"

lemma encode_event_ok: "event_ok e \<Longrightarrow> encode_event e = join (event_tokens e)"
  by (simp add: encode_event_def event_line_tokens)

lemma join_chars: "c \<in> set (join ws) \<Longrightarrow> c = CHR '' '' \<or> (\<exists>w \<in> set ws. c \<in> set w)"
  by (induction ws rule: join.induct) auto

lemma not_graphic_line_ends: "graphic c \<or> c = CHR '' '' \<Longrightarrow> c \<noteq> newline \<and> c \<noteq> carriage_return"
  by (auto simp: graphic_def newline_def carriage_return_def)

interpretation event_codec: line_codec encode_event decode_event event_ok
proof
  fix e c
  assume ok: "event_ok e"
  show "decode_event (encode_event e) = Some e"
    using parse_written_event(1) [OF ok] by (simp add: encode_event_ok [OF ok] decode_event_def)
  assume "c \<in> set (encode_event e)"
  then have "c \<in> set (join (event_tokens e))" by (simp add: encode_event_ok [OF ok])
  then have "graphic c \<or> c = CHR '' ''"
    using join_chars event_tokens_graphic [OF ok] by blast
  then show "c \<noteq> newline \<and> c \<noteq> carriage_return" by (rule not_graphic_line_ends)
qed

subsection \<open>The reader of a worker's stdout\<close>

datatype stream_error = MalformedEvent protocol_error | LineTooLong | StreamClosed

datatype stream_message =
    Handshake bool
  | StreamEvent event
  | StreamFailure stream_error

fun scan_events :: "go_string list \<Rightarrow> stream_error \<Rightarrow> stream_message list" where
  "scan_events [] closing = [StreamFailure closing]"
| "scan_events (line # lines) closing = (case parse_event line of
     Inl e \<Rightarrow> [StreamFailure (MalformedEvent e)]
   | Inr ev \<Rightarrow> StreamEvent ev # scan_events lines closing)"

text \<open>The messages the goroutine sends for all that a worker writes to its stdout until it closes it.\<close>

definition worker_messages :: "go_string \<Rightarrow> stream_message list" where
  "worker_messages out =
     (let protocol = (case read_slice 4096 out of
            None \<Rightarrow> False
          | Some (first, _) \<Rightarrow>
              (case parse_event first of Inl _ \<Rightarrow> False | Inr e \<Rightarrow> ev_type e = ''ready''))
      in Handshake protocol #
        (if \<not> protocol then []
         else case read_slice 4096 out of
           None \<Rightarrow> []
         | Some (_, rest) \<Rightarrow>
             (let (lines, long) = scan_lines 4096 rest in
              scan_events lines (if long then LineTooLong else StreamClosed))))"

text \<open>What a worker that uses \<^verbatim>\<open>WriteEvent\<close> writes for a list of events.\<close>

fun write_events :: "event list \<Rightarrow> protocol_error + go_string" where
  "write_events [] = Inr []"
| "write_events (e # es) = (case write_event e of
     Inl err \<Rightarrow> Inl err
   | Inr line \<Rightarrow> map_sum id (\<lambda>rest. line @ rest) (write_events es))"

lemma write_event_ok: "event_ok e \<Longrightarrow> write_event e = Inr (encode_event e @ [newline])"
  by (simp add: write_event_def event_line_tokens encode_event_ok)

lemma write_events_ok:
  "\<forall>e \<in> set es. event_ok e
     \<Longrightarrow> write_events es = Inr (concat (map (\<lambda>e. encode_event e @ [newline]) es))"
  by (induction es) (auto simp: write_event_ok)

lemma scan_events_encoded:
  "\<forall>e \<in> set es. event_ok e \<Longrightarrow>
     scan_events (map encode_event es) closing = map StreamEvent es @ [StreamFailure closing]"
  by (induction es) (auto simp: encode_event_ok parse_written_event)

lemma read_slice_line:
  assumes "event_ok e" and "length (encode_event e) < cap"
  shows "read_slice cap (encode_event e @ newline # rest) = Some (encode_event e @ [newline], rest)"
proof -
  have plain: "\<forall>c \<in> set (encode_event e). c \<noteq> newline"
    using event_codec.enc_line [OF assms(1)] by blast
  have "takeWhile (\<lambda>c. c \<noteq> newline) (encode_event e @ newline # rest) = encode_event e"
    and "dropWhile (\<lambda>c. c \<noteq> newline) (encode_event e @ newline # rest) = newline # rest"
    by (rule takeWhile_append_stop [OF plain], simp) (rule dropWhile_append_stop [OF plain], simp)
  then show ?thesis using assms(2) by (simp add: read_slice_def)
qed

subsection \<open>Properties\<close>

text \<open>A well-formed event that \<^verbatim>\<open>WriteEvent\<close> writes is one line that \<^verbatim>\<open>ParseEvent\<close> reads back as
  the same event.\<close>

theorem write_parse_event:
  assumes "event_ok e"
  shows "\<exists>line. write_event e = Inr line \<and> parse_event line = Inr e"
  using assms by (simp add: write_event_ok encode_event_ok parse_written_event)

theorem write_parse_event_witness:
  "\<exists>line. write_event \<lparr>ev_type = ''end'', ev_time = 5, ev_id = ''a1'', ev_duration = 7\<rparr> = Inr line
     \<and> parse_event line = Inr \<lparr>ev_type = ''end'', ev_time = 5, ev_id = ''a1'', ev_duration = 7\<rparr>"
  by (rule write_parse_event) (simp add: event_ok_def valid_value_def)

text \<open>Every line \<^verbatim>\<open>ParseEvent\<close> accepts carries exactly the fields of its kind of event, each
  once, and yields a well-formed event, which written out is accepted again.\<close>

theorem parse_event_exact:
  assumes "parse_event line = Inr e"
  shows "event_ok e \<and> distinct (map (fst \<circ> token_pair) (go_fields line))
    \<and> (fst \<circ> token_pair) ` set (go_fields line) = set (event_keys (ev_type e))
    \<and> (\<exists>line'. write_event e = Inr line' \<and> parse_event line' = Inr e)"
proof -
  from assms obtain m where m: "parse_fields line = Inr m" by (elim parse_event_Inr) auto
  then have "m = map token_pair (go_fields line)" and "distinct (map fst m)"
    unfolding parse_fields_Inr_iff by auto
  moreover have "fst ` set m = set (event_keys (ev_type e))"
    using parse_event_keys [OF assms m] .
  moreover have "event_ok e" using assms by (rule parse_event_event_ok)
  ultimately show ?thesis
    by (simp add: write_event_ok encode_event_ok parse_written_event image_comp)
qed

theorem parse_event_exact_witness:
  "event_ok \<lparr>ev_type = ''ready'', ev_time = 9, ev_id = [], ev_duration = 0\<rparr>"
proof -
  have "parse_event '' ts=9 v=1  event=ready''
      = Inr \<lparr>ev_type = ''ready'', ev_time = 9, ev_id = [], ev_duration = 0\<rparr>"
    by code_simp
  from parse_event_exact [OF this] show ?thesis by simp
qed

text \<open>The order of the fields, and the white space around them, make no difference: lines with
  the same fields give the same event.\<close>

theorem parse_event_order:
  assumes "mset (go_fields line) = mset (go_fields line')" and "parse_event line = Inr e"
  shows "parse_event line' = Inr e"
proof -
  from assms(2) obtain m where m: "parse_fields line = Inr m" by (elim parse_event_Inr) auto
  let ?m = "map token_pair (go_fields line')"
  have m_def: "m = map token_pair (go_fields line)" and dist: "distinct (map fst m)"
    and ok: "list_all token_ok (go_fields line)" and v: "lookup_or [] m ''v'' = ''1''"
    using m unfolding parse_fields_Inr_iff by auto
  have perm: "mset m = mset ?m" using assms(1) by (simp add: m_def)
  have same: "lookup_or d m k = lookup_or d ?m k" for d k
  proof -
    have "distinct (map fst ?m)"
      using perm dist by (metis mset_eq_imp_distinct_iff mset_map)
    then have "map_of m = map_of ?m"
      using perm dist by (metis map_of_inject_set mset_eq_setD)
    then show ?thesis by (simp add: lookup_or_def)
  qed
  have "list_all token_ok (go_fields line')"
    using ok assms(1) by (metis list_all_iff mset_eq_setD)
  moreover have "distinct (map fst ?m)"
    using perm dist by (metis mset_eq_imp_distinct_iff mset_map)
  moreover have "lookup_or [] ?m ''v'' = ''1''" using v same by metis
  ultimately have new: "parse_fields line' = Inr ?m"
    unfolding parse_fields_Inr_iff by blast
  have len: "length m = length ?m" using perm by (metis size_mset)
  have "parse_event line' = parse_event line"
    by (simp only: parse_event_def m new sum.case same len)
  with assms(2) show ?thesis by simp
qed

theorem parse_event_order_witness:
  "parse_event '' ts=9 v=1  event=ready''
     = Inr \<lparr>ev_type = ''ready'', ev_time = 9, ev_id = [], ev_duration = 0\<rparr>"
proof (rule parse_event_order)
  show "mset (go_fields ''v=1 event=ready ts=9'') = mset (go_fields '' ts=9 v=1  event=ready'')"
    by (simp add: space_len_def)
  show "parse_event ''v=1 event=ready ts=9''
      = Inr \<lparr>ev_type = ''ready'', ev_time = 9, ev_id = [], ev_duration = 0\<rparr>"
    by code_simp
qed

text \<open>C25: A worker that first writes a well-formed \<^verbatim>\<open>ready\<close> event and then well-formed events, each
  line at most 4096 bytes with its newline, is seen by the supervisor as a successful handshake
  and these events in order, followed by the end of the stream.\<close>

theorem worker_stream_roundtrip:
  assumes "event_ok r" and "ev_type r = ''ready''" and "\<forall>e \<in> set es. event_ok e"
    and "\<forall>e \<in> set (r # es). length (encode_event e) < 4096"
  shows "\<exists>out. write_events (r # es) = Inr out \<and>
    worker_messages out = Handshake True # map StreamEvent es @ [StreamFailure StreamClosed]"
proof -
  let ?body = "concat (map (\<lambda>e. encode_event e @ [newline]) es)"
  have "write_events (r # es) = Inr (encode_event r @ newline # ?body)"
    using assms(1,3) by (simp add: write_event_ok write_events_ok)
  moreover have "read_slice 4096 (encode_event r @ newline # ?body)
      = Some (encode_event r @ [newline], ?body)"
    using assms(1,4) by (intro read_slice_line) auto
  moreover have "parse_event (encode_event r @ [newline]) = Inr r"
    using assms(1) by (simp add: encode_event_ok parse_written_event)
  moreover have "scan_lines 4096 ?body = (map encode_event es, False)"
    using assms(3,4) by (intro event_codec.scan_stream) auto
  ultimately show ?thesis
    using assms(2,3) by (simp add: worker_messages_def scan_events_encoded Let_def)
qed

definition sample_ready :: event where
  "sample_ready = \<lparr>ev_type = ''ready'', ev_time = 9, ev_id = [], ev_duration = 0\<rparr>"

definition sample_start :: event where
  "sample_start = \<lparr>ev_type = ''start'', ev_time = 10, ev_id = ''42'', ev_duration = 0\<rparr>"

theorem worker_stream_roundtrip_witness:
  "\<exists>out. write_events [sample_ready, sample_start] = Inr out \<and>
    worker_messages out = Handshake True # map StreamEvent [sample_start] @ [StreamFailure StreamClosed]"
proof (rule worker_stream_roundtrip)
  show "event_ok sample_ready" and "ev_type sample_ready = ''ready''"
    by (simp_all add: sample_ready_def event_ok_def)
  show "\<forall>e \<in> set [sample_start]. event_ok e"
    by (simp add: sample_start_def event_ok_def valid_value_def)
  show "\<forall>e \<in> set [sample_ready, sample_start]. length (encode_event e) < 4096"
    by (simp add: encode_event_def event_line_def sample_ready_def sample_start_def valid_value_def
        show_int_def show_nat.simps Let_def)
qed

end
