(* ===== verification/Permissions.thy ===== *)
theory Permissions
  imports GoText
begin

unbundle bit_operations_syntax

text \<open>
  The socket permissions of \<^verbatim>\<open>src/main.go\<close>: \<^verbatim>\<open>parsePermissions\<close> on octal and symbolic text, and
  the YAML conversions of type \<^verbatim>\<open>Permissions\<close>.  Mode bits are a \<^verbatim>\<open>uint64\<close>, as in the code.  The
  abstract view of a mode is the set of (class, permission) pairs it grants, and a symbolic
  clause is an operation on such sets; the lemmas relate the two.
\<close>

type_synonym mode = "64 word"

text \<open>A scalar as the YAML decoder delivers it into an \<^verbatim>\<open>any\<close>.\<close>

datatype yaml_scalar = YUint mode | YInt mode | YString go_string | YOther

datatype permission_error = NotOctalOrSymbolic | NotRwxBits | NotPermissionValue

subsection \<open>Parsing\<close>

definition who_mask :: "char \<Rightarrow> mode option" where
  "who_mask who =
     (if who = CHR ''u'' then Some 448 else if who = CHR ''g'' then Some 56
      else if who = CHR ''o'' then Some 7 else if who = CHR ''a'' then Some 511 else None)"

definition permission_bits :: "char \<Rightarrow> mode option" where
  "permission_bits permission =
     (if permission = CHR ''r'' then Some 292 else if permission = CHR ''w'' then Some 146
      else if permission = CHR ''x'' then Some 73 else None)"

text \<open>The two loops over the characters of a clause: the union of what each of them means.\<close>

fun collect_bits :: "(char \<Rightarrow> mode option) \<Rightarrow> mode \<Rightarrow> go_string \<Rightarrow> mode option" where
  "collect_bits f acc [] = Some acc"
| "collect_bits f acc (c # cs) =
     (case f c of None \<Rightarrow> None | Some b \<Rightarrow> collect_bits f (acc OR b) cs)"

definition apply_op :: "char \<Rightarrow> mode \<Rightarrow> mode \<Rightarrow> mode \<Rightarrow> mode" where
  "apply_op op cmask bits m =
     (if op = CHR ''='' then (m AND NOT cmask) OR bits
      else if op = CHR ''+'' then m OR bits
      else if op = CHR ''-'' then m AND NOT bits
      else m)"

definition parse_clause :: "go_string \<Rightarrow> mode \<Rightarrow> mode option" where
  "parse_clause clause m = (case index_any clause ''=+-'' of
     None \<Rightarrow> None
   | Some i \<Rightarrow>
       if i < 1 then None
       else case collect_bits who_mask 0 (take i clause) of
         None \<Rightarrow> None
       | Some cmask \<Rightarrow>
           (case collect_bits permission_bits 0 (drop (i + 1) clause) of
              None \<Rightarrow> None
            | Some bits \<Rightarrow> Some (apply_op (clause ! i) cmask (bits AND cmask) m)))"

fun parse_clauses :: "go_string list \<Rightarrow> mode \<Rightarrow> mode option" where
  "parse_clauses [] m = Some m"
| "parse_clauses (c # cs) m = (case parse_clause c m of None \<Rightarrow> None | Some m' \<Rightarrow> parse_clauses cs m')"

definition parse_permissions :: "go_string \<Rightarrow> permission_error + mode" where
  "parse_permissions value = (case parse_uint 8 32 (trim_prefix value ''0o'') of
     Some n \<Rightarrow> Inr (of_nat n)
   | None \<Rightarrow> (case parse_clauses (split_on (CHR '','') value) 432 of
       None \<Rightarrow> Inl NotOctalOrSymbolic
     | Some m \<Rightarrow> Inr m))"

definition unmarshal_permissions :: "yaml_scalar \<Rightarrow> permission_error + mode" where
  "unmarshal_permissions v =
     (case (case v of YUint b \<Rightarrow> Inr b | YInt b \<Rightarrow> Inr b | YString s \<Rightarrow> parse_permissions s
             | YOther \<Rightarrow> Inl NotPermissionValue) of
        Inl e \<Rightarrow> Inl e
      | Inr bits \<Rightarrow> if bits > 511 then Inl NotRwxBits else Inr bits)"

text \<open>\<^verbatim>\<open>fmt.Sprintf("%04o", mode)\<close>.\<close>

definition marshal_permissions :: "mode \<Rightarrow> go_string" where
  "marshal_permissions m =
     (let s = show_nat 8 (unat m) in replicate (4 - length s) (CHR ''0'') @ s)"

subsection \<open>The permissions a mode grants\<close>

datatype who_class = Owner | Group | Other
datatype permission = R | W | X

fun class_shift :: "who_class \<Rightarrow> nat" where
  "class_shift Owner = 6" | "class_shift Group = 3" | "class_shift Other = 0"

fun permission_index :: "permission \<Rightarrow> nat" where
  "permission_index R = 2" | "permission_index W = 1" | "permission_index X = 0"

definition grants :: "mode \<Rightarrow> (who_class \<times> permission) set" where
  "grants m = {(c, p). bit m (class_shift c + permission_index p)}"

definition classes_of :: "char \<Rightarrow> who_class set" where
  "classes_of who =
     (if who = CHR ''u'' then {Owner} else if who = CHR ''g'' then {Group}
      else if who = CHR ''o'' then {Other} else if who = CHR ''a'' then UNIV else {})"

definition permissions_of :: "char \<Rightarrow> permission set" where
  "permissions_of c =
     (if c = CHR ''r'' then {R} else if c = CHR ''w'' then {W} else if c = CHR ''x'' then {X} else {})"

text \<open>A clause as a user reads it: whom it is about, what it does, and which permissions.\<close>

record clause =
  cl_who :: go_string
  cl_op :: char
  cl_permissions :: go_string

definition clause_ok :: "clause \<Rightarrow> bool" where
  "clause_ok c \<longleftrightarrow> cl_who c \<noteq> [] \<and> set (cl_who c) \<subseteq> set ''ugoa''
     \<and> cl_op c \<in> set ''=+-'' \<and> set (cl_permissions c) \<subseteq> set ''rwx''"

definition clause_text :: "clause \<Rightarrow> go_string" where
  "clause_text c = cl_who c @ cl_op c # cl_permissions c"

definition clause_effect :: "clause \<Rightarrow> (who_class \<times> permission) set \<Rightarrow> (who_class \<times> permission) set" where
  "clause_effect c g =
     (let who = (\<Union>x \<in> set (cl_who c). classes_of x);
          perms = (\<Union>x \<in> set (cl_permissions c). permissions_of x)
      in if cl_op c = CHR ''='' then {(w, p). if w \<in> who then p \<in> perms else (w, p) \<in> g}
         else if cl_op c = CHR ''+'' then g \<union> who \<times> perms
         else g - who \<times> perms)"

lemma permission_UNIV: "(UNIV :: permission set) = {R, W, X}"
  using permission.exhaust by blast

lemma who_mask_grants:
  "who_mask w = Some m \<Longrightarrow> bit m (class_shift c + permission_index p) \<longleftrightarrow> c \<in> classes_of w"
  by (cases c; cases p) (auto simp: who_mask_def classes_of_def bit_simps split: if_splits)

lemma permission_bits_grants:
  "permission_bits x = Some m \<Longrightarrow> bit m (class_shift c + permission_index p) \<longleftrightarrow> p \<in> permissions_of x"
  by (cases c; cases p) (auto simp: permission_bits_def permissions_of_def split: if_splits)

lemma who_mask_Some: "who_mask w \<noteq> None \<longleftrightarrow> w \<in> set ''ugoa''"
  by (auto simp: who_mask_def)

lemma permission_bits_Some: "permission_bits x \<noteq> None \<longleftrightarrow> x \<in> set ''rwx''"
  by (auto simp: permission_bits_def)

lemma collect_bits_Some:
  "collect_bits f acc cs = Some m \<Longrightarrow>
     (bit m n \<longleftrightarrow> bit acc n \<or> (\<exists>c \<in> set cs. \<exists>b. f c = Some b \<and> bit b n))
     \<and> (\<forall>c \<in> set cs. f c \<noteq> None)"
  by (induction cs arbitrary: acc) (auto simp: bit_or_iff split: option.splits)

lemma collect_bits_total: "\<forall>c \<in> set cs. f c \<noteq> None \<Longrightarrow> \<exists>m. collect_bits f acc cs = Some m"
  by (induction cs arbitrary: acc) auto

subsection \<open>What a clause does to the permissions granted\<close>

definition rwx_only :: "mode \<Rightarrow> bool" where
  "rwx_only m \<longleftrightarrow> m \<le> 511"

lemma rwx_only_bits: "rwx_only m \<longleftrightarrow> (\<forall>n. bit m n \<longrightarrow> n < 9)"
proof -
  have "rwx_only m \<longleftrightarrow> unat m < 2 ^ 9"
    by (simp add: rwx_only_def word_le_nat_alt) linarith
  also have "\<dots> \<longleftrightarrow> take_bit 9 (unat m) = unat m" by (rule take_bit_nat_eq_self_iff [symmetric])
  also have "\<dots> \<longleftrightarrow> (\<forall>n. bit (unat m) n \<longrightarrow> n < 9)"
    by (auto simp: bit_eq_iff bit_take_bit_iff)
  also have "\<dots> \<longleftrightarrow> (\<forall>n. bit m n \<longrightarrow> n < 9)"
    by (simp add: bit_unsigned_iff)
  finally show ?thesis .
qed

lemma who_mask_rwx: "who_mask w = Some m \<Longrightarrow> rwx_only m"
  by (auto simp: who_mask_def rwx_only_def split: if_splits)

lemma permission_bits_rwx: "permission_bits x = Some m \<Longrightarrow> rwx_only m"
  by (auto simp: permission_bits_def rwx_only_def split: if_splits)

lemma apply_op_grants:
  assumes cmask: "collect_bits who_mask 0 w = Some k" and bits: "collect_bits permission_bits 0 x = Some b"
    and op: "op \<in> set ''=+-''"
  shows "grants (apply_op op k (b AND k) m) = clause_effect \<lparr>cl_who = w, cl_op = op, cl_permissions = x\<rparr> (grants m)"
proof -
  have k: "bit k (class_shift c + permission_index p) \<longleftrightarrow> (\<exists>y \<in> set w. c \<in> classes_of y)" for c p
    using collect_bits_Some [OF cmask] who_mask_grants by (fastforce simp: not_None_eq)
  have b: "bit b (class_shift c + permission_index p) \<longleftrightarrow> (\<exists>y \<in> set x. p \<in> permissions_of y)" for c p
    using collect_bits_Some [OF bits] permission_bits_grants by (fastforce simp: not_None_eq)
  have "class_shift c + permission_index p < 64" for c p
    by (cases c; cases p) auto
  then show ?thesis
    using op
    by (auto simp: grants_def apply_op_def clause_effect_def bit_simps k b)
qed

lemma apply_op_rwx:
  assumes "collect_bits who_mask 0 w = Some k" and "rwx_only m"
  shows "rwx_only (apply_op op k (b AND k) m)"
proof -
  have "rwx_only k"
    using collect_bits_Some [OF assms(1)] who_mask_rwx unfolding rwx_only_bits
    by (metis bit_0_eq bot_apply bot_bool_def)
  then show ?thesis
    using assms(2) by (auto simp: rwx_only_bits apply_op_def bit_simps)
qed

lemma parse_clause_iff:
  "parse_clause s m = Some m' \<longleftrightarrow>
     (\<exists>c k b. clause_ok c \<and> s = clause_text c \<and> collect_bits who_mask 0 (cl_who c) = Some k
       \<and> collect_bits permission_bits 0 (cl_permissions c) = Some b
       \<and> m' = apply_op (cl_op c) k (b AND k) m)"
proof
  assume "parse_clause s m = Some m'"
  then obtain i k b where i: "index_any s ''=+-'' = Some i" "0 < i"
    and k: "collect_bits who_mask 0 (take i s) = Some k"
    and b: "collect_bits permission_bits 0 (drop (i + 1) s) = Some b"
    and m': "m' = apply_op (s ! i) k (b AND k) m"
    by (auto simp: parse_clause_def split: option.splits if_splits)
  let ?c = "\<lparr>cl_who = take i s, cl_op = s ! i, cl_permissions = drop (i + 1) s\<rparr>"
  from index_any_Some [OF i(1)] have len: "i < length s" and op: "s ! i \<in> set ''=+-''" by auto
  have "set (take i s) \<subseteq> set ''ugoa''" "set (drop (i + 1) s) \<subseteq> set ''rwx''"
    using collect_bits_Some [OF k] collect_bits_Some [OF b] who_mask_Some permission_bits_Some
    by blast+
  with len op i(2) have "clause_ok ?c" by (auto simp: clause_ok_def)
  moreover have "s = clause_text ?c" using len by (simp add: clause_text_def id_take_nth_drop)
  ultimately show "\<exists>c k b. clause_ok c \<and> s = clause_text c
      \<and> collect_bits who_mask 0 (cl_who c) = Some k
      \<and> collect_bits permission_bits 0 (cl_permissions c) = Some b
      \<and> m' = apply_op (cl_op c) k (b AND k) m"
    using k b m' by (intro exI [of _ ?c] exI [of _ k] exI [of _ b]) simp
next
  assume "\<exists>c k b. clause_ok c \<and> s = clause_text c \<and> collect_bits who_mask 0 (cl_who c) = Some k
       \<and> collect_bits permission_bits 0 (cl_permissions c) = Some b
       \<and> m' = apply_op (cl_op c) k (b AND k) m"
  then obtain c k b where c: "clause_ok c" and s: "s = cl_who c @ cl_op c # cl_permissions c"
    and kb: "collect_bits who_mask 0 (cl_who c) = Some k"
      "collect_bits permission_bits 0 (cl_permissions c) = Some b"
      "m' = apply_op (cl_op c) k (b AND k) m"
    by (auto simp: clause_text_def)
  have "\<forall>x \<in> set (cl_who c). x \<notin> set ''=+-''" using c by (auto simp: clause_ok_def)
  then have "index_any s ''=+-'' = Some (length (cl_who c))"
    unfolding s using c by (intro index_any_append) (simp_all add: clause_ok_def)
  with c kb show "parse_clause s m = Some m'"
    by (simp add: parse_clause_def s clause_ok_def)
qed

lemma parse_clause_effect:
  assumes "parse_clause s m = Some m'" and "rwx_only m"
  shows "\<exists>c. clause_ok c \<and> s = clause_text c \<and> grants m' = clause_effect c (grants m) \<and> rwx_only m'"
proof -
  from assms(1) obtain c k b where c: "clause_ok c" "s = clause_text c"
    and k: "collect_bits who_mask 0 (cl_who c) = Some k"
    and b: "collect_bits permission_bits 0 (cl_permissions c) = Some b"
    and m': "m' = apply_op (cl_op c) k (b AND k) m"
    unfolding parse_clause_iff by blast
  have "grants m' = clause_effect c (grants m)"
    using apply_op_grants [OF k b, of "cl_op c" m] c by (cases c) (simp add: m' clause_ok_def)
  moreover have "rwx_only m'" unfolding m' using k assms(2) by (rule apply_op_rwx)
  ultimately show ?thesis using c by blast
qed

lemma parse_clause_text: "clause_ok c \<Longrightarrow> \<exists>m'. parse_clause (clause_text c) m = Some m'"
proof -
  assume c: "clause_ok c"
  then obtain k b where "collect_bits who_mask 0 (cl_who c) = Some k"
    and "collect_bits permission_bits 0 (cl_permissions c) = Some b"
    using collect_bits_total who_mask_Some permission_bits_Some
    by (metis clause_ok_def subset_code(1))
  with c show ?thesis unfolding parse_clause_iff by blast
qed

lemma parse_clauses_effect:
  "parse_clauses ss m = Some m' \<Longrightarrow> rwx_only m \<Longrightarrow>
     \<exists>cs. (\<forall>c \<in> set cs. clause_ok c) \<and> ss = map clause_text cs
       \<and> grants m' = fold clause_effect cs (grants m) \<and> rwx_only m'"
proof (induction ss arbitrary: m)
  case Nil
  then show ?case by (intro exI [of _ "[]"]) simp
next
  case (Cons s ss)
  then obtain m1 where m1: "parse_clause s m = Some m1" and rest: "parse_clauses ss m1 = Some m'"
    by (auto split: option.splits)
  from parse_clause_effect [OF m1 Cons.prems(2)] obtain c where
    c: "clause_ok c" "s = clause_text c" "grants m1 = clause_effect c (grants m)" "rwx_only m1"
    by blast
  from Cons.IH [OF rest c(4)] obtain cs where
    "\<forall>c \<in> set cs. clause_ok c" "ss = map clause_text cs"
    "grants m' = fold clause_effect cs (grants m1)" "rwx_only m'"
    by blast
  with c show ?case by (intro exI [of _ "c # cs"]) simp
qed

lemma parse_clauses_total:
  "\<forall>c \<in> set cs. clause_ok c \<Longrightarrow> parse_clauses (map clause_text cs) m \<noteq> None"
proof (induction cs arbitrary: m)
  case (Cons c cs)
  then show ?case using parse_clause_text [of c m] by auto
qed simp

subsection \<open>Properties\<close>

text \<open>C26: Text that is not octal is accepted exactly when it is a comma-separated list of
  clauses over \<open>u/g/o/a\<close>, \<open>=/+/-\<close> and \<open>r/w/x\<close>; the permissions granted are then those of the
  default \<open>0660\<close> changed by the clauses from left to right, and no other bit is set.\<close>

theorem parse_symbolic:
  assumes "parse_uint 8 32 (trim_prefix value ''0o'') = None"
  shows "case parse_permissions value of
      Inl e \<Rightarrow> e = NotOctalOrSymbolic
        \<and> \<not> (\<exists>cs. (\<forall>c \<in> set cs. clause_ok c) \<and> split_on (CHR '','') value = map clause_text cs)
    | Inr m \<Rightarrow> m \<le> 511
        \<and> (\<exists>cs. (\<forall>c \<in> set cs. clause_ok c) \<and> split_on (CHR '','') value = map clause_text cs
             \<and> grants m = fold clause_effect cs (grants 432))"
proof (cases "parse_clauses (split_on (CHR '','') value) 432")
  case None
  then have "\<not> (\<exists>cs. (\<forall>c \<in> set cs. clause_ok c) \<and> split_on (CHR '','') value = map clause_text cs)"
    using parse_clauses_total by fastforce
  with assms None show ?thesis by (simp add: parse_permissions_def)
next
  case (Some m)
  from parse_clauses_effect [OF Some] have "\<exists>cs. (\<forall>c \<in> set cs. clause_ok c)
      \<and> split_on (CHR '','') value = map clause_text cs
      \<and> grants m = fold clause_effect cs (grants 432) \<and> rwx_only m"
    by (simp add: rwx_only_def)
  with assms Some show ?thesis by (auto simp: parse_permissions_def rwx_only_def)
qed

theorem parse_symbolic_witness:
  "\<exists>m. parse_permissions ''u=rw,go-rwx'' = Inr m \<and> m \<le> 511"
proof -
  have "parse_uint 8 32 (trim_prefix ''u=rw,go-rwx'' ''0o'') = None"
    by (simp add: parse_uint_def trim_prefix_def is_digit_def)
  from parse_symbolic [OF this] have "case parse_permissions ''u=rw,go-rwx'' of
      Inl e \<Rightarrow> True | Inr m \<Rightarrow> m \<le> 511" by (auto split: sum.splits)
  moreover have "parse_permissions ''u=rw,go-rwx'' = Inr 384" by code_simp
  ultimately show ?thesis by simp
qed

lemma parse_digits_zeros: "0 < b \<Longrightarrow> parse_digits b (replicate k (CHR ''0'') @ s) 0 = parse_digits b s 0"
  by (induction k) (auto simp: is_digit_def digit_val_def)

text \<open>A mode of permission bits written as YAML and read again is the same mode.\<close>

theorem marshal_unmarshal:
  assumes "m \<le> 511"
  shows "unmarshal_permissions (YString (marshal_permissions m)) = Inr m"
proof -
  let ?z = "replicate (4 - length (show_nat 8 (unat m))) (CHR ''0'')"
  let ?s = "?z @ show_nat 8 (unat m)"
  have digits: "\<forall>c \<in> set ?s. is_digit c"
    using show_nat_digits [of 8 "unat m"] by (auto simp: is_digit_def)
  have "\<not> prefix ''0o'' ?s"
  proof
    assume "prefix ''0o'' ?s"
    then have "CHR ''o'' \<in> set ?s" using set_mono_prefix by fastforce
    then have "is_digit (CHR ''o'')" using digits by blast
    then show False by (simp add: is_digit_def)
  qed
  then have "trim_prefix ?s ''0o'' = ?s" by (simp add: trim_prefix_def)
  moreover have "parse_digits 8 ?s 0 = Some (unat m)"
    by (simp add: parse_digits_zeros parse_show_nat)
  moreover have "unat m < 2 ^ 32" using assms by (simp add: word_le_nat_alt)
  ultimately have "parse_permissions ?s = Inr m"
    by (simp add: parse_permissions_def parse_uint_def)
  with assms show ?thesis
    by (simp add: unmarshal_permissions_def marshal_permissions_def Let_def)
qed

theorem marshal_unmarshal_witness:
  "unmarshal_permissions (YString (marshal_permissions 416)) = Inr 416"
  by (rule marshal_unmarshal) simp

end
