(* ===== verification/GoTime.thy ===== *)
theory GoTime
  imports GoText
begin

text \<open>
  The parts of Go's package \<^verbatim>\<open>time\<close> the supervisor uses: saturating differences of times,
  truncation to the minute and \<^verbatim>\<open>ParseDuration\<close>.  All times of a run are readings of one clock.
  \<open>parse_duration\<close> follows the standard library step by step, its overflow checks included;
  the only floating point computation in it, the fraction of a unit, is done on rationals
  rounded to 53 bits as an IEEE double is.
\<close>

subsection \<open>Times\<close>

definition max_duration :: duration where "max_duration = 2 ^ 63 - 1"
definition min_duration :: duration where "min_duration = - (2 ^ 63)"

text \<open>\<^verbatim>\<open>t.Sub(u)\<close> saturates at the ends of the range of a duration.\<close>

definition time_sub :: "time \<Rightarrow> time \<Rightarrow> duration" where
  "time_sub t u = max min_duration (min max_duration (t - u))"

lemma time_sub_exact [simp]:
  "- (2 ^ 63) \<le> t - u \<Longrightarrow> t - u < 2 ^ 63 \<Longrightarrow> time_sub t u = t - u"
  by (simp add: time_sub_def min_duration_def max_duration_def)

lemma time_sub_ge_iff:
  "min_duration < d \<Longrightarrow> d \<le> max_duration \<Longrightarrow> d \<le> time_sub t u \<longleftrightarrow> d \<le> t - u"
  by (auto simp: time_sub_def)

lemma time_sub_mono: "t \<le> t' \<Longrightarrow> time_sub t u \<le> time_sub t' u"
  by (auto simp: time_sub_def)

lemma time_sub_self [simp]: "time_sub t t = 0"
  by (simp add: time_sub_def min_duration_def max_duration_def)

text \<open>\<^verbatim>\<open>t.Truncate(time.Minute)\<close>, which counts from the zero time.\<close>

definition truncate_minute :: "time \<Rightarrow> time" where
  "truncate_minute t = t - t mod minute"

lemma truncate_minute_bounds: "truncate_minute t \<le> t \<and> t < truncate_minute t + minute"
  by (simp add: truncate_minute_def)

subsection \<open>Doubles\<close>

definition round_half_even :: "rat \<Rightarrow> int" where
  "round_half_even x =
     (let f = \<lfloor>x\<rfloor>; d = x - of_int f in
      if d < 1 / 2 \<or> (d = 1 / 2 \<and> even f) then f else f + 1)"

text \<open>
  The double nearest to a non-negative rational.  The exponents searched hold every value that
  \<open>parse_duration\<close> computes: numbers below \<open>2 ^ 63\<close>, quotients of a unit by at most
  \<open>10 ^ 19\<close> and their products.
\<close>

definition double_of :: "rat \<Rightarrow> rat" where
  "double_of x = (case find (\<lambda>e. 2 powi e \<le> x) (rev [-70..70]) of
     None \<Rightarrow> 0
   | Some e \<Rightarrow> of_int (round_half_even (x * 2 powi (52 - e))) * 2 powi (e - 52))"

subsection \<open>time.ParseDuration\<close>

fun leading_int :: "nat \<Rightarrow> go_string \<Rightarrow> (nat \<times> go_string) option" where
  "leading_int x [] = Some (x, [])"
| "leading_int x (c # s) =
     (if \<not> is_digit c then Some (x, c # s)
      else if x > 2 ^ 63 div 10 then None
      else let y = x * 10 + digit_val c in if y > 2 ^ 63 then None else leading_int y s)"

fun leading_fraction :: "nat \<Rightarrow> nat \<Rightarrow> bool \<Rightarrow> go_string \<Rightarrow> nat \<times> nat \<times> go_string" where
  "leading_fraction x scale overflow [] = (x, scale, [])"
| "leading_fraction x scale overflow (c # s) =
     (if \<not> is_digit c then (x, scale, c # s)
      else if overflow \<or> x > (2 ^ 63 - 1) div 10 then leading_fraction x scale True s
      else let y = x * 10 + digit_val c in
        if y > 2 ^ 63 then leading_fraction x scale True s
        else leading_fraction y (scale * 10) False s)"

definition unit_map :: "(go_string \<times> nat) list" where
  "unit_map =
     [(''ns'', 1), (''us'', 1000), ([char_of (0xC2::nat), char_of (0xB5::nat), CHR ''s''], 1000),
      ([char_of (0xCE::nat), char_of (0xBC::nat), CHR ''s''], 1000), (''ms'', 1000000),
      (''s'', 1000000000), (''m'', 60000000000), (''h'', 3600000000000)]"

definition fraction_ns :: "nat \<Rightarrow> nat \<Rightarrow> nat \<Rightarrow> nat" where
  "fraction_ns f unit scale =
     nat \<lfloor>double_of (double_of (of_nat f) * double_of (of_nat unit / of_nat scale))\<rfloor>"

definition in_number :: "char \<Rightarrow> bool" where
  "in_number c \<longleftrightarrow> c = CHR ''.'' \<or> is_digit c"

text \<open>One round of the loop: the value of the next number with its unit, and the rest.\<close>

definition duration_item :: "go_string \<Rightarrow> (nat \<times> go_string) option" where
  "duration_item s =
     (if s = [] \<or> \<not> in_number (hd s) then None
      else case leading_int 0 s of
        None \<Rightarrow> None
      | Some (v, s1) \<Rightarrow>
          let pre = (length s1 \<noteq> length s);
              dot = (s1 \<noteq> [] \<and> hd s1 = CHR ''.'');
              (f, scale, s2) = (if dot then leading_fraction 0 1 False (tl s1) else (0, 1, s1));
              post = (dot \<and> length s2 \<noteq> length (tl s1));
              u = takeWhile (\<lambda>c. \<not> in_number c) s2;
              s3 = dropWhile (\<lambda>c. \<not> in_number c) s2
          in if \<not> pre \<and> \<not> post then None
             else if u = [] then None
             else case map_of unit_map u of
               None \<Rightarrow> None
             | Some unit \<Rightarrow>
                 if v > 2 ^ 63 div unit then None
                 else if f > 0 then
                   (let w = v * unit + fraction_ns f unit scale in
                    if w > 2 ^ 63 then None else Some (w, s3))
                 else Some (v * unit, s3))"

lemma leading_int_length: "leading_int x s = Some (v, r) \<Longrightarrow> length r \<le> length s"
  by (induction s arbitrary: x) (auto simp: Let_def split: if_splits intro: le_SucI)

lemma leading_fraction_length:
  "leading_fraction x scale b s = (f, sc, r) \<Longrightarrow> length r \<le> length s"
  by (induction s arbitrary: x scale b) (auto simp: Let_def split: if_splits intro: le_SucI)

lemma dropWhile_shorter: "takeWhile P s \<noteq> [] \<Longrightarrow> length (dropWhile P s) < length s"
  by (cases s) (auto simp: length_dropWhile_le le_imp_less_Suc split: if_splits)

lemma duration_item_length: "duration_item s = Some (v, r) \<Longrightarrow> length r < length s"
proof -
  assume item: "duration_item s = Some (v, r)"
  then obtain v1 s1 where int: "leading_int 0 s = Some (v1, s1)"
    by (auto simp: duration_item_def split: if_splits option.splits)
  define p where "p = (if s1 \<noteq> [] \<and> hd s1 = CHR ''.'' then leading_fraction 0 1 False (tl s1)
    else (0, 1, s1))"
  obtain f sc s2 where p: "p = (f, sc, s2)" by (cases p)
  have "length s2 \<le> length s1"
    using p leading_fraction_length [of 0 1 False "tl s1" f sc s2]
    by (auto simp: p_def split: if_splits)
  moreover from item int p
  have "takeWhile (\<lambda>c. \<not> in_number c) s2 \<noteq> [] \<and> r = dropWhile (\<lambda>c. \<not> in_number c) s2"
    unfolding duration_item_def p_def
    by (auto simp: Let_def split: if_splits option.splits prod.splits)
  ultimately show ?thesis
    using leading_int_length [OF int] dropWhile_shorter by fastforce
qed

text \<open>The loop; the sum of the values is an \<^verbatim>\<open>uint64\<close>.\<close>

function duration_loop :: "nat \<Rightarrow> go_string \<Rightarrow> nat option" where
  "duration_loop d s =
     (if s = [] then Some d
      else case duration_item s of
        None \<Rightarrow> None
      | Some (v, r) \<Rightarrow>
          let d' = (d + v) mod 2 ^ 64 in if d' > 2 ^ 63 then None else duration_loop d' r)"
  by pat_completeness auto
termination
  by (relation "measure (\<lambda>(d, s). length s)") (auto dest: duration_item_length)

declare duration_loop.simps [simp del]

definition parse_duration :: "go_string \<Rightarrow> duration option" where
  "parse_duration orig =
     (let signed = (orig \<noteq> [] \<and> (hd orig = CHR ''-'' \<or> hd orig = CHR ''+''));
          neg = (orig \<noteq> [] \<and> hd orig = CHR ''-'');
          s = (if signed then tl orig else orig)
      in if s = ''0'' then Some 0
         else if s = [] then None
         else case duration_loop 0 s of
           None \<Rightarrow> None
         | Some d \<Rightarrow>
             if neg then Some (- int d)
             else if d > 2 ^ 63 - 1 then None
             else Some (int d))"

subsection \<open>What a whole number with a unit denotes\<close>

lemma leading_int_digits:
  assumes "parse_digits 10 ds x = Some n" and "n \<le> 2 ^ 63"
    and "r = [] \<or> \<not> is_digit (hd r)"
  shows "leading_int x (ds @ r) = Some (n, r)"
  using assms
proof (induction ds arbitrary: x)
  case Nil
  then show ?case by (cases r) auto
next
  case (Cons c ds)
  have grow: "parse_digits 10 s a = Some b \<Longrightarrow> a \<le> b" for s a b
  proof (induction s arbitrary: a)
    case (Cons d s)
    then show ?case by (fastforce split: if_splits)
  qed simp
  from Cons.prems(1) have c: "is_digit c" and rest: "parse_digits 10 ds (x * 10 + digit_val c) = Some n"
    by (auto split: if_splits)
  from grow [OF rest] Cons.prems(2) have "x * 10 + digit_val c \<le> 2 ^ 63" by linarith
  moreover from this have "x \<le> 2 ^ 63 div 10" by simp
  ultimately show ?case
    using Cons.IH [OF rest Cons.prems(2,3)] c by (simp add: Let_def)
qed

lemma duration_item_whole:
  assumes unit: "map_of unit_map u = Some k" and chars: "\<forall>c \<in> set u. \<not> in_number c"
    and small: "n * k \<le> 2 ^ 63" and k: "0 < k" and u: "u \<noteq> []"
  shows "duration_item (show_nat 10 n @ u) = Some (n * k, [])"
proof -
  have n: "n \<le> 2 ^ 63 div k" using small k by (simp add: less_eq_div_iff_mult_less_eq)
  then have "n \<le> 2 ^ 63" using div_le_dividend le_trans by blast
  moreover have hd_u: "\<not> is_digit (hd u) \<and> hd u \<noteq> CHR ''.''"
    using chars u hd_in_set [OF u] by (auto simp: in_number_def)
  ultimately have int: "leading_int 0 (show_nat 10 n @ u) = Some (n, u)"
    by (intro leading_int_digits) (auto simp: parse_show_nat)
  have "in_number (hd (show_nat 10 n @ u))"
    using show_nat_digits [of 10 n] hd_in_set [of "show_nat 10 n"] by (simp add: in_number_def)
  moreover have unit_text: "takeWhile (\<lambda>c. \<not> in_number c) u = u"
      "dropWhile (\<lambda>c. \<not> in_number c) u = []"
    using chars by (simp_all add: takeWhile_eq_all_conv)
  ultimately show ?thesis
    using int hd_u unit n u by (simp add: duration_item_def unit_text Let_def)
qed

lemma parse_duration_whole:
  assumes unit: "map_of unit_map u = Some k" and chars: "\<forall>c \<in> set u. \<not> in_number c"
    and small: "n * k < 2 ^ 63" and k: "0 < k" and u: "u \<noteq> []"
  shows "parse_duration (show_nat 10 n @ u) = Some (int (n * k))"
proof -
  let ?s = "show_nat 10 n @ u"
  have item: "duration_item ?s = Some (n * k, [])"
    using assms by (intro duration_item_whole) auto
  have loop: "duration_loop 0 ?s = Some (n * k)"
    using item small by (simp add: duration_loop.simps [of 0 ?s] duration_loop.simps [of _ "[]"])
  have "hd ?s \<noteq> CHR ''-'' \<and> hd ?s \<noteq> CHR ''+''"
    using show_nat_digits [of 10 n] hd_in_set [of "show_nat 10 n"] is_digit_no_sign by fastforce
  moreover have "?s \<noteq> ''0''"
    using u by (cases "show_nat 10 n") auto
  ultimately show ?thesis
    using loop small by (simp add: parse_duration_def)
qed

lemma duration_loop_bound: "duration_loop d s = Some e \<Longrightarrow> d \<le> 2 ^ 63 \<Longrightarrow> e \<le> 2 ^ 63"
proof (induction d s rule: duration_loop.induct)
  case (1 d s)
  show ?case
  proof (cases "s = []")
    case True
    with "1.prems" show ?thesis by (simp add: duration_loop.simps [of d "[]"])
  next
    case False
    with "1.prems"(1) obtain v r where item: "duration_item s = Some (v, r)"
      by (auto simp: duration_loop.simps [of d s] split: option.splits)
    let ?d = "(d + v) mod 2 ^ 64"
    from False item "1.prems"(1) have small: "\<not> ?d > 2 ^ 63" and loop: "duration_loop ?d r = Some e"
      by (auto simp: duration_loop.simps [of d s] Let_def split: if_splits)
    from small have "?d \<le> 2 ^ 63" by (rule leI)
    with "1.IH" [OF False item refl refl small loop] show ?thesis .
  qed
qed

lemma parse_duration_bounds:
  assumes "parse_duration s = Some d"
  shows "min_duration \<le> d \<and> d \<le> max_duration"
proof -
  from assms obtain r n where loop: "s = ''0'' \<or> tl s = ''0'' \<or> duration_loop 0 r = Some n"
    and d: "d = 0 \<or> (d = - int n \<or> d = int n \<and> n \<le> 2 ^ 63 - 1) \<and> duration_loop 0 r = Some n"
    by (auto simp: parse_duration_def Let_def not_less split: if_splits option.splits)
  then show ?thesis
    using duration_loop_bound [of 0 r n] by (auto simp: min_duration_def max_duration_def)
qed

end
