(* ===== verification/Config.thy ===== *)
theory Config
  imports Schedule Permissions "HOL-Library.AList"
begin

text \<open>
  The configuration of \<^verbatim>\<open>src/main.go\<close>: the application record \<^verbatim>\<open>App\<close> with the types it
  contains, the defaults \<^verbatim>\<open>Load\<close> fills in before decoding, \<^verbatim>\<open>App.dependencies\<close>,
  \<^verbatim>\<open>Trigger.awaited\<close> and \<^verbatim>\<open>App.validate\<close>.  A Go map is the association list of its entries
  sorted by key, so that \<^verbatim>\<open>reflect.DeepEqual\<close> of configurations is equality; \<^verbatim>\<open>int\<close> fields are integers, percentages are the rational
  numbers their doubles denote.
\<close>

text \<open>The two systems the program is built for, the value of \<^verbatim>\<open>runtime.GOOS\<close>.\<close>

datatype os = Linux | Windows

type_synonym percent = rat

text \<open>A decoded YAML document, as the decoder delivers it into a \<^verbatim>\<open>map[string]any\<close>.\<close>

datatype yaml =
    YamlNull
  | YamlBool bool
  | YamlNumber rat
  | YamlText go_string
  | YamlList "yaml list"
  | YamlMap "(go_string \<times> yaml) list"

record socket =
  network :: go_string
  address :: go_string

record identity =
  id_user :: go_string
  id_group :: go_string
  id_password :: "go_string option"

record http_request =
  http_url :: go_string
  http_method :: go_string
  http_headers :: "(go_string \<times> go_string) list"
  http_body :: go_string
  http_unix_socket :: go_string

record socket_check =
  check_address :: go_string
  check_send :: go_string

record expectation =
  ex_exit_codes :: "int list"
  ex_status :: "int list"
  ex_contains :: go_string
  ex_regexp :: go_string

record action =
  act_command :: "go_string list"
  act_env :: "(go_string \<times> go_string) list"
  act_directory :: go_string
  act_http :: "http_request option"
  act_tcp :: "socket_check option"
  act_udp :: "socket_check option"
  act_expect :: expectation
  act_timeout :: duration
  act_retries :: int
  act_backoff :: duration

record trigger =
  tr_action :: go_string
  tr_scope :: go_string
  tr_wait :: "bool option"
  tr_interval :: duration
  tr_failure_threshold :: int
  tr_on_failure :: go_string

record restart_rule =
  rule_glob :: go_string
  rule_events :: "go_string list"

record app =
  app_identity :: identity
  app_name :: go_string
  app_requires :: "go_string list"
  app_dependencies :: "(go_string \<times> go_string) list"
  app_actions :: "(go_string \<times> action) list"
  app_triggers :: "(go_string \<times> trigger list) list"
  app_values :: yaml
  app_schedule :: go_string
  app_overlap :: bool
  app_max_exec_time :: duration
  app_startup :: bool
  app_ready :: go_string
  app_command :: "go_string list"
  app_directory :: go_string
  app_env :: "(go_string \<times> go_string) list"
  app_vars :: "(go_string \<times> go_string) list"
  app_restart_on :: "restart_rule list"
  app_listen :: socket
  app_socket_handoff :: go_string
  app_socket_mode :: "mode option"
  app_min_workers :: int
  app_max_workers :: int
  app_concurrency :: int
  app_idle_timeout :: duration
  app_start_timeout :: duration
  app_stop_timeout :: duration
  app_request_timeout :: duration
  app_scale_at :: percent
  app_scale_window :: duration
  app_scale_delay :: duration
  app_source :: go_string

text \<open>The application record \<^verbatim>\<open>Load\<close> decodes a file into.\<close>

definition default_app :: app where
  "default_app =
     \<lparr>app_identity = \<lparr>id_user = [], id_group = [], id_password = None\<rparr>, app_name = [],
      app_requires = [], app_dependencies = [], app_actions = [], app_triggers = [],
      app_values = YamlNull, app_schedule = [], app_overlap = False, app_max_exec_time = 0,
      app_startup = False, app_ready = [], app_command = [], app_directory = [], app_env = [],
      app_vars = [], app_restart_on = [], app_listen = \<lparr>network = [], address = []\<rparr>,
      app_socket_handoff = [], app_socket_mode = None, app_min_workers = 0, app_max_workers = 1,
      app_concurrency = 1, app_idle_timeout = minute, app_start_timeout = 10 * second,
      app_stop_timeout = 10 * second, app_request_timeout = 0, app_scale_at = 80,
      app_scale_window = 0, app_scale_delay = 0, app_source = []\<rparr>"

text \<open>\<^verbatim>\<open>Trigger.awaited\<close>: waiting is the default.\<close>

definition awaited :: "trigger \<Rightarrow> bool" where
  "awaited binding \<longleftrightarrow> (case tr_wait binding of None \<Rightarrow> True | Some w \<Rightarrow> w)"

text \<open>\<^verbatim>\<open>App.dependencies\<close>: required names are waited for until ready; a condition overrides.\<close>

definition dependencies :: "app \<Rightarrow> (go_string \<times> go_string) list" where
  "dependencies app =
     fold (\<lambda>(name, condition). AList.update name condition) (app_dependencies app)
       (fold (\<lambda>name. AList.update name ''ready'') (app_requires app) [])"

lemma distinct_dependencies: "distinct (map fst (dependencies app))"
  unfolding dependencies_def
  by (intro fold_invariant_list [where P = "\<lambda>m. distinct (map fst m)"])
    (auto simp: distinct_update split: prod.splits)

lemma keys_update: "fst ` set (AList.update k v m) = insert k (fst ` set m)"
  by (simp add: dom_map_of_conv_image_fst [symmetric] update_conv')

lemma keys_fold_update:
  "fst ` set (fold (\<lambda>(k, v). AList.update k v) xs m) = fst ` set xs \<union> fst ` set m"
  by (induction xs arbitrary: m) (simp_all add: keys_update case_prod_beta)

lemma keys_dependencies:
  "fst ` set (dependencies app) = set (app_requires app) \<union> fst ` set (app_dependencies app)"
proof -
  have "fst ` set (fold (\<lambda>name. AList.update name ''ready'') ns m) = set ns \<union> fst ` set m" for ns m
    by (induction ns arbitrary: m) (simp_all add: keys_update)
  from this [of "app_requires app" "[]"] show ?thesis
    by (simp add: dependencies_def keys_fold_update Un_commute)
qed

subsection \<open>Validation of one application\<close>

datatype config_error =
    BadSchedule schedule_error
  | ScheduleConflict
  | OverlapNeedsSchedule
  | NegativeMaxExecTime
  | SocketModeMisplaced
  | PasswordNeedsUser
  | PasswordOnLinux
  | GroupOnWindows
  | EmptyCommand
  | UnknownNetwork
  | AddressRequired
  | BadSocketHandoff
  | NumericHandoffNeedsLinux
  | BadReady
  | BadWorkerCounts
  | BadTimeouts
  | BadScaleAt
  | BadEnvironment go_string

definition handoff_known :: "go_string \<Rightarrow> bool" where
  "handoff_known handoff \<longleftrightarrow> handoff = [] \<or> handoff = ''env'' \<or> handoff = ''stdin'' \<or> handoff = ''0''"

definition ready_ok :: "go_string \<Rightarrow> bool" where
  "ready_ok ready \<longleftrightarrow> ready = ''event'' \<or> ready = ''started'' \<or>
     (let (net, addr, ok) = cut ready ''://'' in
      ok \<and> addr \<noteq> [] \<and> (net = ''tcp'' \<or> net = ''unix''))"

definition bad_env_entry :: "go_string \<times> go_string \<Rightarrow> bool" where
  "bad_env_entry entry \<longleftrightarrow> (case entry of (key, value) \<Rightarrow>
     key = [] \<or> contains_any key [CHR ''='', CHR 0x00] \<or> CHR 0x00 \<in> set value
     \<or> prefix ''OOTH_'' key)"

definition validate :: "os \<Rightarrow> app \<Rightarrow> config_error option" where
  "validate goos app =
     (case parse_schedule (app_schedule app) of Inl e \<Rightarrow> Some (BadSchedule e) | Inr _ \<Rightarrow>
      if app_schedule app \<noteq> [] \<and> (network (app_listen app) \<noteq> [] \<or> app_startup app \<or> app_min_workers app \<noteq> 0)
        then Some ScheduleConflict
      else if app_overlap app \<and> app_schedule app = [] then Some OverlapNeedsSchedule
      else if app_max_exec_time app < 0 then Some NegativeMaxExecTime
      else if (case app_socket_mode app of None \<Rightarrow> False
               | Some m \<Rightarrow> goos \<noteq> Linux \<or> network (app_listen app) \<noteq> ''unix'' \<or> m > 511)
        then Some SocketModeMisplaced
      else if id_password (app_identity app) \<noteq> None \<and> id_user (app_identity app) = []
        then Some PasswordNeedsUser
      else if goos = Linux \<and> id_password (app_identity app) \<noteq> None then Some PasswordOnLinux
      else if goos = Windows \<and> id_group (app_identity app) \<noteq> [] then Some GroupOnWindows
      else if app_command app = [] \<or> hd (app_command app) = [] then Some EmptyCommand
      else if network (app_listen app) \<notin> {[], ''tcp'', ''tcp4'', ''tcp6'', ''unix''} then Some UnknownNetwork
      else if (network (app_listen app) = []) \<noteq> (address (app_listen app) = []) then Some AddressRequired
      else if \<not> handoff_known (app_socket_handoff app)
              \<and> (case atoi (app_socket_handoff app) of None \<Rightarrow> True | Some fd \<Rightarrow> fd < 3 \<or> fd > 1024)
        then Some BadSocketHandoff
      else if \<not> handoff_known (app_socket_handoff app) \<and> goos \<noteq> Linux then Some NumericHandoffNeedsLinux
      else if \<not> ready_ok (app_ready app) then Some BadReady
      else if app_min_workers app < 0 \<or> app_max_workers app < 1
              \<or> app_min_workers app > app_max_workers app \<or> app_concurrency app < 1
        then Some BadWorkerCounts
      else if app_idle_timeout app \<le> 0 \<or> app_start_timeout app \<le> 0 \<or> app_stop_timeout app \<le> 0
              \<or> app_scale_window app \<le> 0 \<or> app_scale_delay app < 0 \<or> app_request_timeout app < 0
        then Some BadTimeouts
      else if app_scale_at app \<le> 0 \<or> app_scale_at app > 100 then Some BadScaleAt
      else (case find bad_env_entry (app_env app) of
              None \<Rightarrow> None
            | Some (key, _) \<Rightarrow> Some (BadEnvironment key)))"

text \<open>What the supervisor relies on in an application it runs.\<close>

definition app_ok :: "app \<Rightarrow> bool" where
  "app_ok app \<longleftrightarrow> 0 \<le> app_min_workers app \<and> app_min_workers app \<le> app_max_workers app
     \<and> 1 \<le> app_max_workers app \<and> 1 \<le> app_concurrency app
     \<and> 0 < app_idle_timeout app \<and> 0 < app_start_timeout app \<and> 0 < app_stop_timeout app
     \<and> 0 < app_scale_window app \<and> 0 \<le> app_request_timeout app \<and> 0 \<le> app_max_exec_time app
     \<and> 0 < app_scale_at app \<and> app_scale_at app \<le> 100
     \<and> app_command app \<noteq> [] \<and> hd (app_command app) \<noteq> []
     \<and> (app_schedule app \<noteq> [] \<longrightarrow>
          network (app_listen app) = [] \<and> \<not> app_startup app \<and> app_min_workers app = 0)
     \<and> (app_schedule app = [] \<longrightarrow> \<not> app_overlap app)
     \<and> (\<exists>plan. parse_schedule (app_schedule app) = Inr plan)"

lemma validate_app_ok: "validate goos app = None \<Longrightarrow> app_ok app"
  unfolding validate_def app_ok_def
  by (auto simp: not_less not_le split: sum.splits if_splits)

end
