(* ===== verification/Dependencies.thy ===== *)
theory Dependencies
  imports Config
begin

text \<open>
  \<^verbatim>\<open>validateDependencies\<close> of \<^verbatim>\<open>src/main.go\<close>: a depth-first search over the dependency graph of a
  snapshot, with the code's three marks.  Go iterates a map in any order, so the order in which
  the names of a map are visited is a parameter \<open>ord\<close> of the definitions; the recursion is
  bounded by a fuel that the lemmas show to be enough.  The result does not depend on the order:
  a snapshot is accepted exactly when its graph is closed, acyclic and without scheduled
  dependencies.
\<close>

datatype dependency_error =
    UnknownDependency go_string
  | DependencyCycle go_string
  | ScheduledDependency go_string go_string

type_synonym apps = "(go_string \<times> app) list"
type_synonym marks = "go_string \<Rightarrow> nat"

text \<open>\<^verbatim>\<open>apps[name].Schedule != ""\<close>, false for a name that is not there.\<close>

definition scheduled :: "apps \<Rightarrow> go_string \<Rightarrow> bool" where
  "scheduled apps name \<longleftrightarrow> (case map_of apps name of None \<Rightarrow> False | Some app \<Rightarrow> app_schedule app \<noteq> [])"

fun visit :: "nat \<Rightarrow> (go_string list \<Rightarrow> go_string list) \<Rightarrow> apps \<Rightarrow> go_string \<Rightarrow> marks
      \<Rightarrow> (dependency_error + marks) option"
  and visit_dependencies :: "nat \<Rightarrow> (go_string list \<Rightarrow> go_string list) \<Rightarrow> apps \<Rightarrow> go_string
      \<Rightarrow> go_string list \<Rightarrow> marks \<Rightarrow> (dependency_error + marks) option"
where
  "visit 0 ord apps name state = None"
| "visit (Suc fuel) ord apps name state = (case map_of apps name of
     None \<Rightarrow> Some (Inl (UnknownDependency name))
   | Some app \<Rightarrow>
       if state name = 1 then Some (Inl (DependencyCycle name))
       else if state name = 2 then Some (Inr state)
       else (case visit_dependencies fuel ord apps name (ord (map fst (dependencies app))) (state(name := 1)) of
           None \<Rightarrow> None
         | Some (Inl e) \<Rightarrow> Some (Inl e)
         | Some (Inr state') \<Rightarrow> Some (Inr (state'(name := 2)))))"
| "visit_dependencies fuel ord apps name [] state = Some (Inr state)"
| "visit_dependencies fuel ord apps name (dependency # rest) state =
     (if scheduled apps dependency then Some (Inl (ScheduledDependency name dependency))
      else (case visit fuel ord apps dependency state of
          None \<Rightarrow> None
        | Some (Inl e) \<Rightarrow> Some (Inl e)
        | Some (Inr state') \<Rightarrow> visit_dependencies fuel ord apps name rest state'))"

fun visit_names :: "nat \<Rightarrow> (go_string list \<Rightarrow> go_string list) \<Rightarrow> apps \<Rightarrow> go_string list \<Rightarrow> marks
    \<Rightarrow> (dependency_error + marks) option" where
  "visit_names fuel ord apps [] state = Some (Inr state)"
| "visit_names fuel ord apps (name # names) state = (case visit fuel ord apps name state of
     None \<Rightarrow> None
   | Some (Inl e) \<Rightarrow> Some (Inl e)
   | Some (Inr state') \<Rightarrow> visit_names fuel ord apps names state')"

text \<open>
  The whole check: \<open>None\<close> is no error.  A chain of marked applications is no longer than the
  snapshot, so one unit of fuel more than its length is enough.
\<close>

definition validate_dependencies :: "(go_string list \<Rightarrow> go_string list) \<Rightarrow> apps
    \<Rightarrow> dependency_error option option" where
  "validate_dependencies ord apps =
     (case visit_names (Suc (length apps)) ord apps (ord (map fst apps)) (\<lambda>_. 0) of
        None \<Rightarrow> None
      | Some (Inl e) \<Rightarrow> Some (Some e)
      | Some (Inr _) \<Rightarrow> Some None)"

subsection \<open>The dependency graph\<close>

definition known :: "apps \<Rightarrow> go_string \<Rightarrow> bool" where
  "known apps name \<longleftrightarrow> name \<in> fst ` set apps"

definition depends :: "apps \<Rightarrow> (go_string \<times> go_string) set" where
  "depends apps = {(a, b). \<exists>app. map_of apps a = Some app \<and> b \<in> fst ` set (dependencies app)}"

text \<open>What the configuration promises: every dependency exists, none is scheduled, no cycles.\<close>

definition dependencies_ok :: "apps \<Rightarrow> bool" where
  "dependencies_ok apps \<longleftrightarrow>
     (\<forall>a b. (a, b) \<in> depends apps \<longrightarrow> known apps b \<and> \<not> scheduled apps b) \<and> acyclic (depends apps)"

definition ranges :: "(go_string list \<Rightarrow> go_string list) \<Rightarrow> bool" where
  "ranges ord \<longleftrightarrow> (\<forall>xs. set (ord xs) = set xs)"

lemma known_map_of: "known apps name \<longleftrightarrow> map_of apps name \<noteq> None"
  by (simp add: known_def map_of_eq_None_iff)

lemma depends_known: "(a, b) \<in> depends apps \<Longrightarrow> known apps a"
  by (auto simp: depends_def known_map_of)

lemma finite_known: "finite {n. known apps n}"
  by (simp add: known_def)

subsection \<open>The search\<close>

text \<open>Finished nodes are known, closed under dependencies and without cycles; open nodes are known.\<close>

definition search_inv :: "apps \<Rightarrow> marks \<Rightarrow> bool" where
  "search_inv apps state \<longleftrightarrow>
     (\<forall>n. state n = 2 \<longrightarrow> known apps n
        \<and> (\<forall>b. (n, b) \<in> depends apps \<longrightarrow> state b = 2 \<and> \<not> scheduled apps b))
     \<and> (\<forall>n. state n = 1 \<longrightarrow> known apps n)
     \<and> acyclic {(a, b) \<in> depends apps. state a = 2}"

text \<open>A step of the search only finishes nodes.\<close>

definition extends :: "marks \<Rightarrow> marks \<Rightarrow> bool" where
  "extends state state' \<longleftrightarrow>
     (\<forall>n. state' n = 1 \<longleftrightarrow> state n = 1) \<and> (\<forall>n. state n = 2 \<longrightarrow> state' n = 2)"

definition open_bound :: "apps \<Rightarrow> marks \<Rightarrow> nat" where
  "open_bound apps state = card {n. known apps n \<and> state n \<noteq> 1}"

lemma extends_refl [simp]: "extends s s"
  by (simp add: extends_def)

lemma extends_trans: "extends s t \<Longrightarrow> extends t u \<Longrightarrow> extends s u"
  by (simp add: extends_def)

lemma open_bound_extends: "extends s t \<Longrightarrow> open_bound apps t = open_bound apps s"
  by (simp add: open_bound_def extends_def)

lemma open_bound_mark:
  assumes "known apps n" and "state n \<noteq> 1"
  shows "open_bound apps (state(n := 1)) < open_bound apps state"
  unfolding open_bound_def
proof (rule psubset_card_mono)
  show "finite {m. known apps m \<and> state m \<noteq> 1}"
    using finite_known [of apps] by (rule rev_finite_subset) auto
  show "{m. known apps m \<and> (state(n := 1)) m \<noteq> 1} \<subset> {m. known apps m \<and> state m \<noteq> 1}"
    using assms by auto
qed

lemma search_inv_mark:
  assumes "search_inv apps state" and "known apps n" and "state n \<noteq> 2"
  shows "search_inv apps (state(n := 1))"
proof -
  have "{(a, b) \<in> depends apps. (state(n := 1)) a = 2} \<subseteq> {(a, b) \<in> depends apps. state a = 2}"
    by (auto split: if_splits)
  then have "acyclic {(a, b) \<in> depends apps. (state(n := 1)) a = 2}"
    using assms(1) acyclic_subset unfolding search_inv_def by blast
  with assms show ?thesis by (auto simp: search_inv_def)
qed

text \<open>Finishing a node whose dependencies are all finished: no edge leads back to it.\<close>

lemma acyclic_add_source:
  assumes "acyclic r" and "\<And>a. (a, n) \<notin> r" and "\<And>b. (n, b) \<in> s \<Longrightarrow> b \<noteq> n"
    and "s \<subseteq> {n} \<times> UNIV"
  shows "acyclic (r \<union> s)"
proof -
  have no_entry: "(a, n) \<notin> r \<union> s" for a
    using assms(2-4) by auto
  have "(x, y) \<in> (r \<union> s)\<^sup>+ \<Longrightarrow> x \<noteq> n \<Longrightarrow> (x, y) \<in> r\<^sup>+" for x y
  proof (induction rule: trancl_induct)
    case (base y)
    then show ?case using assms(4) by auto
  next
    case (step y z)
    then have "y \<noteq> n" using no_entry by (metis tranclE)
    with step assms(4) show ?case by (auto intro: trancl_into_trancl)
  qed
  moreover have "(n, n) \<notin> (r \<union> s)\<^sup>+" using no_entry by (metis tranclE)
  ultimately show ?thesis using assms(1) unfolding acyclic_def by metis
qed

lemma search_inv_finish:
  assumes inv: "search_inv apps state" and n: "known apps n" "state n = 1"
    and deps: "\<And>b. (n, b) \<in> depends apps \<Longrightarrow> state b = 2 \<and> \<not> scheduled apps b"
  shows "search_inv apps (state(n := 2))"
proof -
  let ?r = "{(a, b) \<in> depends apps. state a = 2}" and ?s = "{(a, b) \<in> depends apps. a = n}"
  have "acyclic (?r \<union> ?s)"
  proof (rule acyclic_add_source)
    show "acyclic ?r" using inv by (simp add: search_inv_def)
    show "(a, n) \<notin> ?r" for a using inv n(2) by (auto simp: search_inv_def)
    show "(n, b) \<in> ?s \<Longrightarrow> b \<noteq> n" for b using deps n(2) by fastforce
  qed auto
  moreover have "{(a, b) \<in> depends apps. (state(n := 2)) a = 2} = ?r \<union> ?s" by auto
  ultimately show ?thesis
    using inv n deps by (auto simp: search_inv_def)
qed

lemma extends_finish:
  assumes "extends (state(n := 1)) state'" and "state n \<noteq> 1"
  shows "extends state (state'(n := 2))"
  using assms by (auto simp: extends_def split: if_splits)

lemma depends_intro:
  "map_of apps name = Some app \<Longrightarrow> b \<in> fst ` set (dependencies app) \<Longrightarrow> (name, b) \<in> depends apps"
  by (auto simp: depends_def)

lemma depends_of:
  "map_of apps name = Some app \<Longrightarrow> (name, b) \<in> depends apps \<longleftrightarrow> b \<in> fst ` set (dependencies app)"
  by (auto simp: depends_def)

lemma not_ok_unknown: "(a, b) \<in> depends apps \<Longrightarrow> \<not> known apps b \<Longrightarrow> \<not> dependencies_ok apps"
  by (auto simp: dependencies_ok_def)

lemma not_ok_scheduled: "(a, b) \<in> depends apps \<Longrightarrow> scheduled apps b \<Longrightarrow> \<not> dependencies_ok apps"
  by (auto simp: dependencies_ok_def)

lemma not_ok_cycle: "(a, a) \<in> (depends apps)\<^sup>+ \<Longrightarrow> \<not> dependencies_ok apps"
  by (auto simp: dependencies_ok_def acyclic_def)

text \<open>What one call promises: a result, an error only for a bad graph, its node finished.\<close>

definition search_ok :: "apps \<Rightarrow> marks \<Rightarrow> go_string list \<Rightarrow> (dependency_error + marks) option \<Rightarrow> bool" where
  "search_ok apps state names result \<longleftrightarrow> (case result of
     None \<Rightarrow> False
   | Some (Inl e) \<Rightarrow> \<not> dependencies_ok apps
   | Some (Inr state') \<Rightarrow> search_inv apps state' \<and> extends state state'
       \<and> (\<forall>n \<in> set names. state' n = 2))"

lemma search_okE:
  assumes "search_ok apps state names result"
  obtains e where "result = Some (Inl e)" "\<not> dependencies_ok apps"
  | state' where "result = Some (Inr state')" "search_inv apps state'" "extends state state'"
      "\<forall>n \<in> set names. state' n = 2"
  using assms by (auto simp: search_ok_def split: option.splits sum.splits)

lemma search_ok_error [simp]: "search_ok apps state names (Some (Inl e)) \<longleftrightarrow> \<not> dependencies_ok apps"
  by (simp add: search_ok_def)

lemma search_ok_state [simp]:
  "search_ok apps state names (Some (Inr state')) \<longleftrightarrow>
     search_inv apps state' \<and> extends state state' \<and> (\<forall>n \<in> set names. state' n = 2)"
  by (simp add: search_ok_def)

lemma visit_spec:
  "ranges ord \<Longrightarrow> search_inv apps state \<Longrightarrow> \<forall>g. state g = 1 \<longrightarrow> (g, name) \<in> (depends apps)\<^sup>+ \<Longrightarrow>
      known apps name \<or> (\<exists>a. (a, name) \<in> depends apps) \<Longrightarrow> open_bound apps state < fuel \<Longrightarrow>
      search_ok apps state [name] (visit fuel ord apps name state)"
  "ranges ord \<Longrightarrow> search_inv apps state \<Longrightarrow> \<forall>g. state g = 1 \<longrightarrow> (g, name) \<in> (depends apps)\<^sup>* \<Longrightarrow>
      \<forall>b \<in> set deps. (name, b) \<in> depends apps \<Longrightarrow> open_bound apps state < fuel \<Longrightarrow>
      search_ok apps state deps (visit_dependencies fuel ord apps name deps state) \<and>
      (\<forall>state'. visit_dependencies fuel ord apps name deps state = Some (Inr state') \<longrightarrow>
         (\<forall>b \<in> set deps. \<not> scheduled apps b))"
proof (induction fuel ord apps name state and fuel ord apps name deps state
    rule: visit_visit_dependencies.induct)
  case (1 ord apps name state)
  then show ?case by simp
next
  case (2 fuel ord apps name state)
  show ?case
  proof (cases "map_of apps name")
    case None
    then have "\<not> known apps name" by (simp add: known_map_of)
    with 2(5) None show ?thesis by (auto dest: not_ok_unknown)
  next
    case app: (Some app)
    then have known: "known apps name" by (simp add: known_map_of)
    consider "state name = 1" | "state name = 2" | "state name \<noteq> 1" "state name \<noteq> 2" by blast
    then show ?thesis
    proof cases
      case 1
      with 2(4) app show ?thesis by (auto dest: not_ok_cycle)
    next
      case 2
      with \<open>search_inv apps state\<close> app show ?thesis by simp
    next
      case new: 3
      let ?deps = "ord (map fst (dependencies app))" and ?st = "state(name := 1)"
      have set_deps: "set ?deps = fst ` set (dependencies app)"
        using 2(2) by (simp add: ranges_def)
      have "search_ok apps ?st ?deps (visit_dependencies fuel ord apps name ?deps ?st) \<and>
        (\<forall>state'. visit_dependencies fuel ord apps name ?deps ?st = Some (Inr state') \<longrightarrow>
         (\<forall>b \<in> set ?deps. \<not> scheduled apps b))"
      proof (rule 2(1) [OF app new 2(2)])
        show "search_inv apps ?st" using 2(3) known new(2) by (rule search_inv_mark)
        show "\<forall>g. ?st g = 1 \<longrightarrow> (g, name) \<in> (depends apps)\<^sup>*"
          using 2(4) by (auto intro: trancl_into_rtrancl)
        show "\<forall>b \<in> set ?deps. (name, b) \<in> depends apps"
          using app set_deps by (simp add: depends_of)
        show "open_bound apps ?st < fuel"
          using open_bound_mark [OF known, of state] new(1) 2(6) by simp
      qed
      then show ?thesis
      proof (elim conjE search_okE)
        fix e assume "visit_dependencies fuel ord apps name ?deps ?st = Some (Inl e)"
          and "\<not> dependencies_ok apps"
        with app new show ?thesis by simp
      next
        fix st' assume result: "visit_dependencies fuel ord apps name ?deps ?st = Some (Inr st')"
          and inv: "search_inv apps st'" and ext: "extends ?st st'"
          and finished: "\<forall>n \<in> set ?deps. st' n = 2"
          and plain: "\<forall>state'. visit_dependencies fuel ord apps name ?deps ?st = Some (Inr state') \<longrightarrow>
            (\<forall>b \<in> set ?deps. \<not> scheduled apps b)"
        have "st' name = 1" using ext by (simp add: extends_def)
        then have "search_inv apps (st'(name := 2))"
          using inv known finished plain result set_deps app
          by (intro search_inv_finish) (auto simp: depends_of)
        with ext new app result show ?thesis by (simp add: extends_finish)
      qed
    qed
  qed
next
  case (3 fuel ord apps name state)
  then show ?case by simp
next
  case (4 fuel ord apps name d rest state)
  have edge: "(name, d) \<in> depends apps" using 4(6) by simp
  show ?case
  proof (cases "scheduled apps d")
    case True
    with edge show ?thesis by (simp add: not_ok_scheduled)
  next
    case plain: False
    have "search_ok apps state [d] (visit fuel ord apps d state)"
    proof (rule 4(1) [OF plain 4(3,4)])
      show "\<forall>g. state g = 1 \<longrightarrow> (g, d) \<in> (depends apps)\<^sup>+"
        using 4(5) edge by (auto intro: rtrancl_into_trancl1)
      show "known apps d \<or> (\<exists>a. (a, d) \<in> depends apps)" using edge by blast
      show "open_bound apps state < fuel" by (rule 4(7))
    qed
    then show ?thesis
    proof (cases rule: search_okE)
      case (1 e)
      with plain show ?thesis by simp
    next
      case (2 st)
      have "search_ok apps st rest (visit_dependencies fuel ord apps name rest st) \<and>
        (\<forall>state'. visit_dependencies fuel ord apps name rest st = Some (Inr state') \<longrightarrow>
         (\<forall>b \<in> set rest. \<not> scheduled apps b))"
      proof (rule 4(2) [OF plain 2(1) refl 4(3) 2(2)])
        show "\<forall>g. st g = 1 \<longrightarrow> (g, name) \<in> (depends apps)\<^sup>*"
          using 4(5) 2(3) by (simp add: extends_def)
        show "\<forall>b \<in> set rest. (name, b) \<in> depends apps" using 4(6) by simp
        show "open_bound apps st < fuel" using 4(7) 2(3) by (simp add: open_bound_extends)
      qed
      with plain 2 show ?thesis
        by (auto elim!: search_okE intro: extends_trans simp: extends_def)
    qed
  qed
qed

lemma visit_names_spec:
  assumes "ranges ord"
  shows "search_inv apps state \<Longrightarrow> \<forall>n. state n \<noteq> 1 \<Longrightarrow> \<forall>n \<in> set names. known apps n \<Longrightarrow>
    open_bound apps state < fuel \<Longrightarrow> search_ok apps state names (visit_names fuel ord apps names state)"
proof (induction names arbitrary: state)
  case Nil
  then show ?case by simp
next
  case (Cons name names)
  have "search_ok apps state [name] (visit fuel ord apps name state)"
    using Cons.prems by (intro visit_spec(1) assms) auto
  then show ?case
  proof (cases rule: search_okE)
    case (1 e)
    then show ?thesis by simp
  next
    case (2 st)
    then have "search_ok apps st names (visit_names fuel ord apps names st)"
      using Cons.prems open_bound_extends [OF 2(3)] by (intro Cons.IH) (simp_all add: extends_def)
    with 2 show ?thesis
      by (auto elim!: search_okE intro: extends_trans simp: extends_def)
  qed
qed

text \<open>When every name is finished, the whole graph is closed and without cycles.\<close>

lemma search_inv_all:
  assumes "search_inv apps state" and "\<forall>n. known apps n \<longrightarrow> state n = 2"
  shows "dependencies_ok apps"
proof -
  have "{(a, b) \<in> depends apps. state a = 2} = depends apps"
    using assms(2) by (auto dest: depends_known)
  with assms show ?thesis
    unfolding dependencies_ok_def search_inv_def by (metis depends_known)
qed

lemma open_bound_start: "open_bound apps (\<lambda>_. 0) < Suc (length apps)"
proof -
  have "open_bound apps (\<lambda>_. 0) = card (fst ` set apps)"
    by (simp add: open_bound_def known_def)
  also have "\<dots> \<le> length apps"
    by (metis card_length length_map list.set_map)
  finally show ?thesis by simp
qed

lemma validate_dependencies_decides:
  assumes "ranges ord"
  shows "\<exists>result. validate_dependencies ord apps = Some result \<and> (result = None \<longleftrightarrow> dependencies_ok apps)"
proof -
  have names: "set (ord (map fst apps)) = fst ` set apps"
    using assms by (simp add: ranges_def)
  have "search_ok apps (\<lambda>_. 0) (ord (map fst apps))
      (visit_names (Suc (length apps)) ord apps (ord (map fst apps)) (\<lambda>_. 0))"
    by (rule visit_names_spec [OF assms])
      (simp_all add: search_inv_def acyclic_def names known_def open_bound_start)
  then show ?thesis
  proof (cases rule: search_okE)
    case (1 e)
    then show ?thesis by (simp add: validate_dependencies_def)
  next
    case (2 st)
    then have "dependencies_ok apps"
      by (intro search_inv_all) (auto simp: names known_def)
    with 2 show ?thesis by (simp add: validate_dependencies_def)
  qed
qed

text \<open>
  C21: \<^verbatim>\<open>validateDependencies\<close> always returns, and accepts a snapshot exactly when every dependency
  names an application of it, none names a scheduled one, and the graph has no cycle; the order
  in which Go iterates its maps cannot change the verdict.
\<close>

theorem validate_dependencies_exact:
  assumes "ranges ord"
  shows "\<exists>result. validate_dependencies ord apps = Some result \<and> (result = None \<longleftrightarrow> dependencies_ok apps)"
  using assms by (rule validate_dependencies_decides)

definition sample_apps :: apps where
  "sample_apps =
     [(''web'', default_app\<lparr>app_requires := [''db'']\<rparr>),
      (''db'', default_app\<lparr>app_dependencies := [(''web'', ''started'')]\<rparr>)]"

lemma validate_dependencies_exact_witness:
  "validate_dependencies rev sample_apps = Some (Some (DependencyCycle ''db'')) \<and> \<not> dependencies_ok sample_apps"
proof -
  have "ranges rev" by (simp add: ranges_def)
  moreover have "validate_dependencies rev sample_apps = Some (Some (DependencyCycle ''db''))"
    by code_simp
  ultimately show ?thesis
    using validate_dependencies_exact [of rev sample_apps] by auto
qed

end
