(* ===== verification/Capacity.thy ===== *)
theory Capacity
  imports Config
begin

text \<open>
  The arithmetic behind scaling decisions in \<^verbatim>\<open>src/main.go\<close>: \<^verbatim>\<open>ResourceLimits.blocked\<close> with the
  combination of system and cgroup measurements of \<^verbatim>\<open>sampleResources\<close>, the \<^verbatim>\<open>pressureWindow\<close>
  that integrates occupancy over time, and the restart delays of \<^verbatim>\<open>service.backoff\<close>.  The
  code's doubles are the rational numbers they approximate; readings of the system (\<^verbatim>\<open>cpu\<close>, \<^verbatim>\<open>mem\<close>,
  the files of the cgroups) are arguments.
\<close>

abbreviation seconds :: "duration \<Rightarrow> rat" where
  "seconds d \<equiv> of_int d / 10 ^ 9"

subsection \<open>Resource limits\<close>

record resource_limits =
  max_cpu_percent :: percent
  min_available_memory_percent :: percent

text \<open>A sample whose \<^verbatim>\<open>err\<close> is not nil is \<open>sample_failed\<close>.\<close>

record resource_sample =
  sample_at :: time
  sample_cpu :: percent
  sample_memory :: percent
  sample_failed :: bool

record resource_group =
  cpu_seconds :: rat
  group_cores :: rat
  group_memory :: percent

definition blocked :: "resource_limits \<Rightarrow> resource_sample \<Rightarrow> time \<Rightarrow> go_string" where
  "blocked lims sample now =
     (if max_cpu_percent lims = 0 \<and> min_available_memory_percent lims = 0 then []
      else if sample_at sample = 0 \<or> time_sub now (sample_at sample) > 3 * second
        then ''waiting for a fresh resource sample''
      else if sample_failed sample then ''resource measurements unavailable''
      else if max_cpu_percent lims > 0 \<and> sample_cpu sample \<ge> max_cpu_percent lims
        then ''CPU limit reached''
      else if min_available_memory_percent lims > 0
           \<and> sample_memory sample < min_available_memory_percent lims
        then ''available memory below reserve''
      else [])"

text \<open>The processor share of a group over the interval, of the cores it may use.\<close>

definition cpu_share :: "duration \<Rightarrow> resource_group \<Rightarrow> resource_group \<Rightarrow> percent" where
  "cpu_share elapsed previous g =
     100 * (cpu_seconds g - cpu_seconds previous) / seconds elapsed / group_cores g"

text \<open>
  The loop over the groups after the interval; \<open>before\<close> are the groups at its start.  A counter
  that went back, or a group that is new, makes the sample fail and ends the loop.
\<close>

fun merge_groups :: "duration \<Rightarrow> (go_string \<times> resource_group) list \<Rightarrow> resource_sample
    \<Rightarrow> (go_string \<times> resource_group) list \<Rightarrow> resource_sample" where
  "merge_groups elapsed before sample [] = sample"
| "merge_groups elapsed before sample ((path, g) # gs) =
     (let sample = sample\<lparr>sample_memory := min (sample_memory sample) (group_memory g)\<rparr> in
      if group_cores g > 0 then
        (case map_of before path of
           None \<Rightarrow> sample\<lparr>sample_failed := True\<rparr>
         | Some previous \<Rightarrow>
             if cpu_seconds g < cpu_seconds previous then sample\<lparr>sample_failed := True\<rparr>
             else merge_groups elapsed before
               (sample\<lparr>sample_cpu := max (sample_cpu sample)
                  (cpu_share elapsed previous g)\<rparr>)
               gs)
      else merge_groups elapsed before sample gs)"

text \<open>One round of \<^verbatim>\<open>sampleResources\<close>; the readings are \<open>None\<close> where reading them failed.\<close>

definition take_sample :: "time \<Rightarrow> time \<Rightarrow> (go_string \<times> resource_group) list option \<Rightarrow> percent option
    \<Rightarrow> (nat \<times> nat) option \<Rightarrow> (go_string \<times> resource_group) list option \<Rightarrow> resource_sample" where
  "take_sample started taken before usage memory after =
     (case (before, usage, memory, after) of
        (Some b, Some cpu, Some (avail, tot), Some a) \<Rightarrow>
          merge_groups (time_sub taken started) b
            \<lparr>sample_at = taken, sample_cpu = cpu, sample_memory = 100 * of_nat avail / of_nat tot,
             sample_failed = False\<rparr> a
      | _ \<Rightarrow> \<lparr>sample_at = taken, sample_cpu = 0, sample_memory = 0, sample_failed = True\<rparr>)"

lemma merge_groups_keeps:
  "sample_at (merge_groups e b s gs) = sample_at s
   \<and> sample_cpu s \<le> sample_cpu (merge_groups e b s gs)
   \<and> sample_memory (merge_groups e b s gs) \<le> sample_memory s
   \<and> (sample_failed s \<longrightarrow> sample_failed (merge_groups e b s gs))"
  by (induction e b s gs rule: merge_groups.induct)
    (fastforce simp: Let_def split: option.split)+

lemma merge_groups_memory:
  "sample_memory s \<le> m \<Longrightarrow> sample_memory (merge_groups e b s gs) \<le> m"
  using merge_groups_keeps [of e b s gs] by simp

lemma merge_groups_cpu:
  "c \<le> sample_cpu s \<Longrightarrow> c \<le> sample_cpu (merge_groups e b s gs)"
  using merge_groups_keeps [of e b s gs] by simp

lemma merge_groups_covers:
  "\<not> sample_failed (merge_groups e b s gs) \<Longrightarrow> (path, g) \<in> set gs \<Longrightarrow>
     sample_memory (merge_groups e b s gs) \<le> group_memory g
     \<and> (0 < group_cores g \<longrightarrow> (\<exists>previous. map_of b path = Some previous
         \<and> cpu_share e previous g \<le> sample_cpu (merge_groups e b s gs)))"
proof (induction e b s gs rule: merge_groups.induct)
  case (2 e b s p h gs)
  show ?case
  proof (cases "(path, g) = (p, h)")
    case True
    with 2(3) show ?thesis
      by (auto simp: Let_def merge_groups_memory merge_groups_cpu split: option.splits if_splits)
  next
    case False
    with 2 show ?thesis
      by (auto simp: Let_def split: option.splits if_splits)
  qed
qed simp


definition sample_limits :: resource_limits where
  "sample_limits = \<lparr>max_cpu_percent = 80, min_available_memory_percent = 10\<rparr>"

definition sample_group :: "rat \<Rightarrow> resource_group" where
  "sample_group used = \<lparr>cpu_seconds = used, group_cores = 2, group_memory = 50\<rparr>"


subsection \<open>Pressure\<close>

record pressure_window =
  pw_since :: time
  pw_last :: time
  pw_value :: rat
  pw_area :: rat
  pw_workers :: int

definition zero_window :: pressure_window where
  "zero_window = \<lparr>pw_since = 0, pw_last = 0, pw_value = 0, pw_area = 0, pw_workers = 0\<rparr>"

text \<open>What \<^verbatim>\<open>observePressure\<close> reads of a worker: its stop time, whether it is ready and reports
  telemetry, and how many requests it reports.\<close>

record worker_view =
  wv_stopping :: time
  wv_ready :: bool
  wv_telemetry :: bool
  wv_active :: int

text \<open>The loop over the workers: their number and the requests in progress, or \<open>None\<close> when one of
  them cannot be measured.\<close>

fun count_active :: "int \<Rightarrow> worker_view list \<Rightarrow> int \<Rightarrow> int \<Rightarrow> (int \<times> int) option" where
  "count_active concurrency [] count active = Some (count, active)"
| "count_active concurrency (child # children) count active =
     (if wv_stopping child \<noteq> 0 then count_active concurrency children count active
      else if \<not> wv_ready child \<or> \<not> wv_telemetry child then None
      else count_active concurrency children (count + 1) (active + min (wv_active child) concurrency))"

definition observe_window :: "int \<Rightarrow> worker_view list \<Rightarrow> time \<Rightarrow> pressure_window \<Rightarrow> pressure_window" where
  "observe_window concurrency children now w =
     (case count_active concurrency children 0 0 of
        None \<Rightarrow> zero_window
      | Some (count, active) \<Rightarrow>
          if count = 0 then zero_window
          else
            (let w = (if pw_since w = 0 \<or> pw_workers w \<noteq> count
                      then zero_window\<lparr>pw_since := now, pw_last := now, pw_workers := count\<rparr> else w)
             in w\<lparr>pw_area := pw_area w + pw_value w * seconds (time_sub now (pw_last w)),
                  pw_last := now, pw_value := of_int active / of_int (count * concurrency)\<rparr>))"

text \<open>\<^verbatim>\<open>evaluate\<close>: the window after it and its verdict.\<close>

definition evaluate_window :: "time \<Rightarrow> duration \<Rightarrow> percent \<Rightarrow> pressure_window \<Rightarrow> pressure_window \<times> bool" where
  "evaluate_window now window threshold w =
     (if pw_since w = 0 \<or> time_sub now (pw_since w) < window then (w, False)
      else (w\<lparr>pw_since := now, pw_area := 0\<rparr>,
            threshold \<le> 100 * pw_area w / seconds (time_sub now (pw_since w))))"

lemma count_active_bounds:
  assumes "\<forall>child \<in> set children. 0 \<le> wv_active child" and "0 \<le> concurrency"
    and "count_active concurrency children c0 a0 = Some (count, active)"
  shows "c0 \<le> count \<and> a0 \<le> active \<and> active - a0 \<le> (count - c0) * concurrency"
  using assms
proof (induction concurrency children c0 a0 rule: count_active.induct)
  case (2 concurrency child children c0 a0)
  show ?case
  proof (cases "wv_stopping child \<noteq> 0")
    case False
    with 2(2) [OF False] 2(3-5) have
      "c0 + 1 \<le> count \<and> a0 + min (wv_active child) concurrency \<le> active
       \<and> active - (a0 + min (wv_active child) concurrency) \<le> (count - (c0 + 1)) * concurrency"
      by (auto split: if_splits)
    moreover have "0 \<le> min (wv_active child) concurrency" "min (wv_active child) concurrency \<le> concurrency"
      using 2(3,4) by auto
    ultimately show ?thesis by (auto simp: algebra_simps)
  qed (use 2 in auto)
qed auto

text \<open>Occupancy is a fraction, so a window never holds more than its length.\<close>

definition window_ok :: "pressure_window \<Rightarrow> bool" where
  "window_ok w \<longleftrightarrow> (pw_since w = 0 \<longrightarrow> w = zero_window) \<and> pw_since w \<le> pw_last w
     \<and> 0 \<le> pw_value w \<and> pw_value w \<le> 1 \<and> 0 \<le> pw_area w
     \<and> pw_area w \<le> seconds (pw_last w - pw_since w)"

lemma time_sub_le: "u \<le> t \<Longrightarrow> time_sub t u \<le> t - u \<and> 0 \<le> time_sub t u"
  by (auto simp: time_sub_def max_duration_def min_duration_def)

lemma observe_window_ok:
  assumes "window_ok w" and "pw_last w \<le> now" and "0 < now" and "0 < concurrency"
    and "\<forall>child \<in> set children. 0 \<le> wv_active child"
  shows "window_ok (observe_window concurrency children now w)"
proof (cases "count_active concurrency children 0 0")
  case None
  then show ?thesis by (simp add: observe_window_def window_ok_def zero_window_def)
next
  case (Some r)
  then obtain count active where r: "count_active concurrency children 0 0 = Some (count, active)"
    by (cases r) auto
  have bounds: "0 \<le> count" "0 \<le> active" "active \<le> count * concurrency"
    using count_active_bounds [OF assms(5) _ r] assms(4) by auto
  show ?thesis
  proof (cases "count = 0")
    case True
    with r show ?thesis by (simp add: observe_window_def window_ok_def zero_window_def)
  next
    case False
    with bounds assms(4) have pos: "0 < count * concurrency" by simp
    let ?v = "rat_of_int active / rat_of_int (count * concurrency)"
    have v: "0 \<le> ?v" "?v \<le> 1" using pos bounds(2,3) by (simp_all del: of_int_mult)
    let ?d = "seconds (time_sub now (pw_last w))"
    have d: "0 \<le> ?d" "?d \<le> seconds (now - pw_last w)"
      using time_sub_le [OF assms(2)] by (simp_all add: divide_right_mono del: of_int_diff)
    then have "pw_value w * ?d \<le> 1 * ?d"
      using assms(1) by (intro mult_right_mono) (simp_all add: window_ok_def)
    then have "pw_area w + pw_value w * ?d \<le> seconds (now - pw_since w)"
      using assms(1) d(2) unfolding window_ok_def diff_divide_distrib of_int_diff by linarith
    moreover have "0 \<le> pw_value w * ?d" using assms(1) d by (simp add: window_ok_def)
    ultimately show ?thesis
      using r False v assms(1-3)
      by (auto simp: observe_window_def window_ok_def zero_window_def Let_def)
  qed
qed

text \<open>The area under a step function that has the value \<open>v\<close> from \<open>t\<close> and then those of a list of
  changes, up to the time of the final one.\<close>

fun area_to :: "rat \<Rightarrow> time \<Rightarrow> (time \<times> rat) list \<Rightarrow> rat" where
  "area_to v t [] = 0"
| "area_to v t ((t', v') # changes) = v * seconds (t' - t) + area_to v' t' changes"

definition occupancy :: "int \<Rightarrow> worker_view list \<Rightarrow> rat" where
  "occupancy concurrency children = (case count_active concurrency children 0 0 of
     None \<Rightarrow> 0 | Some (count, active) \<Rightarrow> of_int active / of_int (count * concurrency))"

definition measured :: "int \<Rightarrow> int \<Rightarrow> worker_view list \<Rightarrow> bool" where
  "measured concurrency n children \<longleftrightarrow> n \<noteq> 0 \<and> map_option fst (count_active concurrency children 0 0) = Some n"

lemma observe_measured:
  assumes "measured concurrency n children" and "pw_since w \<noteq> 0" and "pw_workers w = n"
  shows "observe_window concurrency children now w =
    w\<lparr>pw_area := pw_area w + pw_value w * seconds (time_sub now (pw_last w)),
      pw_last := now, pw_value := occupancy concurrency children\<rparr>"
  using assms by (auto simp: measured_def observe_window_def occupancy_def Let_def)

lemma observe_fold:
  assumes "\<forall>(t, children) \<in> set obs. measured concurrency n children"
    and "pw_since w \<noteq> 0" and "pw_workers w = n"
    and "sorted (pw_last w # map fst obs)" and "\<forall>(t, c) \<in> set obs. t - pw_last w < 2 ^ 63"
  shows "let w' = fold (\<lambda>(t, children). observe_window concurrency children t) obs w in
    pw_since w' = pw_since w \<and>
    pw_area w' = pw_area w + area_to (pw_value w) (pw_last w) (map (apsnd (occupancy concurrency)) obs)"
  using assms
proof (induction obs arbitrary: w)
  case (Cons ob obs)
  obtain t children where ob: "ob = (t, children)" by (cases ob)
  with Cons.prems have step: "observe_window concurrency children t w =
    w\<lparr>pw_area := pw_area w + pw_value w * seconds (t - pw_last w),
      pw_last := t, pw_value := occupancy concurrency children\<rparr>"
    by (simp add: observe_measured [where n = n])
  show ?case
    using Cons.prems Cons.IH [of "observe_window concurrency children t w"]
    by (fastforce simp: ob step Let_def)
qed simp

text \<open>
  The pool is under pressure, after a series of observations of the same number of measured
  workers, exactly when the window has passed and the mean occupancy over it, as a percentage,
  reaches the threshold.
\<close>

theorem pressure_mean:
  assumes "obs = (t0, first) # rest" and "rest \<noteq> []"
    and "\<forall>(t, children) \<in> set obs. measured concurrency n children"
    and "sorted (map fst obs)" and "0 < t0" and "fst (last obs) - t0 < 2 ^ 63"
  defines "now \<equiv> fst (last obs)"
  shows "snd (evaluate_window now window threshold
      (fold (\<lambda>(t, children). observe_window concurrency children t) obs zero_window))
    \<longleftrightarrow> window \<le> now - t0 \<and> threshold \<le>
      100 * area_to (occupancy concurrency first) t0 (map (apsnd (occupancy concurrency)) rest)
        / seconds (now - t0)"
proof -
  let ?w = "zero_window\<lparr>pw_since := t0, pw_last := t0, pw_workers := n,
    pw_value := occupancy concurrency first\<rparr>"
  have start: "observe_window concurrency first t0 zero_window = ?w"
    using assms(1,3) by (auto simp: measured_def observe_window_def occupancy_def zero_window_def)
  have below: "t \<le> now" if "(t, c) \<in> set rest" for t c
  proof -
    from that assms(2) obtain i where i: "i < length rest" "rest ! i = (t, c)"
      by (auto simp: in_set_conv_nth)
    have "map fst rest ! i \<le> map fst rest ! (length rest - 1)"
      using assms(1,4) i(1) by (intro sorted_nth_mono) auto
    with i assms(1,2) show ?thesis by (simp add: now_def last_conv_nth)
  qed
  have "\<forall>(t, c) \<in> set rest. t - pw_last ?w < 2 ^ 63"
    using below assms(6) unfolding now_def [symmetric] by fastforce
  moreover have "sorted (pw_last ?w # map fst rest)" using assms(1,4) by simp
  ultimately have fold: "let w' = fold (\<lambda>(t, children). observe_window concurrency children t) rest ?w in
      pw_since w' = t0 \<and> pw_area w' =
        area_to (occupancy concurrency first) t0 (map (apsnd (occupancy concurrency)) rest)"
    using observe_fold [of rest concurrency n ?w] assms(1,3,5)
    by (simp add: zero_window_def Let_def)
  have "t0 \<le> now"
    using below assms(1,2,4) by (cases "hd rest") (force simp: neq_Nil_conv)
  then show ?thesis
    using fold assms(1,5,6) unfolding now_def [symmetric]
    by (auto simp: start evaluate_window_def Let_def)
qed

text \<open>One worker of concurrency 2: idle for a second, then at one request of two for three.\<close>

definition one_worker :: "int \<Rightarrow> worker_view list" where
  "one_worker active = [\<lparr>wv_stopping = 0, wv_ready = True, wv_telemetry = True, wv_active = active\<rparr>]"

theorem pressure_mean_witness:
  "snd (evaluate_window (5 * second) second 30
     (fold (\<lambda>(t, children). observe_window 2 children t)
       [(second, one_worker 0), (2 * second, one_worker 1), (5 * second, one_worker 2)] zero_window))"
proof -
  have "measured 2 1 (one_worker a)" for a by (simp add: measured_def one_worker_def)
  moreover have "occupancy 2 (one_worker 0) = 0" "occupancy 2 (one_worker 1) = 1 / 2"
    by (simp_all add: occupancy_def one_worker_def)
  ultimately show ?thesis
    using pressure_mean [OF refl, where concurrency = 2 and n = 1 and window = second
      and threshold = 30 and ?t0.0 = second and first = "one_worker 0"
      and rest = "[(2 * second, one_worker 1), (5 * second, one_worker 2)]"]
    by simp
qed

subsection \<open>Restart delays\<close>

text \<open>The delay of \<^verbatim>\<open>service.backoff\<close> after the number of failures it has counted.\<close>

definition backoff_delay :: "int \<Rightarrow> duration" where
  "backoff_delay failures = 250 * millisecond * 2 ^ nat (min (failures - 1) 7)"

lemma backoff_delay_first [simp]: "backoff_delay 1 = 250 * millisecond"
  by (simp add: backoff_delay_def)

lemma backoff_delay_double:
  "1 \<le> failures \<Longrightarrow> backoff_delay (failures + 1) =
     (if failures < 8 then 2 * backoff_delay failures else backoff_delay failures)"
proof (cases "failures < 8")
  case True
  moreover assume "1 \<le> failures"
  ultimately have "nat (min failures 7) = Suc (nat (min (failures - 1) 7))" by simp
  with True show ?thesis by (simp add: backoff_delay_def)
qed (simp add: backoff_delay_def)

lemma backoff_delay_bounds: "250 * millisecond \<le> backoff_delay f" "backoff_delay f \<le> 32 * second"
proof -
  have "(1 :: int) \<le> 2 ^ nat (min (f - 1) 7)" by simp
  then show "250 * millisecond \<le> backoff_delay f" by (simp add: backoff_delay_def)
  have "(2 :: int) ^ nat (min (f - 1) 7) \<le> 2 ^ 7" by (rule power_increasing) auto
  then show "backoff_delay f \<le> 32 * second" by (simp add: backoff_delay_def)
qed

end
