(* ===== verification/Store.thy ===== *)
theory Store
  imports Capacity Dependencies "HOL-Library.Multiset"
begin

text \<open>
  The state of the supervisor in \<^verbatim>\<open>src/main.go\<close>: types \<^verbatim>\<open>process\<close>, \<^verbatim>\<open>appCycle\<close>, \<^verbatim>\<open>actionScope\<close>,
  \<^verbatim>\<open>actionRun\<close>, \<^verbatim>\<open>service\<close> and \<^verbatim>\<open>manager\<close>.  They point at each other, so they live in an
  explicit store: a pointer is a number, one heap per type is a function from numbers, and
  \<^verbatim>\<open>nil\<close> is \<open>None\<close>.  A Go map that is a set of pointers is a list without duplicates.

  What the supervisor does to the outside world is recorded as a list of effects, and what the
  outside world answers during one operation is the record \<open>world\<close>, which also chooses the order
  in which each loop over a Go map runs.
\<close>

type_synonym proc_id = nat
type_synonym cycle_id = nat
type_synonym scope_id = nat
type_synonym run_id = nat
type_synonym service_id = nat
type_synonym listener_id = int

subsection \<open>Objects\<close>

text \<open>\<^verbatim>\<open>process\<close>; \<open>p_control\<close> says whether the worker has a control pipe on its stdin.  The fields
  \<^verbatim>\<open>cmd\<close> and \<^verbatim>\<open>job\<close> are handles of the started process, set exactly when \<open>p_pending\<close> is cleared.\<close>

record process =
  p_was_ready :: bool
  p_pending :: bool
  p_exited :: bool
  p_base_ready :: bool
  p_stop_sent :: bool
  p_exit_code :: int
  p_scope :: "scope_id option"
  p_cycle :: "cycle_id option"
  p_pid :: int
  p_control :: bool
  p_service :: service_id
  p_ready :: bool
  p_telemetry :: bool
  p_active :: "(go_string \<times> time) list"
  p_started :: time
  p_executed :: time
  p_idle_since :: time
  p_stopping :: time
  p_killed :: bool
  p_failed :: bool
  p_probing :: bool
  p_next_probe :: time
  p_config :: app

record cycle =
  cy_members :: "proc_id list"
  cy_scope :: scope_id
  cy_retiring :: bool

record scope =
  sc_config :: app
  sc_address :: go_string
  sc_worker :: "proc_id option"
  sc_cycle :: "cycle_id option"
  sc_runs :: "(go_string \<times> run_id list) list"

text \<open>\<^verbatim>\<open>actionRun\<close>; \<open>ru_cancel\<close> says whether the cancel function is set.\<close>

record run =
  ru_scope :: scope_id
  ru_event :: go_string
  ru_binding :: trigger
  ru_running :: bool
  ru_done :: bool
  ru_success :: bool
  ru_cancelled :: bool
  ru_failures :: int
  ru_next :: time
  ru_cancel :: bool

record service =
  s_schedule :: schedule
  s_next_run :: time
  s_scheduled :: bool
  s_cycle :: "cycle_id option"
  s_name :: go_string
  s_config :: app
  s_listener :: "listener_id option"
  s_workers :: "proc_id list"
  s_demand :: bool
  s_pressure :: pressure_window
  s_retry_at :: time
  s_failures :: int
  s_unneeded_since :: time

text \<open>\<^verbatim>\<open>serviceListener\<close>, by its identifier: the bound address and the time to arm it again.\<close>

record listener =
  l_address :: go_string
  l_rearm_at :: time

subsection \<open>Effects\<close>

text \<open>The part \<^verbatim>\<open>runtime\<close> of the values an action or a launch is expanded with.\<close>

record runtime =
  rt_event :: go_string
  rt_scope :: go_string
  rt_pid :: int
  rt_exit_code :: int
  rt_worker_requests :: nat
  rt_ready :: bool
  rt_telemetry :: bool
  rt_stopping :: bool
  rt_started_ns :: int
  rt_uptime_ms :: int
  rt_workers :: nat
  rt_ready_workers :: nat
  rt_stopping_workers :: nat
  rt_requests :: nat
  rt_pids :: "int list"

datatype effect =
    RunAction run_id runtime
  | CancelAction run_id
  | Launch proc_id runtime
  | WriteStop proc_id time
  | StopSignal proc_id
  | KillJob proc_id time
  | ProbeSocket proc_id go_string go_string
  | ArmListener listener_id
  | CloseListener listener_id
  | OpenListener listener_id socket
  | SetPermissions go_string mode
  | FinishPermissions go_string bool

subsection \<open>The supervisor\<close>

datatype fatal_error = PollerFailed | ListenerEvent go_string | CleanupFailed int | RearmFailed go_string
  | PermissionsUnfinished

record store =
  st_procs :: "proc_id \<Rightarrow> process"
  st_cycles :: "cycle_id \<Rightarrow> cycle"
  st_scopes :: "scope_id \<Rightarrow> scope"
  st_runs :: "run_id \<Rightarrow> run"
  st_servs :: "service_id \<Rightarrow> service"
  st_lists :: "listener_id \<Rightarrow> listener"
  st_next_proc :: nat
  st_next_cycle :: nat
  st_next_scope :: nat
  st_next_run :: nat
  st_next_serv :: nat
  st_action_tasks :: int
  st_cgroup :: go_string
  st_services :: "(go_string \<times> service_id) list"
  st_workers :: "proc_id list"
  st_fatal :: "fatal_error option"
  st_listeners :: "(listener_id \<times> service_id) list"
  st_next_listener :: int
  st_limits :: resource_limits
  st_resources :: resource_sample
  st_resource_block :: go_string
  st_effects :: "effect list"

subsection \<open>The outside world during one operation\<close>

text \<open>The loops over Go maps whose order can show.\<close>

datatype loop = LoopServices | LoopWorkers | LoopStopping | LoopService service_id | LoopPending service_id
  | LoopIdle service_id | LoopMembers | LoopRestart | LoopDependency service_id

text \<open>
  \<open>w_order\<close> orders the elements of a map, \<open>w_launch\<close> answers an attempt to start a process with its
  pid and the time then read or with an error, \<open>w_stdin\<close> says whether a write to a worker's stdin
  succeeds and \<open>w_arm\<close> whether arming a listener does.  \<open>w_local\<close> is the local time of an instant.
  While a configuration is applied, \<open>w_clock\<close> is the clock read for an object, \<open>w_open\<close> the bound
  address of the listener opened for an application or an error, and \<open>w_chmod\<close> and \<open>w_finish\<close>
  say whether setting the permissions of a Unix socket, and committing or undoing them, succeed.
\<close>

record world =
  w_order :: "loop \<Rightarrow> nat list \<Rightarrow> nat list"
  w_launch :: "proc_id \<Rightarrow> (int \<times> time) option"
  w_stdin :: "proc_id \<Rightarrow> bool"
  w_arm :: "listener_id \<Rightarrow> bool"
  w_local :: "time \<Rightarrow> calendar"
  w_clock :: "nat \<Rightarrow> time"
  w_open :: "go_string \<Rightarrow> go_string option"
  w_chmod :: "go_string \<Rightarrow> bool"
  w_finish :: "go_string \<Rightarrow> bool"

definition world_ok :: "world \<Rightarrow> bool" where
  "world_ok w \<longleftrightarrow> (\<forall>l xs. mset (w_order w l xs) = mset xs)
     \<and> (\<forall>p pid t. w_launch w p = Some (pid, t) \<longrightarrow> 0 < pid \<and> 0 < t)
     \<and> (\<forall>n. 0 < w_clock w n)"

lemma world_order: "world_ok w \<Longrightarrow> set (w_order w l xs) = set xs"
  by (metis set_mset_mset world_ok_def)

subsection \<open>Updating the store\<close>

definition upd_proc :: "proc_id \<Rightarrow> (process \<Rightarrow> process) \<Rightarrow> store \<Rightarrow> store" where
  "upd_proc p f st = st\<lparr>st_procs := (st_procs st)(p := f (st_procs st p))\<rparr>"

definition upd_cycle :: "cycle_id \<Rightarrow> (cycle \<Rightarrow> cycle) \<Rightarrow> store \<Rightarrow> store" where
  "upd_cycle c f st = st\<lparr>st_cycles := (st_cycles st)(c := f (st_cycles st c))\<rparr>"

definition upd_scope :: "scope_id \<Rightarrow> (scope \<Rightarrow> scope) \<Rightarrow> store \<Rightarrow> store" where
  "upd_scope s f st = st\<lparr>st_scopes := (st_scopes st)(s := f (st_scopes st s))\<rparr>"

definition upd_run :: "run_id \<Rightarrow> (run \<Rightarrow> run) \<Rightarrow> store \<Rightarrow> store" where
  "upd_run r f st = st\<lparr>st_runs := (st_runs st)(r := f (st_runs st r))\<rparr>"

definition upd_serv :: "service_id \<Rightarrow> (service \<Rightarrow> service) \<Rightarrow> store \<Rightarrow> store" where
  "upd_serv s f st = st\<lparr>st_servs := (st_servs st)(s := f (st_servs st s))\<rparr>"

definition upd_list :: "listener_id \<Rightarrow> (listener \<Rightarrow> listener) \<Rightarrow> store \<Rightarrow> store" where
  "upd_list l f st = st\<lparr>st_lists := (st_lists st)(l := f (st_lists st l))\<rparr>"

definition emit :: "effect \<Rightarrow> store \<Rightarrow> store" where
  "emit e st = st\<lparr>st_effects := st_effects st @ [e]\<rparr>"

text \<open>\<^verbatim>\<open>delete(set, x)\<close> on a map used as a set, and \<^verbatim>\<open>set[x] = struct{}{}\<close>.\<close>

definition set_delete :: "'a \<Rightarrow> 'a list \<Rightarrow> 'a list" where
  "set_delete x xs = filter (\<lambda>y. y \<noteq> x) xs"

definition set_insert :: "'a \<Rightarrow> 'a list \<Rightarrow> 'a list" where
  "set_insert x xs = (if x \<in> set xs then xs else xs @ [x])"

lemma set_set_delete [simp]: "set (set_delete x xs) = set xs - {x}"
  by (auto simp: set_delete_def)

lemma set_set_insert [simp]: "set (set_insert x xs) = insert x (set xs)"
  by (auto simp: set_insert_def)

lemma distinct_set_delete [simp]: "distinct xs \<Longrightarrow> distinct (set_delete x xs)"
  by (simp add: set_delete_def)

lemma distinct_set_insert [simp]: "distinct xs \<Longrightarrow> distinct (set_insert x xs)"
  by (simp add: set_insert_def)

subsection \<open>Reading an updated store\<close>

lemma upd_proc_simps [simp]:
  "st_procs (upd_proc p f st) = (st_procs st)(p := f (st_procs st p))"
  "st_cycles (upd_proc p f st) = st_cycles st"
  "st_scopes (upd_proc p f st) = st_scopes st"
  "st_runs (upd_proc p f st) = st_runs st"
  "st_servs (upd_proc p f st) = st_servs st"
  "st_lists (upd_proc p f st) = st_lists st"
  "st_next_proc (upd_proc p f st) = st_next_proc st"
  "st_next_cycle (upd_proc p f st) = st_next_cycle st"
  "st_next_scope (upd_proc p f st) = st_next_scope st"
  "st_next_run (upd_proc p f st) = st_next_run st"
  "st_next_serv (upd_proc p f st) = st_next_serv st"
  "st_action_tasks (upd_proc p f st) = st_action_tasks st"
  "st_cgroup (upd_proc p f st) = st_cgroup st"
  "st_services (upd_proc p f st) = st_services st"
  "st_workers (upd_proc p f st) = st_workers st"
  "st_fatal (upd_proc p f st) = st_fatal st"
  "st_listeners (upd_proc p f st) = st_listeners st"
  "st_next_listener (upd_proc p f st) = st_next_listener st"
  "st_limits (upd_proc p f st) = st_limits st"
  "st_resources (upd_proc p f st) = st_resources st"
  "st_resource_block (upd_proc p f st) = st_resource_block st"
  "st_effects (upd_proc p f st) = st_effects st"
  by (simp_all add: upd_proc_def)

lemma upd_cycle_simps [simp]:
  "st_procs (upd_cycle c f st) = st_procs st"
  "st_cycles (upd_cycle c f st) = (st_cycles st)(c := f (st_cycles st c))"
  "st_scopes (upd_cycle c f st) = st_scopes st"
  "st_runs (upd_cycle c f st) = st_runs st"
  "st_servs (upd_cycle c f st) = st_servs st"
  "st_lists (upd_cycle c f st) = st_lists st"
  "st_next_proc (upd_cycle c f st) = st_next_proc st"
  "st_next_cycle (upd_cycle c f st) = st_next_cycle st"
  "st_next_scope (upd_cycle c f st) = st_next_scope st"
  "st_next_run (upd_cycle c f st) = st_next_run st"
  "st_next_serv (upd_cycle c f st) = st_next_serv st"
  "st_action_tasks (upd_cycle c f st) = st_action_tasks st"
  "st_cgroup (upd_cycle c f st) = st_cgroup st"
  "st_services (upd_cycle c f st) = st_services st"
  "st_workers (upd_cycle c f st) = st_workers st"
  "st_fatal (upd_cycle c f st) = st_fatal st"
  "st_listeners (upd_cycle c f st) = st_listeners st"
  "st_next_listener (upd_cycle c f st) = st_next_listener st"
  "st_limits (upd_cycle c f st) = st_limits st"
  "st_resources (upd_cycle c f st) = st_resources st"
  "st_resource_block (upd_cycle c f st) = st_resource_block st"
  "st_effects (upd_cycle c f st) = st_effects st"
  by (simp_all add: upd_cycle_def)

lemma upd_scope_simps [simp]:
  "st_procs (upd_scope s f st) = st_procs st"
  "st_cycles (upd_scope s f st) = st_cycles st"
  "st_scopes (upd_scope s f st) = (st_scopes st)(s := f (st_scopes st s))"
  "st_runs (upd_scope s f st) = st_runs st"
  "st_servs (upd_scope s f st) = st_servs st"
  "st_lists (upd_scope s f st) = st_lists st"
  "st_next_proc (upd_scope s f st) = st_next_proc st"
  "st_next_cycle (upd_scope s f st) = st_next_cycle st"
  "st_next_scope (upd_scope s f st) = st_next_scope st"
  "st_next_run (upd_scope s f st) = st_next_run st"
  "st_next_serv (upd_scope s f st) = st_next_serv st"
  "st_action_tasks (upd_scope s f st) = st_action_tasks st"
  "st_cgroup (upd_scope s f st) = st_cgroup st"
  "st_services (upd_scope s f st) = st_services st"
  "st_workers (upd_scope s f st) = st_workers st"
  "st_fatal (upd_scope s f st) = st_fatal st"
  "st_listeners (upd_scope s f st) = st_listeners st"
  "st_next_listener (upd_scope s f st) = st_next_listener st"
  "st_limits (upd_scope s f st) = st_limits st"
  "st_resources (upd_scope s f st) = st_resources st"
  "st_resource_block (upd_scope s f st) = st_resource_block st"
  "st_effects (upd_scope s f st) = st_effects st"
  by (simp_all add: upd_scope_def)

lemma upd_run_simps [simp]:
  "st_procs (upd_run r f st) = st_procs st"
  "st_cycles (upd_run r f st) = st_cycles st"
  "st_scopes (upd_run r f st) = st_scopes st"
  "st_runs (upd_run r f st) = (st_runs st)(r := f (st_runs st r))"
  "st_servs (upd_run r f st) = st_servs st"
  "st_lists (upd_run r f st) = st_lists st"
  "st_next_proc (upd_run r f st) = st_next_proc st"
  "st_next_cycle (upd_run r f st) = st_next_cycle st"
  "st_next_scope (upd_run r f st) = st_next_scope st"
  "st_next_run (upd_run r f st) = st_next_run st"
  "st_next_serv (upd_run r f st) = st_next_serv st"
  "st_action_tasks (upd_run r f st) = st_action_tasks st"
  "st_cgroup (upd_run r f st) = st_cgroup st"
  "st_services (upd_run r f st) = st_services st"
  "st_workers (upd_run r f st) = st_workers st"
  "st_fatal (upd_run r f st) = st_fatal st"
  "st_listeners (upd_run r f st) = st_listeners st"
  "st_next_listener (upd_run r f st) = st_next_listener st"
  "st_limits (upd_run r f st) = st_limits st"
  "st_resources (upd_run r f st) = st_resources st"
  "st_resource_block (upd_run r f st) = st_resource_block st"
  "st_effects (upd_run r f st) = st_effects st"
  by (simp_all add: upd_run_def)

lemma upd_serv_simps [simp]:
  "st_procs (upd_serv s f st) = st_procs st"
  "st_cycles (upd_serv s f st) = st_cycles st"
  "st_scopes (upd_serv s f st) = st_scopes st"
  "st_runs (upd_serv s f st) = st_runs st"
  "st_servs (upd_serv s f st) = (st_servs st)(s := f (st_servs st s))"
  "st_lists (upd_serv s f st) = st_lists st"
  "st_next_proc (upd_serv s f st) = st_next_proc st"
  "st_next_cycle (upd_serv s f st) = st_next_cycle st"
  "st_next_scope (upd_serv s f st) = st_next_scope st"
  "st_next_run (upd_serv s f st) = st_next_run st"
  "st_next_serv (upd_serv s f st) = st_next_serv st"
  "st_action_tasks (upd_serv s f st) = st_action_tasks st"
  "st_cgroup (upd_serv s f st) = st_cgroup st"
  "st_services (upd_serv s f st) = st_services st"
  "st_workers (upd_serv s f st) = st_workers st"
  "st_fatal (upd_serv s f st) = st_fatal st"
  "st_listeners (upd_serv s f st) = st_listeners st"
  "st_next_listener (upd_serv s f st) = st_next_listener st"
  "st_limits (upd_serv s f st) = st_limits st"
  "st_resources (upd_serv s f st) = st_resources st"
  "st_resource_block (upd_serv s f st) = st_resource_block st"
  "st_effects (upd_serv s f st) = st_effects st"
  by (simp_all add: upd_serv_def)

lemma upd_list_simps [simp]:
  "st_procs (upd_list l f st) = st_procs st"
  "st_cycles (upd_list l f st) = st_cycles st"
  "st_scopes (upd_list l f st) = st_scopes st"
  "st_runs (upd_list l f st) = st_runs st"
  "st_servs (upd_list l f st) = st_servs st"
  "st_lists (upd_list l f st) = (st_lists st)(l := f (st_lists st l))"
  "st_next_proc (upd_list l f st) = st_next_proc st"
  "st_next_cycle (upd_list l f st) = st_next_cycle st"
  "st_next_scope (upd_list l f st) = st_next_scope st"
  "st_next_run (upd_list l f st) = st_next_run st"
  "st_next_serv (upd_list l f st) = st_next_serv st"
  "st_action_tasks (upd_list l f st) = st_action_tasks st"
  "st_cgroup (upd_list l f st) = st_cgroup st"
  "st_services (upd_list l f st) = st_services st"
  "st_workers (upd_list l f st) = st_workers st"
  "st_fatal (upd_list l f st) = st_fatal st"
  "st_listeners (upd_list l f st) = st_listeners st"
  "st_next_listener (upd_list l f st) = st_next_listener st"
  "st_limits (upd_list l f st) = st_limits st"
  "st_resources (upd_list l f st) = st_resources st"
  "st_resource_block (upd_list l f st) = st_resource_block st"
  "st_effects (upd_list l f st) = st_effects st"
  by (simp_all add: upd_list_def)

lemma emit_simps [simp]:
  "st_procs (emit e st) = st_procs st"
  "st_cycles (emit e st) = st_cycles st"
  "st_scopes (emit e st) = st_scopes st"
  "st_runs (emit e st) = st_runs st"
  "st_servs (emit e st) = st_servs st"
  "st_lists (emit e st) = st_lists st"
  "st_next_proc (emit e st) = st_next_proc st"
  "st_next_cycle (emit e st) = st_next_cycle st"
  "st_next_scope (emit e st) = st_next_scope st"
  "st_next_run (emit e st) = st_next_run st"
  "st_next_serv (emit e st) = st_next_serv st"
  "st_action_tasks (emit e st) = st_action_tasks st"
  "st_cgroup (emit e st) = st_cgroup st"
  "st_services (emit e st) = st_services st"
  "st_workers (emit e st) = st_workers st"
  "st_fatal (emit e st) = st_fatal st"
  "st_listeners (emit e st) = st_listeners st"
  "st_next_listener (emit e st) = st_next_listener st"
  "st_limits (emit e st) = st_limits st"
  "st_resources (emit e st) = st_resources st"
  "st_resource_block (emit e st) = st_resource_block st"
  "st_effects (emit e st) = st_effects st @ [e]"
  by (simp_all add: emit_def)

end
