(* ===== verification/Lifecycle.thy ===== *)
theory Lifecycle
  imports Store
begin

text \<open>
  The life of one worker in \<^verbatim>\<open>src/main.go\<close>: the actions bound to its events (\<^verbatim>\<open>actionScope.values\<close>,
  \<^verbatim>\<open>cancelChecks\<close>, \<^verbatim>\<open>cancelPhase\<close>, \<^verbatim>\<open>manager.phase\<close>, \<^verbatim>\<open>actionResult\<close>), the steps of its state
  machine (\<^verbatim>\<open>lifecycle\<close>, \<^verbatim>\<open>stop\<close>, \<^verbatim>\<open>signalStop\<close>) and what they use (\<^verbatim>\<open>dependenciesReady\<close>,
  \<^verbatim>\<open>observePressure\<close>, \<^verbatim>\<open>backoff\<close>).  Log lines are left out.
\<close>

subsection \<open>Values of an action\<close>

text \<open>Nanoseconds from the zero time to the Unix epoch, and \<^verbatim>\<open>UnixNano\<close>, whose result is an \<^verbatim>\<open>int64\<close>.\<close>

definition unix_epoch :: time where "unix_epoch = 62135596800 * second"

definition unix_nano :: "time \<Rightarrow> int" where
  "unix_nano t = wrap64 (t - unix_epoch)"

text \<open>\<^verbatim>\<open>Duration.Milliseconds\<close> divides towards zero.\<close>

definition milliseconds :: "duration \<Rightarrow> int" where
  "milliseconds d = sgn d * (\<bar>d\<bar> div millisecond)"

definition zero_runtime :: runtime where
  "zero_runtime = \<lparr>rt_event = [], rt_scope = ''worker'', rt_pid = 0, rt_exit_code = -1,
     rt_worker_requests = 0, rt_ready = False, rt_telemetry = False, rt_stopping = False,
     rt_started_ns = 0, rt_uptime_ms = 0, rt_workers = 0, rt_ready_workers = 0,
     rt_stopping_workers = 0, rt_requests = 0, rt_pids = []\<rparr>"

definition worker_values :: "process \<Rightarrow> time \<Rightarrow> runtime \<Rightarrow> runtime" where
  "worker_values child now rt =
     (let rt = rt\<lparr>rt_pid := p_pid child, rt_exit_code := p_exit_code child,
        rt_worker_requests := length (p_active child), rt_ready := p_ready child,
        rt_telemetry := p_telemetry child, rt_stopping := p_stopping child \<noteq> 0\<rparr>
      in if p_pending child then rt
         else rt\<lparr>rt_started_ns := unix_nano (p_started child),
                rt_uptime_ms := milliseconds (time_sub now (p_started child))\<rparr>)"

text \<open>The counts over the members of a cycle that have not exited.\<close>

definition cycle_values :: "process list \<Rightarrow> runtime \<Rightarrow> runtime" where
  "cycle_values members rt =
     (let alive = filter (\<lambda>c. \<not> p_exited c) members in
      rt\<lparr>rt_workers := length (filter (\<lambda>c. p_stopping c = 0) alive),
         rt_ready_workers := length (filter (\<lambda>c. p_ready c \<and> p_stopping c = 0) alive),
         rt_stopping_workers := length (filter (\<lambda>c. p_stopping c \<noteq> 0) alive),
         rt_requests := sum_list (map (\<lambda>c. length (p_active c)) alive),
         rt_pids := sort (map p_pid (filter (\<lambda>c. p_pid c > 0) alive))\<rparr>)"

definition scope_values :: "store \<Rightarrow> scope_id \<Rightarrow> go_string \<Rightarrow> time \<Rightarrow> runtime" where
  "scope_values st s event now =
     (let scope = st_scopes st s;
          rt = zero_runtime\<lparr>rt_event := event\<rparr>;
          (rt, cycle) = (case sc_worker scope of
              Some p \<Rightarrow> (worker_values (st_procs st p) now rt, p_cycle (st_procs st p))
            | None \<Rightarrow> (rt\<lparr>rt_scope := ''app''\<rparr>, sc_cycle scope))
      in case cycle of
           None \<Rightarrow> rt
         | Some c \<Rightarrow> cycle_values (map (st_procs st) (cy_members (st_cycles st c))) rt)"

subsection \<open>Actions of a scope\<close>

definition cancel_run :: "run_id \<Rightarrow> store \<Rightarrow> store" where
  "cancel_run r st =
     (let st' = upd_run r (\<lambda>run. run\<lparr>ru_cancelled := True\<rparr>) st
      in if ru_cancel (st_runs st r) then emit (CancelAction r) st' else st')"

definition cancel_checks :: "scope_id option \<Rightarrow> store \<Rightarrow> store" where
  "cancel_checks scope st = (case scope of
     None \<Rightarrow> st
   | Some s \<Rightarrow> fold (\<lambda>(event, runs) st.
       if event = ''pre_stop'' \<or> event = ''post_stop'' then st else fold cancel_run runs st)
       (sc_runs (st_scopes st s)) st)"

definition cancel_phase :: "scope_id option \<Rightarrow> go_string \<Rightarrow> store \<Rightarrow> store" where
  "cancel_phase scope event st = (case scope of
     None \<Rightarrow> st
   | Some s \<Rightarrow> fold cancel_run (lookup_or [] (sc_runs (st_scopes st s)) event) st)"

definition new_run :: "scope_id \<Rightarrow> go_string \<Rightarrow> trigger \<Rightarrow> run" where
  "new_run s event binding = \<lparr>ru_scope = s, ru_event = event, ru_binding = binding,
     ru_running = False, ru_done = False, ru_success = False, ru_cancelled = False,
     ru_failures = 0, ru_next = 0, ru_cancel = False\<rparr>"

definition alloc_run :: "run \<Rightarrow> store \<Rightarrow> store" where
  "alloc_run run st = st\<lparr>st_runs := (st_runs st)(st_next_run st := run), st_next_run := Suc (st_next_run st)\<rparr>"

text \<open>The runs of an event, made from the bindings of the scope's kind when it is first entered.\<close>

definition scope_kind :: "scope \<Rightarrow> go_string" where
  "scope_kind scope = (if sc_worker scope = None then ''app'' else ''worker'')"

definition event_bindings :: "scope \<Rightarrow> go_string \<Rightarrow> trigger list" where
  "event_bindings scope event =
     filter (\<lambda>b. tr_scope b = scope_kind scope) (lookup_or [] (app_triggers (sc_config scope)) event)"

definition phase_runs :: "scope_id \<Rightarrow> go_string \<Rightarrow> store \<Rightarrow> store \<times> run_id list" where
  "phase_runs s event st = (case map_of (sc_runs (st_scopes st s)) event of
     Some runs \<Rightarrow> (st, runs)
   | None \<Rightarrow>
       (let bindings = event_bindings (st_scopes st s) event;
            runs = [st_next_run st ..< st_next_run st + length bindings];
            st' = fold alloc_run (map (new_run s event) bindings) st
        in (upd_scope s (\<lambda>sc. sc\<lparr>sc_runs := sc_runs sc @ [(event, runs)]\<rparr>) st', runs)))"

definition run_due :: "run \<Rightarrow> go_string \<Rightarrow> time \<Rightarrow> bool" where
  "run_due run event now \<longleftrightarrow> \<not> ru_running run \<and> \<not> ru_cancelled run \<and> \<not> now < ru_next run
     \<and> (\<not> ru_done run \<or> event = ''health'' \<or> (event = ''readiness'' \<and> \<not> ru_success run))"

definition run_passed :: "run \<Rightarrow> go_string \<Rightarrow> bool" where
  "run_passed run event \<longleftrightarrow>
     (if event \<noteq> ''readiness'' \<and> event \<noteq> ''health'' \<and> ru_done run
         \<and> tr_on_failure (ru_binding run) = ''log'' then True
      else if event = ''health'' then ru_failures run < tr_failure_threshold (ru_binding run)
      else ru_done run \<and> ru_success run)"

definition start_run :: "run_id \<Rightarrow> runtime \<Rightarrow> store \<Rightarrow> store" where
  "start_run r values st =
     emit (RunAction r values)
       (upd_run r (\<lambda>run. run\<lparr>ru_running := True, ru_cancel := True\<rparr>)
         (st\<lparr>st_action_tasks := st_action_tasks st + 1\<rparr>))"

fun phase_loop :: "scope_id \<Rightarrow> go_string \<Rightarrow> time \<Rightarrow> run_id list \<Rightarrow> store \<Rightarrow> bool \<Rightarrow> store \<times> bool" where
  "phase_loop s event now [] st ok = (st, ok)"
| "phase_loop s event now (r # runs) st ok =
     (let st' = (if run_due (st_runs st r) event now
                 then start_run r (scope_values st s event now) st else st);
          run = st_runs st' r
      in phase_loop s event now runs st'
           (if awaited (ru_binding run) then ok \<and> run_passed run event else ok))"

definition phase :: "scope_id option \<Rightarrow> go_string \<Rightarrow> time \<Rightarrow> store \<Rightarrow> store \<times> bool" where
  "phase scope event now st = (case scope of
     None \<Rightarrow> (st, True)
   | Some s \<Rightarrow> (let (st, runs) = phase_runs s event st in phase_loop s event now runs st True))"

subsection \<open>Dependencies, pressure and restart delays\<close>

text \<open>A worker that counts for the conditions \<^verbatim>\<open>ready\<close> and \<^verbatim>\<open>parallel\<close>, or for \<^verbatim>\<open>started\<close>.\<close>

definition satisfies :: "process \<Rightarrow> go_string \<Rightarrow> bool" where
  "satisfies child condition \<longleftrightarrow> \<not> p_pending child \<and> \<not> p_exited child \<and> p_stopping child = 0
     \<and> (condition = ''started'' \<or> p_ready child)"

definition dependencies_ready :: "store \<Rightarrow> app \<Rightarrow> bool \<Rightarrow> bool" where
  "dependencies_ready st app readiness \<longleftrightarrow>
     list_all (\<lambda>(name, condition).
       (condition = ''parallel'' \<and> \<not> readiness) \<or>
       (case map_of (st_services st) name of
          None \<Rightarrow> False
        | Some s \<Rightarrow> list_ex (\<lambda>p. satisfies (st_procs st p) condition) (s_workers (st_servs st s))))
       (dependencies app)"

definition worker_view_of :: "process \<Rightarrow> worker_view" where
  "worker_view_of child = \<lparr>wv_stopping = p_stopping child, wv_ready = p_ready child,
     wv_telemetry = p_telemetry child, wv_active = int (length (p_active child))\<rparr>"

definition observe_pressure :: "service_id \<Rightarrow> time \<Rightarrow> store \<Rightarrow> store" where
  "observe_pressure s now st =
     upd_serv s (\<lambda>service. service\<lparr>s_pressure :=
       observe_window (app_concurrency (s_config service))
         (map (worker_view_of \<circ> st_procs st) (s_workers service)) now (s_pressure service)\<rparr>) st"

definition backoff :: "service_id \<Rightarrow> time \<Rightarrow> store \<Rightarrow> store" where
  "backoff s now =
     upd_serv s (\<lambda>service. service\<lparr>s_failures := s_failures service + 1,
       s_retry_at := now + backoff_delay (s_failures service + 1)\<rparr>)"

subsection \<open>Stopping\<close>

text \<open>
  The stop event on the control pipe of a worker with telemetry, else a signal.  Errors of the
  signal are only logged.
\<close>

definition signal_stop :: "world \<Rightarrow> proc_id \<Rightarrow> time \<Rightarrow> store \<Rightarrow> store" where
  "signal_stop w p now st =
     (if p_telemetry (st_procs st p) \<and> p_control (st_procs st p) then
        (let st = emit (WriteStop p now) st in
         if w_stdin w p then st else emit (StopSignal p) st)
      else emit (StopSignal p) st)"

definition forget :: "proc_id \<Rightarrow> cycle_id \<Rightarrow> store \<Rightarrow> store" where
  "forget p c st =
     upd_cycle c (\<lambda>cy. cy\<lparr>cy_members := set_delete p (cy_members cy)\<rparr>)
       (upd_serv (p_service (st_procs st p)) (\<lambda>s. s\<lparr>s_workers := set_delete p (s_workers s)\<rparr>)
         (st\<lparr>st_workers := set_delete p (st_workers st)\<rparr>))"

text \<open>The first branch of \<^verbatim>\<open>lifecycle\<close>, for a process that has exited.\<close>

definition lifecycle_exited :: "proc_id \<Rightarrow> cycle_id \<Rightarrow> time \<Rightarrow> store \<Rightarrow> store" where
  "lifecycle_exited p c now st =
     (let scope = p_scope (st_procs st p);
          st = cancel_phase scope ''pre_stop'' st;
          (st, worker_done) = phase scope ''post_stop'' now st;
          all_exited = list_all (\<lambda>q. p_exited (st_procs st q)) (cy_members (st_cycles st c));
          (st, app_done) =
            (if all_exited then
               (let app = Some (cy_scope (st_cycles st c)) in
                phase app ''post_stop'' now (cancel_phase app ''pre_stop'' st))
             else (st, True))
      in if worker_done \<and> app_done then forget p c st else st)"

text \<open>The second branch, for one that is stopping.\<close>

definition lifecycle_stopping :: "world \<Rightarrow> proc_id \<Rightarrow> cycle_id \<Rightarrow> time \<Rightarrow> store \<Rightarrow> store" where
  "lifecycle_stopping w p c now st =
     (let (st, worker_done) = phase (p_scope (st_procs st p)) ''pre_stop'' now st;
          (st, app_done) =
            (if cy_retiring (st_cycles st c)
             then phase (Some (cy_scope (st_cycles st c))) ''pre_stop'' now st else (st, True));
          child = st_procs st p
      in if \<not> p_stop_sent child
            \<and> (worker_done \<and> app_done
               \<or> app_stop_timeout (p_config child) \<le> time_sub now (p_stopping child))
         then (let st = upd_proc p (\<lambda>child. child\<lparr>p_stop_sent := True\<rparr>) st in
               if p_pending child then upd_proc p (\<lambda>child. child\<lparr>p_exited := True\<rparr>) st
               else signal_stop w p now st)
         else st)"

definition set_ready :: "proc_id \<Rightarrow> bool \<Rightarrow> store \<Rightarrow> store" where
  "set_ready p ready = upd_proc p (\<lambda>child. child\<lparr>p_ready := ready\<rparr>)"

text \<open>The rest, for one that is running.\<close>

definition lifecycle_running :: "proc_id \<Rightarrow> cycle_id \<Rightarrow> time \<Rightarrow> store \<Rightarrow> store" where
  "lifecycle_running p c now st =
     (let worker = p_scope (st_procs st p); app = Some (cy_scope (st_cycles st c));
          (st, post_worker) = phase worker ''post_start'' now st;
          (st, post_app) = phase app ''post_start'' now st
      in if \<not> p_base_ready (st_procs st p) \<or> \<not> post_worker \<or> \<not> post_app then set_ready p False st
         else
           (let (st, ready_worker) = phase worker ''readiness'' now st;
                (st, ready_app) = phase app ''readiness'' now st
            in if \<not> ready_worker \<or> \<not> ready_app then set_ready p False st
               else
                 (let (st, health_worker) = phase worker ''health'' now st;
                      (st, health_app) = phase app ''health'' now st;
                      ready = (health_worker \<and> health_app
                        \<and> dependencies_ready st (p_config (st_procs st p)) True)
                  in upd_proc p (\<lambda>child. child\<lparr>p_ready := ready,
                       p_was_ready := p_was_ready child \<or> ready\<rparr>) st)))"

definition lifecycle :: "world \<Rightarrow> proc_id \<Rightarrow> time \<Rightarrow> store \<Rightarrow> store" where
  "lifecycle w p now st = (case p_cycle (st_procs st p) of
     None \<Rightarrow> st
   | Some c \<Rightarrow>
       if p_exited (st_procs st p) then lifecycle_exited p c now st
       else if p_stopping (st_procs st p) \<noteq> 0 then lifecycle_stopping w p c now st
       else if p_pending (st_procs st p) then st
       else lifecycle_running p c now st)"

definition cycle_idle :: "store \<Rightarrow> cycle_id \<Rightarrow> bool" where
  "cycle_idle st c \<longleftrightarrow>
     \<not> list_ex (\<lambda>q. p_stopping (st_procs st q) = 0 \<and> \<not> p_exited (st_procs st q)) (cy_members (st_cycles st c))"

text \<open>A cycle without a running member retires, and its checks are cancelled.\<close>

definition retire_if_idle :: "cycle_id option \<Rightarrow> store \<Rightarrow> store" where
  "retire_if_idle cycle st = (case cycle of
     None \<Rightarrow> st
   | Some c \<Rightarrow>
       if cycle_idle st c
       then cancel_checks (Some (cy_scope (st_cycles st c)))
         (upd_cycle c (\<lambda>cy. cy\<lparr>cy_retiring := True\<rparr>) st)
       else st)"

text \<open>The body of \<^verbatim>\<open>stop\<close>, before its deferred \<^verbatim>\<open>observePressure\<close>.\<close>

definition stop_body :: "world \<Rightarrow> proc_id \<Rightarrow> time \<Rightarrow> store \<Rightarrow> store" where
  "stop_body w p now st =
     (if p_stopping (st_procs st p) \<noteq> 0 then st
      else
        (let st = upd_proc p (\<lambda>child. child\<lparr>p_stopping := now, p_ready := False\<rparr>) st;
             child = st_procs st p;
             st = cancel_checks (p_scope child) st;
             st = retire_if_idle (p_cycle child) st;
             st = (if p_failed child \<and> app_schedule (p_config child) = []
                   then backoff (p_service child) now
                     (upd_serv (p_service child) (\<lambda>s. s\<lparr>s_demand := True\<rparr>) st)
                   else st)
         in if p_scope child \<noteq> None then lifecycle w p now st else signal_stop w p now st))"

definition stop :: "world \<Rightarrow> proc_id \<Rightarrow> time \<Rightarrow> store \<Rightarrow> store" where
  "stop w p now st = observe_pressure (p_service (st_procs st p)) now (stop_body w p now st)"

definition set_failed :: "proc_id \<Rightarrow> store \<Rightarrow> store" where
  "set_failed p = upd_proc p (\<lambda>child. child\<lparr>p_failed := True\<rparr>)"

definition fail_stop :: "world \<Rightarrow> proc_id \<Rightarrow> time \<Rightarrow> store \<Rightarrow> store" where
  "fail_stop w p now st = stop w p now (set_failed p st)"

subsection \<open>The result of an action\<close>

definition stop_active :: "world \<Rightarrow> time \<Rightarrow> proc_id \<Rightarrow> store \<Rightarrow> store" where
  "stop_active w now p st =
     (if p_stopping (st_procs st p) = 0 \<and> \<not> p_exited (st_procs st p) then fail_stop w p now st else st)"

definition run_result :: "bool \<Rightarrow> time \<Rightarrow> run \<Rightarrow> run" where
  "run_result success now run = run\<lparr>ru_done := True, ru_success := success,
     ru_next := now + tr_interval (ru_binding run),
     ru_failures := (if success then 0 else ru_failures run + 1)\<rparr>"

definition action_result :: "world \<Rightarrow> run_id \<Rightarrow> bool \<Rightarrow> time \<Rightarrow> store \<Rightarrow> store" where
  "action_result w r success now st =
     (let st = upd_run r (\<lambda>run. run\<lparr>ru_running := False, ru_cancel := False\<rparr>)
                 (st\<lparr>st_action_tasks := st_action_tasks st - 1\<rparr>)
      in if ru_cancelled (st_runs st r) then st
         else
           (let st = upd_run r (run_result success now) st; run = st_runs st r; b = ru_binding run
            in if success \<or> \<not> awaited b \<or> tr_on_failure b \<noteq> ''restart''
                  \<or> ru_failures run < tr_failure_threshold b then st
               else (case sc_worker (st_scopes st (ru_scope run)) of
                   Some p \<Rightarrow> stop_active w now p st
                 | None \<Rightarrow>
                     (case sc_cycle (st_scopes st (ru_scope run)) of
                        None \<Rightarrow> st
                      | Some c \<Rightarrow> fold (stop_active w now)
                          (w_order w LoopMembers (cy_members (st_cycles st c))) st))))"

end
