(* ===== verification/Manager.thy ===== *)
theory Manager
  imports Lifecycle Protocol
begin

text \<open>
  The operations of the supervisor in \<^verbatim>\<open>src/main.go\<close>: starting workers (\<^verbatim>\<open>spawn\<close>, \<^verbatim>\<open>startProcess\<close>),
  the messages it handles (\<^verbatim>\<open>handle\<close>), its periodic \<^verbatim>\<open>tick\<close> with schedules, dependencies, growth
  and shrinking, and \<^verbatim>\<open>restart\<close> and \<^verbatim>\<open>shutdown\<close>.
\<close>

subsection \<open>Starting workers\<close>

definition service_address :: "store \<Rightarrow> service \<Rightarrow> go_string" where
  "service_address st service = (case s_listener service of
     Some l \<Rightarrow> l_address (st_lists st l)
   | None \<Rightarrow> address (app_listen (s_config service)))"

definition alloc_scope :: "scope \<Rightarrow> store \<Rightarrow> store" where
  "alloc_scope scope st =
     st\<lparr>st_scopes := (st_scopes st)(st_next_scope st := scope), st_next_scope := Suc (st_next_scope st)\<rparr>"

definition alloc_cycle :: "cycle \<Rightarrow> store \<Rightarrow> store" where
  "alloc_cycle cycle st =
     st\<lparr>st_cycles := (st_cycles st)(st_next_cycle st := cycle), st_next_cycle := Suc (st_next_cycle st)\<rparr>"

definition alloc_proc :: "process \<Rightarrow> store \<Rightarrow> store" where
  "alloc_proc child st =
     st\<lparr>st_procs := (st_procs st)(st_next_proc st := child), st_next_proc := Suc (st_next_proc st)\<rparr>"

definition new_process :: "service_id \<Rightarrow> app \<Rightarrow> cycle_id \<Rightarrow> scope_id \<Rightarrow> time \<Rightarrow> process" where
  "new_process s config c scope now =
     \<lparr>p_was_ready = False, p_pending = True, p_exited = False, p_base_ready = False,
      p_stop_sent = False, p_exit_code = -1, p_scope = Some scope, p_cycle = Some c, p_pid = 0,
      p_control = False, p_service = s, p_ready = False, p_telemetry = False, p_active = [],
      p_started = now, p_executed = 0, p_idle_since = 0, p_stopping = 0, p_killed = False,
      p_failed = False, p_probing = False, p_next_probe = 0, p_config = config\<rparr>"

text \<open>
  The cycle a new worker joins: a new one when the service has none, when the current one is
  retiring, and for every scheduled execution.
\<close>

definition fresh_cycle :: "service_id \<Rightarrow> store \<Rightarrow> store \<times> cycle_id" where
  "fresh_cycle s st =
     (let service = st_servs st s; c = st_next_cycle st; scope = st_next_scope st;
          st = alloc_scope \<lparr>sc_config = s_config service, sc_address = service_address st service,
                 sc_worker = None, sc_cycle = Some c, sc_runs = []\<rparr> st;
          st = alloc_cycle \<lparr>cy_members = [], cy_scope = scope, cy_retiring = False\<rparr> st
      in (upd_serv s (\<lambda>service. service\<lparr>s_cycle := Some c\<rparr>) st, c))"

definition join_cycle :: "service_id \<Rightarrow> store \<Rightarrow> store \<times> cycle_id" where
  "join_cycle s st = (case s_cycle (st_servs st s) of
     None \<Rightarrow> fresh_cycle s st
   | Some c \<Rightarrow>
       if cy_retiring (st_cycles st c) \<or> app_schedule (s_config (st_servs st s)) \<noteq> []
       then fresh_cycle s st else (st, c))"

text \<open>The worker \<^verbatim>\<open>spawn\<close> reserves, a member of its cycle, of the supervisor and of its service.\<close>

definition reserve :: "service_id \<Rightarrow> cycle_id \<Rightarrow> time \<Rightarrow> store \<Rightarrow> store \<times> proc_id" where
  "reserve s c now st =
     (let service = st_servs st s; p = st_next_proc st; scope = st_next_scope st;
          st = alloc_scope \<lparr>sc_config = s_config service, sc_address = service_address st service,
                 sc_worker = Some p, sc_cycle = None, sc_runs = []\<rparr> st;
          st = alloc_proc (new_process s (s_config service) c scope now) st;
          st = upd_cycle c (\<lambda>cy. cy\<lparr>cy_members := set_insert p (cy_members cy)\<rparr>) st;
          st = st\<lparr>st_workers := set_insert p (st_workers st)\<rparr>;
          st = upd_serv s (\<lambda>service. service\<lparr>s_workers := set_insert p (s_workers service)\<rparr>) st
      in (st, p))"

text \<open>
  \<^verbatim>\<open>startProcess\<close>: an error leaves the store alone.  A worker gets a control pipe unless its stdin
  is the listener.
\<close>

definition stdin_handoff :: "service \<Rightarrow> bool" where
  "stdin_handoff service \<longleftrightarrow> s_listener service \<noteq> None
     \<and> (app_socket_handoff (s_config service) = ''stdin'' \<or> app_socket_handoff (s_config service) = ''0'')"

definition launched :: "service \<Rightarrow> int \<Rightarrow> time \<Rightarrow> time \<Rightarrow> process \<Rightarrow> process" where
  "launched service pid executed now child =
     (let child = child\<lparr>p_pid := pid, p_control := \<not> stdin_handoff service, p_pending := False,
                        p_executed := executed\<rparr>
      in if app_ready (s_config service) = ''started''
         then child\<lparr>p_base_ready := True, p_idle_since := now\<rparr> else child)"

definition scope_launch_values :: "store \<Rightarrow> proc_id \<Rightarrow> time \<Rightarrow> runtime" where
  "scope_launch_values st p now = (case p_scope (st_procs st p) of
     None \<Rightarrow> zero_runtime | Some s \<Rightarrow> scope_values st s ''launch'' now)"

definition start_process :: "world \<Rightarrow> proc_id \<Rightarrow> time \<Rightarrow> store \<Rightarrow> store \<times> bool" where
  "start_process w p now st = (case w_launch w p of
     None \<Rightarrow> (st, False)
   | Some (pid, executed) \<Rightarrow>
       (let s = p_service (st_procs st p); values = scope_launch_values st p now;
            st = upd_proc p (launched (st_servs st s) pid executed now) st;
            st = st\<lparr>st_workers := set_insert p (st_workers st)\<rparr>;
            st = upd_serv s (\<lambda>service. service\<lparr>s_workers := set_insert p (s_workers service),
                   s_demand := False\<rparr>) st
        in (emit (Launch p values) st, True)))"

text \<open>What \<^verbatim>\<open>spawn\<close> undoes when the process does not start.\<close>

definition unreserve :: "proc_id \<Rightarrow> service_id \<Rightarrow> cycle_id \<Rightarrow> store \<Rightarrow> store" where
  "unreserve p s c st =
     (let st = cancel_checks (p_scope (st_procs st p)) st;
          st = st\<lparr>st_workers := set_delete p (st_workers st)\<rparr>;
          st = upd_serv s (\<lambda>service. service\<lparr>s_workers := set_delete p (s_workers service)\<rparr>) st;
          st = upd_cycle c (\<lambda>cy. cy\<lparr>cy_members := set_delete p (cy_members cy)\<rparr>) st
      in if cy_members (st_cycles st c) = []
         then cancel_checks (Some (cy_scope (st_cycles st c)))
           (upd_cycle c (\<lambda>cy. cy\<lparr>cy_retiring := True\<rparr>) st)
         else st)"

definition spawn :: "world \<Rightarrow> service_id \<Rightarrow> time \<Rightarrow> store \<Rightarrow> store \<times> bool" where
  "spawn w s now st =
     (let (st, c) = join_cycle s st;
          (st, p) = reserve s c now st;
          (st, app_ok) = phase (Some (cy_scope (st_cycles st c))) ''pre_start'' now st;
          (st, worker_ok) = phase (p_scope (st_procs st p)) ''pre_start'' now st
      in if app_ok \<and> worker_ok then
           (let (st, started) = start_process w p now st
            in if started then (lifecycle w p now st, True) else (unreserve p s c st, False))
         else (st, True))"

subsection \<open>Messages\<close>

datatype message =
    ActionDone run_id bool
  | PollError
  | PollEvents "(listener_id \<times> bool) list"
  | Exited proc_id "int option" bool
  | Probed proc_id bool
  | HandshakeSeen proc_id bool
  | StreamFailed proc_id
  | WorkerEvent proc_id event

definition set_fatal :: "fatal_error \<Rightarrow> store \<Rightarrow> store" where
  "set_fatal e st = st\<lparr>st_fatal := Some e\<rparr>"

text \<open>One event of the poller; the flag says whether it reports an error or a hang-up.\<close>

definition handle_socket :: "time \<Rightarrow> listener_id \<times> bool \<Rightarrow> store \<Rightarrow> store" where
  "handle_socket now = (\<lambda>(l, bad) st. case map_of (st_listeners st) l of
     None \<Rightarrow> st
   | Some s \<Rightarrow>
       if bad then set_fatal (ListenerEvent (s_name (st_servs st s))) st
       else
         (let st = upd_serv s (\<lambda>service. service\<lparr>s_demand := True\<rparr>) st in
          case s_listener (st_servs st s) of
            None \<Rightarrow> st
          | Some l' \<Rightarrow> upd_list l' (\<lambda>li. li\<lparr>l_rearm_at := now + 25 * millisecond\<rparr>) st))"

definition handle_exited :: "world \<Rightarrow> proc_id \<Rightarrow> int option \<Rightarrow> bool \<Rightarrow> time \<Rightarrow> store \<Rightarrow> store" where
  "handle_exited w p code cleanup_failed now st =
     (let service = p_service (st_procs st p);
          st = (if cleanup_failed then set_fatal (CleanupFailed (p_pid (st_procs st p))) st else st);
          st = upd_proc p (\<lambda>child. child\<lparr>p_exited := True, p_ready := False\<rparr>) st;
          st = cancel_checks (p_scope (st_procs st p)) st;
          st = (case code of None \<Rightarrow> st
                | Some c \<Rightarrow> upd_proc p (\<lambda>child. child\<lparr>p_exit_code := c\<rparr>) st);
          child = st_procs st p;
          st = (if p_stopping child = 0 \<and> app_schedule (p_config child) = []
                then backoff service now (upd_serv service (\<lambda>s. s\<lparr>s_demand := True\<rparr>) st) else st)
      in case p_cycle child of
           Some c \<Rightarrow> lifecycle w p now (retire_if_idle (Some c) st)
         | None \<Rightarrow> upd_serv service (\<lambda>s. s\<lparr>s_workers := set_delete p (s_workers s)\<rparr>)
                     (st\<lparr>st_workers := set_delete p (st_workers st)\<rparr>))"

definition handle_probe :: "proc_id \<Rightarrow> bool \<Rightarrow> time \<Rightarrow> store \<Rightarrow> store" where
  "handle_probe p ready now =
     upd_proc p (\<lambda>child.
       (let child = child\<lparr>p_probing := False, p_next_probe := now + 100 * millisecond\<rparr>
        in if ready then child\<lparr>p_base_ready := True, p_idle_since := now\<rparr> else child))"

definition handle_handshake :: "world \<Rightarrow> proc_id \<Rightarrow> bool \<Rightarrow> time \<Rightarrow> store \<Rightarrow> store" where
  "handle_handshake w p ready now st =
     (let by_event = (app_ready (p_config (st_procs st p)) = ''event'');
          st = upd_proc p (\<lambda>child. child\<lparr>p_telemetry := ready\<rparr>) st
      in if ready then
           upd_proc p (\<lambda>child. child\<lparr>p_base_ready := p_base_ready child \<or> by_event, p_idle_since := now\<rparr>) st
         else if by_event then fail_stop w p now st
         else st)"

definition handle_event :: "world \<Rightarrow> proc_id \<Rightarrow> event \<Rightarrow> time \<Rightarrow> store \<Rightarrow> store" where
  "handle_event w p e now st =
     (let child = st_procs st p; known = (lookup_or 0 (p_active child) (ev_id e) \<noteq> 0) in
      if ev_type e = ''ready'' then fail_stop w p now st
      else if ev_type e = ''start'' then
        (if \<not> p_telemetry child \<or> ev_id e = [] \<or> known then fail_stop w p now st
         else upd_proc p (\<lambda>child. child\<lparr>p_active := AList.update (ev_id e) now (p_active child),
                p_idle_since := 0\<rparr>) st)
      else if ev_type e = ''end'' then
        (if \<not> known then fail_stop w p now st
         else upd_proc p (\<lambda>child.
           (let child = child\<lparr>p_active := AList.delete (ev_id e) (p_active child)\<rparr>
            in if p_active child = [] then child\<lparr>p_idle_since := now\<rparr> else child)) st)
      else st)"

text \<open>What is done for a message of a worker the supervisor still has.\<close>

fun handle_worker :: "world \<Rightarrow> message \<Rightarrow> time \<Rightarrow> store \<Rightarrow> store" where
  "handle_worker w (Exited p code cleanup_failed) now st = handle_exited w p code cleanup_failed now st"
| "handle_worker w (Probed p ready) now st = handle_probe p ready now st"
| "handle_worker w (HandshakeSeen p ready) now st = handle_handshake w p ready now st"
| "handle_worker w (StreamFailed p) now st =
     (if p_stopping (st_procs st p) = 0 then fail_stop w p now st else st)"
| "handle_worker w (WorkerEvent p e) now st = handle_event w p e now st"
| "handle_worker w _ now st = st"

fun message_worker :: "message \<Rightarrow> proc_id option" where
  "message_worker (Exited p _ _) = Some p"
| "message_worker (Probed p _) = Some p"
| "message_worker (HandshakeSeen p _) = Some p"
| "message_worker (StreamFailed p) = Some p"
| "message_worker (WorkerEvent p _) = Some p"
| "message_worker _ = None"

definition handle :: "world \<Rightarrow> message \<Rightarrow> time \<Rightarrow> store \<Rightarrow> store" where
  "handle w msg now st = (case msg of
     ActionDone r success \<Rightarrow> action_result w r success now st
   | PollError \<Rightarrow> set_fatal PollerFailed st
   | PollEvents sockets \<Rightarrow> fold (handle_socket now) sockets st
   | _ \<Rightarrow>
       (case message_worker msg of
          None \<Rightarrow> st
        | Some p \<Rightarrow>
            if p \<notin> set (st_workers st) then st
            else observe_pressure (p_service (st_procs st p)) now (handle_worker w msg now st)))"

subsection \<open>Schedules\<close>

definition executions :: "store \<Rightarrow> go_string \<Rightarrow> int" where
  "executions st name =
     int (length (filter (\<lambda>p. s_name (st_servs st (p_service (st_procs st p))) = name) (st_workers st)))"

text \<open>\<^verbatim>\<open>%\<close> of Go truncates towards zero; here both operands are not negative.\<close>

definition next_cadence :: "schedule \<Rightarrow> time \<Rightarrow> time \<Rightarrow> time" where
  "next_cadence plan next_run now =
     now + (interval plan - time_sub now next_run mod interval plan)"

definition execution_limit :: "app \<Rightarrow> int" where
  "execution_limit app = (if app_overlap app then app_max_workers app else 1)"

definition schedule_due :: "world \<Rightarrow> service_id \<Rightarrow> time \<Rightarrow> store \<Rightarrow> store" where
  "schedule_due w s now st =
     (let service = st_servs st s; plan = s_schedule service in
      if s_next_run service = 0 \<or> now < s_next_run service then st
      else
        (let by_interval = interval plan > 0;
             next_run = (if by_interval then next_cadence plan (s_next_run service) now
                         else schedule_next plan now);
             st = upd_serv s (\<lambda>service. service\<lparr>s_next_run := next_run\<rparr>) st
         in if \<not> by_interval \<and> \<not> cron_matches plan (w_local w now) then st
            else if s_scheduled service
                    \<or> executions st (s_name service) \<ge> execution_limit (s_config service) then st
            else upd_serv s (\<lambda>service. service\<lparr>s_scheduled := True\<rparr>) st))"

subsection \<open>The periodic tick\<close>

definition rearm_listener :: "world \<Rightarrow> time \<Rightarrow> service_id \<Rightarrow> store \<Rightarrow> store" where
  "rearm_listener w now s st = (case s_listener (st_servs st s) of
     None \<Rightarrow> st
   | Some l \<Rightarrow>
       if l_rearm_at (st_lists st l) \<noteq> 0 \<and> \<not> now < l_rearm_at (st_lists st l) then
         (let st = emit (ArmListener l) st;
              st = (if w_arm w l then st else set_fatal (RearmFailed (s_name (st_servs st s))) st)
          in upd_list l (\<lambda>li. li\<lparr>l_rearm_at := 0\<rparr>) st)
       else st)"

definition kill_overdue :: "time \<Rightarrow> proc_id \<Rightarrow> store \<Rightarrow> store" where
  "kill_overdue now p st =
     (let child = st_procs st p in
      if \<not> p_pending child \<and> \<not> p_killed child
         \<and> app_stop_timeout (p_config child) \<le> time_sub now (p_stopping child)
      then emit (KillJob p now) (upd_proc p (\<lambda>child. child\<lparr>p_killed := True\<rparr>) st)
      else st)"

definition start_probe :: "time \<Rightarrow> proc_id \<Rightarrow> store \<Rightarrow> store" where
  "start_probe now p st =
     (let child = st_procs st p; ready = app_ready (p_config child) in
      if \<not> p_pending child \<and> \<not> p_base_ready child \<and> ready \<noteq> ''event'' \<and> ready \<noteq> ''started''
         \<and> \<not> p_probing child \<and> \<not> now < p_next_probe child \<and> p_stopping child = 0
      then (let (net, addr, found) = cut ready ''://'' in
            emit (ProbeSocket p net addr) (upd_proc p (\<lambda>child. child\<lparr>p_probing := True\<rparr>) st))
      else st)"

definition time_out_requests :: "world \<Rightarrow> time \<Rightarrow> proc_id \<Rightarrow> store \<Rightarrow> store" where
  "time_out_requests w now p st =
     (let limit = app_request_timeout (p_config (st_procs st p)) in
      if limit > 0 then
        fold (\<lambda>(_, started) st. if limit \<le> time_sub now started then fail_stop w p now st else st)
          (p_active (st_procs st p)) st
      else st)"

definition settle :: "time \<Rightarrow> proc_id \<Rightarrow> store \<Rightarrow> store" where
  "settle now p st =
     (let child = st_procs st p in
      if p_ready child \<and> p_stopping child = 0 \<and> 10 * second \<le> time_sub now (p_started child)
      then upd_serv (p_service child) (\<lambda>s. s\<lparr>s_failures := 0\<rparr>) st else st)"

text \<open>The body of the first loop over the workers.\<close>

definition tick_worker :: "world \<Rightarrow> time \<Rightarrow> proc_id \<Rightarrow> store \<Rightarrow> store" where
  "tick_worker w now p st =
     (let st = lifecycle w p now st; child = st_procs st p; app = p_config child in
      if p_exited child then st
      else if p_stopping child \<noteq> 0 then kill_overdue now p st
      else if app_max_exec_time app > 0 \<and> p_executed child \<noteq> 0
              \<and> app_max_exec_time app \<le> time_sub now (p_executed child) then fail_stop w p now st
      else
        (let st = (if \<not> p_was_ready child \<and> \<not> p_ready child
                      \<and> app_start_timeout app \<le> time_sub now (p_started child)
                   then fail_stop w p now st else st)
         in settle now p (time_out_requests w now p (start_probe now p st))))"

text \<open>The loop of a stopping supervisor: a worker is stopped once no worker depends on its service.\<close>

definition still_required :: "store \<Rightarrow> proc_id \<Rightarrow> bool" where
  "still_required st p \<longleftrightarrow>
     list_ex (\<lambda>q. map_of (dependencies (p_config (st_procs st q)))
         (s_name (st_servs st (p_service (st_procs st p)))) \<noteq> None) (st_workers st)"

definition stop_unrequired :: "world \<Rightarrow> time \<Rightarrow> proc_id \<Rightarrow> store \<Rightarrow> store" where
  "stop_unrequired w now p st = (if still_required st p then st else stop w p now st)"

text \<open>
  \<^verbatim>\<open>activate\<close>: the names \<open>wanted\<close> so far and those \<open>required\<close> by a wanted one.  Every call below
  the first marks another service, which bounds the recursion.
\<close>

fun activate :: "nat \<Rightarrow> store \<Rightarrow> go_string \<Rightarrow> go_string list \<times> go_string list
      \<Rightarrow> go_string list \<times> go_string list"
  and activate_all :: "nat \<Rightarrow> store \<Rightarrow> go_string list \<Rightarrow> go_string list \<times> go_string list
      \<Rightarrow> go_string list \<times> go_string list"
where
  "activate 0 st name marks = marks"
| "activate (Suc fuel) st name marks =
     (if name \<in> set (fst marks) then marks
      else case map_of (st_services st) name of
        None \<Rightarrow> marks
      | Some s \<Rightarrow> activate_all fuel st (map fst (dependencies (s_config (st_servs st s))))
                    (name # fst marks, snd marks))"
| "activate_all fuel st [] marks = marks"
| "activate_all fuel st (dependency # rest) marks =
     activate_all fuel st rest (activate fuel st dependency (fst marks, set_insert dependency (snd marks)))"

definition demanded :: "service \<Rightarrow> bool" where
  "demanded service \<longleftrightarrow>
     (if app_schedule (s_config service) \<noteq> []
      then s_scheduled service \<or> s_workers service \<noteq> []
      else app_startup (s_config service) \<or> app_min_workers (s_config service) > 0 \<or> s_demand service
        \<or> (s_listener service \<noteq> None \<and> s_workers service \<noteq> []))"

text \<open>The loop that checks the schedules and activates what is demanded.\<close>

definition activate_service :: "world \<Rightarrow> time \<Rightarrow> go_string \<times> service_id
    \<Rightarrow> store \<times> go_string list \<times> go_string list \<Rightarrow> store \<times> go_string list \<times> go_string list" where
  "activate_service w now = (\<lambda>(name, s) (st, marks).
     (let st = (if app_schedule (s_config (st_servs st s)) \<noteq> [] then schedule_due w s now st else st)
      in (st, if demanded (st_servs st s) then activate (Suc (length (st_services st))) st name marks
              else marks)))"

definition start_pending :: "world \<Rightarrow> time \<Rightarrow> proc_id \<Rightarrow> store \<Rightarrow> store" where
  "start_pending w now p st =
     (let child = st_procs st p in
      if \<not> p_pending child \<or> p_stopping child \<noteq> 0 \<or> p_exited child then st
      else
        (let (st, app_ok) = phase (map_option (\<lambda>c. cy_scope (st_cycles st c)) (p_cycle child)) ''pre_start'' now st;
             (st, worker_ok) = phase (p_scope child) ''pre_start'' now st
         in if app_ok \<and> worker_ok then
              (let (st, started) = start_process w p now st
               in if started then lifecycle w p now st else fail_stop w p now st)
            else st))"

definition running_workers :: "store \<Rightarrow> service_id \<Rightarrow> proc_id list" where
  "running_workers st s =
     filter (\<lambda>p. p_stopping (st_procs st p) = 0 \<and> \<not> p_exited (st_procs st p)) (s_workers (st_servs st s))"

definition available :: "store \<Rightarrow> service_id \<Rightarrow> int" where
  "available st s = int (length (running_workers st s))"

definition starting :: "store \<Rightarrow> service_id \<Rightarrow> int" where
  "starting st s = int (length (filter (\<lambda>p. \<not> p_ready (st_procs st p)) (running_workers st s)))"

definition should_grow :: "service \<Rightarrow> int \<Rightarrow> int \<Rightarrow> bool \<Rightarrow> bool \<Rightarrow> time \<Rightarrow> bool" where
  "should_grow service avail start needed pressure now \<longleftrightarrow>
     (let app = s_config service;
          grow = (avail < app_min_workers app \<or> (avail = 0 \<and> s_demand service)
            \<or> (avail = 0 \<and> (app_startup app \<or> needed)) \<or> pressure)
      in grow \<and> (start = 0 \<or> avail < app_min_workers app) \<and> avail < app_max_workers app
         \<and> \<not> now < s_retry_at service)"

definition is_idle :: "service \<Rightarrow> process \<Rightarrow> bool \<Rightarrow> int \<Rightarrow> time \<Rightarrow> bool" where
  "is_idle service child wanted avail now \<longleftrightarrow>
     (let app = s_config service;
          idle = (if network (app_listen app) = [] \<and> \<not> p_telemetry child
            then \<not> wanted \<and> app_idle_timeout app \<le> time_sub now (s_unneeded_since service)
            else p_telemetry child \<and> p_active child = []
              \<and> app_idle_timeout app \<le> time_sub now (p_idle_since child))
      in idle \<and> \<not> (app_startup app \<and> avail \<le> 1))"

text \<open>The loop that stops idle workers above the minimum.\<close>

fun shrink :: "world \<Rightarrow> service_id \<Rightarrow> int \<Rightarrow> bool \<Rightarrow> time \<Rightarrow> proc_id list \<Rightarrow> int \<Rightarrow> store \<Rightarrow> store" where
  "shrink w s minimum wanted now [] avail st = st"
| "shrink w s minimum wanted now (p # ps) avail st =
     (if avail \<le> minimum then st
      else if p_stopping (st_procs st p) = 0 \<and> p_ready (st_procs st p)
              \<and> is_idle (st_servs st s) (st_procs st p) wanted avail now
      then shrink w s minimum wanted now ps (avail - 1) (stop w p now st)
      else shrink w s minimum wanted now ps avail st)"

definition tick_scheduled :: "world \<Rightarrow> service_id \<Rightarrow> time \<Rightarrow> store \<Rightarrow> store" where
  "tick_scheduled w s now st =
     (if s_scheduled (st_servs st s)
      then fst (spawn w s now (upd_serv s (\<lambda>service. service\<lparr>s_scheduled := False\<rparr>) st))
      else st)"

definition note_wanted :: "bool \<Rightarrow> time \<Rightarrow> service \<Rightarrow> service" where
  "note_wanted wanted now service =
     (if wanted then service\<lparr>s_unneeded_since := 0\<rparr>
      else if s_unneeded_since service = 0 then service\<lparr>s_unneeded_since := now\<rparr>
      else service)"

definition tick_pool :: "world \<Rightarrow> service_id \<Rightarrow> bool \<Rightarrow> bool \<Rightarrow> time \<Rightarrow> store \<Rightarrow> store" where
  "tick_pool w s wanted needed now st =
     (let app = s_config (st_servs st s);
          st = observe_pressure s now st;
          (window, pressed) = evaluate_window now (app_scale_window app) (app_scale_at app)
            (s_pressure (st_servs st s));
          st = upd_serv s (\<lambda>service. service\<lparr>s_pressure := window\<rparr>) st;
          avail = available st s;
          grow = should_grow (st_servs st s) avail (starting st s) needed
            (st_resource_block st = [] \<and> pressed) now;
          st = (if grow then
                  (let (st, started) = spawn w s now st;
                       st = (if started then st else backoff s now st)
                   in observe_pressure s now st)
                else st);
          st = (if avail > 0 then upd_serv s (\<lambda>service. service\<lparr>s_demand := False\<rparr>) st else st);
          st = upd_serv s (note_wanted wanted now) st;
          minimum = (if needed then max (app_min_workers app) 1 else app_min_workers app)
      in shrink w s minimum wanted now (w_order w (LoopIdle s) (s_workers (st_servs st s))) avail st)"

text \<open>The body of the loop over the services.\<close>

definition tick_service :: "world \<Rightarrow> time \<Rightarrow> go_string list \<times> go_string list \<Rightarrow> service_id \<Rightarrow> store \<Rightarrow> store" where
  "tick_service w now marks s st =
     (let app = s_config (st_servs st s); name = s_name (st_servs st s) in
      if \<not> dependencies_ready st app False then
        fold (\<lambda>p. stop w p now) (w_order w (LoopDependency s) (s_workers (st_servs st s)))
          (if s_workers (st_servs st s) \<noteq> [] \<and> app_schedule app = []
           then upd_serv s (\<lambda>service. service\<lparr>s_demand := True\<rparr>) st else st)
      else
        (let st = fold (start_pending w now) (w_order w (LoopPending s) (s_workers (st_servs st s))) st
         in if app_schedule app \<noteq> [] then tick_scheduled w s now st
            else tick_pool w s (name \<in> set (fst marks)) (name \<in> set (snd marks)) now st))"

definition tick_services :: "world \<Rightarrow> time \<Rightarrow> store \<Rightarrow> store" where
  "tick_services w now st =
     (let st = st\<lparr>st_resource_block := blocked (st_limits st) (st_resources st) now\<rparr>;
          (st, marks) = fold (activate_service w now) (st_services st) (st, [], [])
      in fold (tick_service w now marks) (w_order w LoopServices (map snd (st_services st))) st)"

definition tick :: "world \<Rightarrow> time \<Rightarrow> bool \<Rightarrow> store \<Rightarrow> store" where
  "tick w now stopping st =
     (let st = (if stopping then st else fold (rearm_listener w now) (map snd (st_listeners st)) st);
          st = fold (tick_worker w now) (w_order w LoopWorkers (st_workers st)) st
      in if stopping then fold (stop_unrequired w now) (w_order w LoopStopping (st_workers st)) st
         else tick_services w now st)"

subsection \<open>Restart and shutdown\<close>

definition restart_one :: "world \<Rightarrow> time \<Rightarrow> proc_id \<Rightarrow> store \<times> bool \<Rightarrow> store \<times> bool" where
  "restart_one w now p = (\<lambda>(st, active).
     if p_stopping (st_procs st p) = 0 then (stop w p now st, True) else (st, active))"

definition restart :: "world \<Rightarrow> service_id \<Rightarrow> time \<Rightarrow> store \<Rightarrow> store" where
  "restart w s now st =
     (let (st, active) = fold (restart_one w now) (w_order w LoopRestart (s_workers (st_servs st s))) (st, False)
      in if active then upd_serv s (\<lambda>service. service\<lparr>s_failures := 0, s_retry_at := 0\<rparr>) st else st)"

definition close_listener :: "listener_id \<Rightarrow> store \<Rightarrow> store" where
  "close_listener l st =
     emit (CloseListener l) (st\<lparr>st_listeners := AList.delete l (st_listeners st)\<rparr>)"

definition close_service :: "service_id \<Rightarrow> store \<Rightarrow> store" where
  "close_service s st = (case s_listener (st_servs st s) of
     None \<Rightarrow> st
   | Some l \<Rightarrow> upd_serv s (\<lambda>service. service\<lparr>s_listener := None\<rparr>) (close_listener l st))"

definition shutdown :: "world \<Rightarrow> time \<Rightarrow> store \<Rightarrow> store" where
  "shutdown w now st = tick w now True (fold close_service (map snd (st_services st)) st)"

text \<open>When \<^verbatim>\<open>run\<close> returns: it is stopping, and no worker and no action is left.\<close>

definition run_finished :: "store \<Rightarrow> bool \<Rightarrow> bool" where
  "run_finished st stopping \<longleftrightarrow> stopping \<and> st_workers st = [] \<and> st_action_tasks st = 0"

end
