(* ===== verification/Reload.thy ===== *)
theory Reload
  imports Manager
begin

text \<open>
  \<^verbatim>\<open>manager.apply\<close> of \<^verbatim>\<open>src/main.go\<close>: a validated snapshot replaces the running services.  New
  listeners are opened and socket permissions set first; an error then undoes both and leaves the
  services alone.  Only after that are the workers of changed services stopped and the services
  replaced.
\<close>

record snapshot =
  sn_apps :: apps
  sn_roots :: "go_string list"
  sn_cgroup :: go_string
  sn_resources :: resource_limits

datatype apply_error =
    CgroupChanged
  | BadPlan go_string schedule_error
  | OpenFailed go_string
  | ListenersExhausted
  | RegisterFailed go_string
  | PermissionsFailed go_string

definition current_service :: "store \<Rightarrow> go_string \<Rightarrow> service option" where
  "current_service st name = map_option (st_servs st) (map_of (st_services st) name)"

subsection \<open>Staging\<close>

fun plan_schedules :: "apps \<Rightarrow> apply_error + (go_string \<times> schedule) list" where
  "plan_schedules [] = Inr []"
| "plan_schedules ((name, app) # apps) = (case parse_schedule (app_schedule app) of
     Inl e \<Rightarrow> Inl (BadPlan name e)
   | Inr plan \<Rightarrow> map_sum id (\<lambda>plans. (name, plan) # plans) (plan_schedules apps))"

definition needs_listener :: "store \<Rightarrow> go_string \<Rightarrow> app \<Rightarrow> bool" where
  "needs_listener st name app \<longleftrightarrow> network (app_listen app) \<noteq> []
     \<and> (case current_service st name of None \<Rightarrow> True
        | Some previous \<Rightarrow> app_listen (s_config previous) \<noteq> app_listen app)"

text \<open>The result of a stage: the store, the error that ended it and what it has done so far.\<close>

fun open_listeners :: "world \<Rightarrow> apps \<Rightarrow> store \<Rightarrow> (go_string \<times> listener_id) list
    \<Rightarrow> store \<times> apply_error option \<times> (go_string \<times> listener_id) list" where
  "open_listeners w [] st opened = (st, None, opened)"
| "open_listeners w ((name, app) # apps) st opened =
     (if \<not> needs_listener st name app then open_listeners w apps st opened
      else case w_open w name of
        None \<Rightarrow> (st, Some (OpenFailed name), opened)
      | Some bound \<Rightarrow>
          if st_next_listener st = 2 ^ 31 - 1 then (st, Some ListenersExhausted, opened)
          else
            (let l = st_next_listener st + 1;
                 st = emit (OpenListener l (app_listen app)) (st\<lparr>st_next_listener := l\<rparr>);
                 st = upd_list l (\<lambda>_. \<lparr>l_address = bound, l_rearm_at = 0\<rparr>) st
             in if w_arm w l then open_listeners w apps st (opened @ [(name, l)])
                else (emit (CloseListener l) st, Some (RegisterFailed name), opened)))"

definition same_socket :: "app \<Rightarrow> app \<Rightarrow> bool" where
  "same_socket previous app \<longleftrightarrow> app_listen previous = app_listen app
     \<and> id_user (app_identity previous) = id_user (app_identity app)
     \<and> id_group (app_identity previous) = id_group (app_identity app)
     \<and> app_socket_mode previous = app_socket_mode app"

definition needs_permissions :: "store \<Rightarrow> go_string \<Rightarrow> app \<Rightarrow> bool" where
  "needs_permissions st name app \<longleftrightarrow> network (app_listen app) = ''unix''
     \<and> (case current_service st name of None \<Rightarrow> True
        | Some previous \<Rightarrow> \<not> same_socket (s_config previous) app)"

definition socket_permissions :: "app \<Rightarrow> mode" where
  "socket_permissions app = (case app_socket_mode app of None \<Rightarrow> 432 | Some m \<Rightarrow> m)"

fun stage_permissions :: "world \<Rightarrow> apps \<Rightarrow> store \<Rightarrow> go_string list
    \<Rightarrow> store \<times> apply_error option \<times> go_string list" where
  "stage_permissions w [] st staged = (st, None, staged)"
| "stage_permissions w ((name, app) # apps) st staged =
     (if \<not> needs_permissions st name app then stage_permissions w apps st staged
      else if \<not> w_chmod w name then (st, Some (PermissionsFailed name), staged)
      else stage_permissions w apps
        (emit (SetPermissions (address (app_listen app)) (socket_permissions app)) st)
        (staged @ [address (app_listen app)]))"

definition finish_permissions :: "world \<Rightarrow> bool \<Rightarrow> go_string \<Rightarrow> store \<Rightarrow> store" where
  "finish_permissions w committed path st =
     (let st = emit (FinishPermissions path committed) st
      in if w_finish w path then st else set_fatal PermissionsUnfinished st)"

text \<open>The deferred function: permissions are finished in reverse, and without a commit the staged
  listeners are closed.\<close>

definition finish_apply :: "world \<Rightarrow> bool \<Rightarrow> go_string list \<Rightarrow> (go_string \<times> listener_id) list \<Rightarrow> store \<Rightarrow> store" where
  "finish_apply w committed staged opened st =
     (let st = fold (finish_permissions w committed) (rev staged) st
      in if committed then st else fold (\<lambda>(_, l). emit (CloseListener l)) opened st)"

subsection \<open>Replacing the services\<close>

definition retire_service :: "world \<Rightarrow> apps \<Rightarrow> go_string \<times> service_id \<Rightarrow> store \<Rightarrow> store" where
  "retire_service w apps = (\<lambda>(name, s) st.
     (let previous = st_servs st s; next_app = map_of apps name in
      if next_app = Some (s_config previous) then st
      else
        (let st = fold (\<lambda>p. stop w p (w_clock w p)) (w_order w (LoopService s) (s_workers previous)) st
         in if (case next_app of None \<Rightarrow> True | Some app \<Rightarrow> app_listen (s_config previous) \<noteq> app_listen app)
            then
              (let st = (case s_listener (st_servs st s) of None \<Rightarrow> st | Some l \<Rightarrow> close_listener l st)
               in st\<lparr>st_services := AList.delete name (st_services st)\<rparr>)
            else st)))"

definition new_service :: "go_string \<Rightarrow> app \<Rightarrow> listener_id option \<Rightarrow> schedule \<Rightarrow> time \<Rightarrow> proc_id list \<Rightarrow> service" where
  "new_service name config listener plan now workers =
     \<lparr>s_schedule = plan, s_next_run = schedule_next plan now, s_scheduled = False, s_cycle = None,
      s_name = name, s_config = config, s_listener = listener, s_workers = workers,
      s_demand = False, s_pressure = zero_window, s_retry_at = 0, s_failures = 0,
      s_unneeded_since = 0\<rparr>"

definition alloc_serv :: "service \<Rightarrow> store \<Rightarrow> store" where
  "alloc_serv service st =
     st\<lparr>st_servs := (st_servs st)(st_next_serv st := service), st_next_serv := Suc (st_next_serv st)\<rparr>"

definition adopt :: "service_id \<Rightarrow> proc_id \<Rightarrow> store \<Rightarrow> store" where
  "adopt s p = upd_proc p (\<lambda>child. child\<lparr>p_service := s\<rparr>)"

definition install_service :: "world \<Rightarrow> (go_string \<times> schedule) list \<Rightarrow> (go_string \<times> listener_id) list
    \<Rightarrow> go_string \<times> app \<Rightarrow> store \<Rightarrow> store" where
  "install_service w plans opened = (\<lambda>(name, app) st.
     (let previous = current_service st name in
      if map_option s_config previous = Some app then st
      else
        (let listener = (case previous of None \<Rightarrow> map_of opened name | Some service \<Rightarrow> s_listener service);
             workers = (case previous of None \<Rightarrow> [] | Some service \<Rightarrow> s_workers service);
             current = st_next_serv st;
             st = alloc_serv (new_service name app listener (lookup_or zero_schedule plans name)
                    (w_clock w current) workers) st;
             st = fold (adopt current) workers st;
             st = st\<lparr>st_services := AList.update name current (st_services st)\<rparr>
         in case listener of None \<Rightarrow> st
            | Some l \<Rightarrow> st\<lparr>st_listeners := AList.update l current (st_listeners st)\<rparr>)))"

definition apply_snapshot :: "world \<Rightarrow> snapshot \<Rightarrow> store \<Rightarrow> store \<times> apply_error option" where
  "apply_snapshot w sn st =
     (if sn_cgroup sn \<noteq> st_cgroup st then (st, Some CgroupChanged)
      else case plan_schedules (sn_apps sn) of
        Inl e \<Rightarrow> (st, Some e)
      | Inr plans \<Rightarrow>
          (let (st, failure, opened) = open_listeners w (sn_apps sn) st [] in
           case failure of
             Some e \<Rightarrow> (finish_apply w False [] opened st, Some e)
           | None \<Rightarrow>
               (let (st, failure, staged) = stage_permissions w (sn_apps sn) st [] in
                case failure of
                  Some e \<Rightarrow> (finish_apply w False staged opened st, Some e)
                | None \<Rightarrow>
                    (let st = fold (retire_service w (sn_apps sn)) (st_services st) st;
                         st = fold (install_service w plans opened) (sn_apps sn) st;
                         st = st\<lparr>st_limits := sn_resources sn\<rparr>
                     in (finish_apply w True staged opened st, None)))))"

end
