(* ===== verification/Moves.thy ===== *)
theory Moves
  imports Reload
begin

text \<open>
  The contract of the supervisor's operations: a transition relation with one rule per kind of
  change to the store, each guarded by the condition under which it is allowed, and the
  invariants that every such change keeps.  \<open>Operations\<close> shows that each operation of the code
  is a sequence of these moves.
\<close>

subsection \<open>Moves\<close>

text \<open>Effects that neither start an action or process nor stop one.\<close>

fun quiet :: "effect \<Rightarrow> bool" where
  "quiet (RunAction _ _) = False"
| "quiet (Launch _ _) = False"
| "quiet (WriteStop _ _) = False"
| "quiet (StopSignal _) = False"
| "quiet (KillJob _ _) = False"
| "quiet _ = True"

text \<open>A process changed only in what it reports: its life cycle is as before.\<close>

definition benign :: "process \<Rightarrow> process \<Rightarrow> bool" where
  "benign x y \<longleftrightarrow> p_was_ready y = p_was_ready x \<and> p_pending y = p_pending x \<and> p_exited y = p_exited x
     \<and> p_stop_sent y = p_stop_sent x \<and> p_scope y = p_scope x \<and> p_cycle y = p_cycle x
     \<and> p_pid y = p_pid x \<and> p_control y = p_control x \<and> p_service y = p_service x \<and> p_ready y = p_ready x
     \<and> p_started y = p_started x \<and> p_executed y = p_executed x \<and> p_stopping y = p_stopping x
     \<and> p_killed y = p_killed x \<and> p_config y = p_config x \<and> (p_base_ready x \<longrightarrow> p_base_ready y)"

definition kept_service :: "service \<Rightarrow> service \<Rightarrow> bool" where
  "kept_service x y \<longleftrightarrow> s_name y = s_name x \<and> s_config y = s_config x \<and> s_workers y = s_workers x
     \<and> s_cycle y = s_cycle x \<and> (s_scheduled y \<longrightarrow> s_scheduled x) \<and> (0 \<le> s_failures x \<longrightarrow> 0 \<le> s_failures y)"

definition kept_run :: "run \<Rightarrow> run \<Rightarrow> bool" where
  "kept_run x y \<longleftrightarrow> ru_running y = ru_running x \<and> (ru_cancelled x \<longrightarrow> ru_cancelled y)"

text \<open>Stores that agree on workers, services and actions.\<close>

definition same_core :: "store \<Rightarrow> store \<Rightarrow> bool" where
  "same_core st st' \<longleftrightarrow> st_procs st' = st_procs st \<and> st_cycles st' = st_cycles st
     \<and> st_scopes st' = st_scopes st \<and> st_runs st' = st_runs st \<and> st_servs st' = st_servs st
     \<and> st_next_proc st' = st_next_proc st \<and> st_next_cycle st' = st_next_cycle st
     \<and> st_next_scope st' = st_next_scope st \<and> st_next_run st' = st_next_run st
     \<and> st_next_serv st' = st_next_serv st \<and> st_action_tasks st' = st_action_tasks st
     \<and> st_services st' = st_services st \<and> st_workers st' = st_workers st
     \<and> (\<exists>es. st_effects st' = st_effects st @ es \<and> (\<forall>e \<in> set es. quiet e))"

definition stop_effects :: "proc_id \<Rightarrow> time \<Rightarrow> effect list set" where
  "stop_effects p now = {[WriteStop p now], [WriteStop p now, StopSignal p], [StopSignal p]}"

definition enrolled :: "service_id \<Rightarrow> cycle_id \<Rightarrow> scope_id \<Rightarrow> time \<Rightarrow> store \<Rightarrow> store" where
  "enrolled s c scope now st =
     (let p = st_next_proc st;
          st = alloc_proc (new_process s (s_config (st_servs st s)) c scope now) st;
          st = upd_cycle c (\<lambda>cy. cy\<lparr>cy_members := set_insert p (cy_members cy)\<rparr>) st;
          st = st\<lparr>st_workers := set_insert p (st_workers st)\<rparr>
      in upd_serv s (\<lambda>service. service\<lparr>s_workers := set_insert p (s_workers service)\<rparr>) st)"

definition removed :: "proc_id \<Rightarrow> service_id \<Rightarrow> cycle_id \<Rightarrow> store \<Rightarrow> store" where
  "removed p s c st =
     upd_cycle c (\<lambda>cy. cy\<lparr>cy_members := set_delete p (cy_members cy)\<rparr>)
       (upd_serv s (\<lambda>service. service\<lparr>s_workers := set_delete p (s_workers service)\<rparr>)
         (st\<lparr>st_workers := set_delete p (st_workers st)\<rparr>))"

definition installed :: "go_string \<Rightarrow> service \<Rightarrow> store \<Rightarrow> store" where
  "installed name service st =
     (let s = st_next_serv st; st = fold (adopt s) (s_workers service) (alloc_serv service st)
      in st\<lparr>st_services := AList.update name s (st_services st)\<rparr>)"

definition room :: "store \<Rightarrow> service_id \<Rightarrow> bool" where
  "room st s \<longleftrightarrow>
     (if app_schedule (s_config (st_servs st s)) = []
      then available st s < app_max_workers (s_config (st_servs st s))
      else executions st (s_name (st_servs st s)) < execution_limit (s_config (st_servs st s)))"

inductive move :: "store \<Rightarrow> store \<Rightarrow> bool" where
  Other: "same_core st st' \<Longrightarrow> move st st'"
| Report: "benign (st_procs st p) (f (st_procs st p)) \<Longrightarrow> move st (upd_proc p f st)"
| Unready: "move st (set_ready p False st)"
| BecomeReady: "p_stopping (st_procs st p) = 0 \<Longrightarrow> \<not> p_exited (st_procs st p) \<Longrightarrow>
    \<not> p_pending (st_procs st p) \<Longrightarrow> p_base_ready (st_procs st p) \<Longrightarrow>
    move st (upd_proc p (\<lambda>child. child\<lparr>p_ready := True, p_was_ready := True\<rparr>) st)"
| MarkStopping: "p_stopping (st_procs st p) = 0 \<Longrightarrow> 0 < now \<Longrightarrow>
    move st (upd_proc p (\<lambda>child. child\<lparr>p_stopping := now, p_ready := False\<rparr>) st)"
| MarkExited: "\<not> p_pending (st_procs st p) \<Longrightarrow> \<not> p_exited (st_procs st p) \<Longrightarrow>
    move st (upd_proc p (\<lambda>child. child\<lparr>p_exited := True, p_ready := False\<rparr>) st)"
| Abandon: "p_pending (st_procs st p) \<Longrightarrow> p_stopping (st_procs st p) \<noteq> 0 \<Longrightarrow> \<not> p_stop_sent (st_procs st p) \<Longrightarrow>
    move st (upd_proc p (\<lambda>child. child\<lparr>p_stop_sent := True, p_exited := True\<rparr>) st)"
| SendStop: "\<not> p_pending (st_procs st p) \<Longrightarrow> p_stopping (st_procs st p) \<noteq> 0 \<Longrightarrow>
    \<not> p_stop_sent (st_procs st p) \<Longrightarrow> \<not> p_exited (st_procs st p) \<Longrightarrow> es \<in> stop_effects p now \<Longrightarrow>
    move st (fold emit es (upd_proc p (\<lambda>child. child\<lparr>p_stop_sent := True\<rparr>) st))"
| Kill: "\<not> p_pending (st_procs st p) \<Longrightarrow> p_stopping (st_procs st p) \<noteq> 0 \<Longrightarrow> p_stop_sent (st_procs st p) \<Longrightarrow>
    \<not> p_exited (st_procs st p) \<Longrightarrow> \<not> p_killed (st_procs st p) \<Longrightarrow>
    app_stop_timeout (p_config (st_procs st p)) \<le> time_sub now (p_stopping (st_procs st p)) \<Longrightarrow>
    move st (emit (KillJob p now) (upd_proc p (\<lambda>child. child\<lparr>p_killed := True\<rparr>) st))"
| Start: "p_pending (st_procs st p) \<Longrightarrow> p_stopping (st_procs st p) = 0 \<Longrightarrow> \<not> p_exited (st_procs st p) \<Longrightarrow>
    p < st_next_proc st \<Longrightarrow> p \<in> set (st_workers st) \<Longrightarrow> 0 < pid \<Longrightarrow> 0 < executed \<Longrightarrow>
    move st (emit (Launch p values) (upd_proc p (launched service pid executed now) st))"
| MakeRun: "\<not> ru_running run \<Longrightarrow> move st (alloc_run run st)"
| KeepRuns: "\<forall>r \<in> set runs. r < st_next_run st \<Longrightarrow>
    move st (upd_scope s (\<lambda>sc. sc\<lparr>sc_runs := sc_runs sc @ [(event, runs)]\<rparr>) st)"
| UpdateRun: "kept_run (st_runs st r) (f (st_runs st r)) \<Longrightarrow> move st (upd_run r f st)"
| StartRun: "\<not> ru_running (st_runs st r) \<Longrightarrow> \<not> ru_cancelled (st_runs st r) \<Longrightarrow> r < st_next_run st \<Longrightarrow>
    move st (start_run r values st)"
| EndRun: "ru_running (st_runs st r) \<Longrightarrow>
    move st (upd_run r (\<lambda>run. run\<lparr>ru_running := False, ru_cancel := False\<rparr>)
      (st\<lparr>st_action_tasks := st_action_tasks st - 1\<rparr>))"
| MakeScope: "sc_runs scope = [] \<Longrightarrow> move st (alloc_scope scope st)"
| MakeCycle: "cy_members cycle = [] \<Longrightarrow> move st (alloc_cycle cycle st)"
| RetireCycle: "cycle_idle st c \<Longrightarrow> move st (upd_cycle c (\<lambda>cy. cy\<lparr>cy_retiring := True\<rparr>) st)"
| Enroll: "s \<in> snd ` set (st_services st) \<Longrightarrow> \<not> s_scheduled (st_servs st s) \<Longrightarrow> room st s \<Longrightarrow>
    \<not> cy_retiring (st_cycles st c) \<Longrightarrow> c < st_next_cycle st \<Longrightarrow> move st (enrolled s c scope now st)"
| Forget: "p_exited (st_procs st p) \<Longrightarrow> move st (removed p (p_service (st_procs st p)) c st)"
| Unreserve: "p_pending (st_procs st p) \<Longrightarrow> move st (removed p (p_service (st_procs st p)) c st)"
| UpdateService: "kept_service (st_servs st s) (f (st_servs st s)) \<Longrightarrow> move st (upd_serv s f st)"
| SetCycle: "c < st_next_cycle st \<Longrightarrow> move st (upd_serv s (\<lambda>service. service\<lparr>s_cycle := Some c\<rparr>) st)"
| Schedule: "room st s \<Longrightarrow> app_schedule (s_config (st_servs st s)) \<noteq> [] \<Longrightarrow>
    move st (upd_serv s (\<lambda>service. service\<lparr>s_scheduled := True\<rparr>) st)"

text \<open>Two more change the table of services; only a new configuration makes them.\<close>

inductive reconfigure :: "store \<Rightarrow> store \<Rightarrow> bool" where
  DropService: "map_of (st_services st) name = Some s \<Longrightarrow>
    \<forall>p \<in> set (s_workers (st_servs st s)). p_stopping (st_procs st p) \<noteq> 0 \<Longrightarrow>
    reconfigure st (st\<lparr>st_services := AList.delete name (st_services st)\<rparr>)"
| Install: "s_name service = name \<Longrightarrow> \<not> s_scheduled service \<Longrightarrow> s_failures service = 0 \<Longrightarrow> s_cycle service = None \<Longrightarrow>
    s_workers service = (case map_of (st_services st) name of None \<Rightarrow> [] | Some s \<Rightarrow> s_workers (st_servs st s)) \<Longrightarrow>
    \<forall>p \<in> set (s_workers service). p_stopping (st_procs st p) \<noteq> 0 \<Longrightarrow>
    reconfigure st (installed name service st)"

abbreviation moves :: "store \<Rightarrow> store \<Rightarrow> bool" where
  "moves \<equiv> move\<^sup>*\<^sup>*"

abbreviation steps :: "store \<Rightarrow> store \<Rightarrow> bool" where
  "steps \<equiv> (sup move reconfigure)\<^sup>*\<^sup>*"

subsection \<open>The life of a worker\<close>

text \<open>What holds of every worker at every moment.\<close>

fun is_stop_write :: "proc_id \<Rightarrow> effect \<Rightarrow> bool" where
  "is_stop_write p (WriteStop q _) \<longleftrightarrow> q = p"
| "is_stop_write p _ \<longleftrightarrow> False"

definition stop_requested :: "effect list \<Rightarrow> proc_id \<Rightarrow> bool" where
  "stop_requested es p \<longleftrightarrow> list_ex (\<lambda>e. is_stop_write p e \<or> e = StopSignal p) es"

definition proc_ok :: "process \<Rightarrow> bool" where
  "proc_ok x \<longleftrightarrow>
     (p_ready x \<longrightarrow> p_stopping x = 0 \<and> \<not> p_exited x \<and> \<not> p_pending x \<and> p_base_ready x \<and> p_was_ready x)
     \<and> (p_stop_sent x \<longrightarrow> p_stopping x \<noteq> 0)
     \<and> (p_killed x \<longrightarrow> p_stop_sent x \<and> \<not> p_pending x)
     \<and> (p_pending x \<longrightarrow> p_pid x = 0 \<and> p_executed x = 0 \<and> (p_exited x \<longleftrightarrow> p_stop_sent x))
     \<and> (\<not> p_pending x \<longrightarrow> 0 < p_pid x \<and> 0 < p_executed x)
     \<and> p_scope x \<noteq> None \<and> p_cycle x \<noteq> None \<and> 0 \<le> p_stopping x"

definition procs_ok :: "store \<Rightarrow> bool" where
  "procs_ok st \<longleftrightarrow> (\<forall>p. proc_ok (st_procs st p))
     \<and> (\<forall>p \<ge> st_next_proc st. p_pending (st_procs st p))"

text \<open>The effects concerning one worker, and how they match its state.\<close>

fun about :: "effect \<Rightarrow> proc_id option" where
  "about (Launch p _) = Some p"
| "about (WriteStop p _) = Some p"
| "about (StopSignal p) = Some p"
| "about (KillJob p _) = Some p"
| "about _ = None"

fun is_launch :: "proc_id \<Rightarrow> effect \<Rightarrow> bool" where
  "is_launch p (Launch q _) \<longleftrightarrow> q = p"
| "is_launch p _ \<longleftrightarrow> False"

fun is_kill :: "proc_id \<Rightarrow> effect \<Rightarrow> bool" where
  "is_kill p (KillJob q _) \<longleftrightarrow> q = p"
| "is_kill p _ \<longleftrightarrow> False"

lemma effect_kinds:
  "is_launch p e \<longleftrightarrow> (\<exists>v. e = Launch p v)"
  "is_kill p e \<longleftrightarrow> (\<exists>t. e = KillJob p t)"
  "is_stop_write p e \<longleftrightarrow> (\<exists>t. e = WriteStop p t)"
  by (cases e; auto)+

definition launches :: "effect list \<Rightarrow> proc_id \<Rightarrow> nat" where
  "launches es p = length (filter (is_launch p) es)"

definition kills :: "effect list \<Rightarrow> proc_id \<Rightarrow> nat" where
  "kills es p = length (filter (is_kill p) es)"

definition stop_writes :: "effect list \<Rightarrow> proc_id \<Rightarrow> nat" where
  "stop_writes es p = length (filter (is_stop_write p) es)"

definition stop_signals :: "effect list \<Rightarrow> proc_id \<Rightarrow> nat" where
  "stop_signals es p = length (filter (\<lambda>e. e = StopSignal p) es)"

text \<open>Every kill comes after a request to stop.\<close>

definition graceful :: "effect list \<Rightarrow> proc_id \<Rightarrow> bool" where
  "graceful es p \<longleftrightarrow> (\<forall>before t after. es = before @ KillJob p t # after \<longrightarrow> stop_requested before p)"

definition effects_match :: "process \<Rightarrow> effect list \<Rightarrow> proc_id \<Rightarrow> bool" where
  "effects_match x es p \<longleftrightarrow>
     launches es p = (if p_pending x then 0 else 1)
     \<and> (stop_requested es p \<longleftrightarrow> p_stop_sent x \<and> \<not> p_pending x)
     \<and> stop_writes es p \<le> 1 \<and> stop_signals es p \<le> 1
     \<and> kills es p = (if p_killed x then 1 else 0)
     \<and> (\<forall>t. KillJob p t \<in> set es \<longrightarrow> app_stop_timeout (p_config x) \<le> time_sub t (p_stopping x))
     \<and> graceful es p"

definition effects_ok :: "store \<Rightarrow> bool" where
  "effects_ok st \<longleftrightarrow> (\<forall>p. effects_match (st_procs st p) (st_effects st) p)"

lemma quiet_about: "quiet e \<Longrightarrow> about e = None"
  by (cases e) auto

lemma effect_counts_snoc [simp]:
  "launches (es @ [e]) p = launches es p + (if \<exists>v. e = Launch p v then 1 else 0)"
  "kills (es @ [e]) p = kills es p + (if \<exists>t. e = KillJob p t then 1 else 0)"
  "stop_writes (es @ [e]) p = stop_writes es p + (if \<exists>t. e = WriteStop p t then 1 else 0)"
  "stop_signals (es @ [e]) p = stop_signals es p + (if e = StopSignal p then 1 else 0)"
  "stop_requested (es @ [e]) p \<longleftrightarrow> stop_requested es p \<or> (\<exists>t. e = WriteStop p t) \<or> e = StopSignal p"
  by (auto simp: launches_def kills_def stop_writes_def stop_signals_def stop_requested_def effect_kinds)

lemma graceful_snoc [simp]:
  "graceful (es @ [e]) p \<longleftrightarrow> graceful es p \<and> ((\<exists>t. e = KillJob p t) \<longrightarrow> stop_requested es p)"
proof
  assume g: "graceful (es @ [e]) p"
  have "stop_requested before p" if "es = before @ KillJob p t # after" for before t after
    using g [unfolded graceful_def, rule_format, of before t "after @ [e]"] that by simp
  moreover have "stop_requested es p" if "e = KillJob p t" for t
    using g [unfolded graceful_def, rule_format, of es t "[]"] that by simp
  ultimately show "graceful es p \<and> ((\<exists>t. e = KillJob p t) \<longrightarrow> stop_requested es p)"
    by (auto simp: graceful_def)
next
  assume g: "graceful es p \<and> ((\<exists>t. e = KillJob p t) \<longrightarrow> stop_requested es p)"
  show "graceful (es @ [e]) p"
    unfolding graceful_def
  proof (intro allI impI)
    fix before t after assume "es @ [e] = before @ KillJob p t # after"
    with g show "stop_requested before p"
      by (cases after rule: rev_cases) (auto simp: graceful_def)
  qed
qed

lemma kills_zero: "kills es p = 0 \<longleftrightarrow> (\<forall>t. KillJob p t \<notin> set es)"
  by (auto simp: kills_def filter_empty_conv effect_kinds)

lemma writes_requested: "\<not> stop_requested es p \<Longrightarrow> stop_writes es p = 0 \<and> stop_signals es p = 0"
  by (auto simp: stop_requested_def stop_writes_def stop_signals_def filter_empty_conv list_ex_iff effect_kinds)

lemma effects_match_other:
  "about e \<noteq> Some p \<Longrightarrow> effects_match x (es @ [e]) p \<longleftrightarrow> effects_match x es p"
  by (auto simp: effects_match_def)

lemma effects_match_quiet:
  "\<forall>e \<in> set qs. quiet e \<Longrightarrow> effects_match x (es @ qs) p \<longleftrightarrow> effects_match x es p"
proof (induction qs rule: rev_induct)
  case (snoc e qs)
  then show ?case
    using effects_match_other [of e p x "es @ qs"] by (simp add: quiet_about)
qed simp

subsection \<open>Reading composite updates\<close>

lemma alloc_simps [simp]:
  "st_procs (alloc_proc x st) = (st_procs st)(st_next_proc st := x)"
  "st_next_proc (alloc_proc x st) = Suc (st_next_proc st)"
  "st_runs (alloc_run r st) = (st_runs st)(st_next_run st := r)"
  "st_next_run (alloc_run r st) = Suc (st_next_run st)"
  "st_scopes (alloc_scope sc st) = (st_scopes st)(st_next_scope st := sc)"
  "st_cycles (alloc_cycle cy st) = (st_cycles st)(st_next_cycle st := cy)"
  "st_next_cycle (alloc_cycle cy st) = Suc (st_next_cycle st)"
  "st_servs (alloc_serv sv st) = (st_servs st)(st_next_serv st := sv)"
  "st_next_serv (alloc_serv sv st) = Suc (st_next_serv st)"
  by (simp_all add: alloc_proc_def alloc_run_def alloc_scope_def alloc_cycle_def alloc_serv_def)

lemma alloc_frame [simp]:
  "st_procs (alloc_run r st) = st_procs st" "st_procs (alloc_scope sc st) = st_procs st"
  "st_procs (alloc_cycle cy st) = st_procs st" "st_procs (alloc_serv sv st) = st_procs st"
  "st_next_proc (alloc_run r st) = st_next_proc st" "st_next_proc (alloc_scope sc st) = st_next_proc st"
  "st_next_proc (alloc_cycle cy st) = st_next_proc st" "st_next_proc (alloc_serv sv st) = st_next_proc st"
  "st_effects (alloc_run r st) = st_effects st" "st_effects (alloc_scope sc st) = st_effects st"
  "st_effects (alloc_cycle cy st) = st_effects st" "st_effects (alloc_serv sv st) = st_effects st"
  "st_effects (alloc_proc x st) = st_effects st"
  "st_runs (alloc_scope sc st) = st_runs st" "st_runs (alloc_cycle cy st) = st_runs st"
  "st_runs (alloc_serv sv st) = st_runs st" "st_runs (alloc_proc x st) = st_runs st"
  "st_next_run (alloc_scope sc st) = st_next_run st" "st_next_run (alloc_cycle cy st) = st_next_run st"
  "st_next_run (alloc_serv sv st) = st_next_run st" "st_next_run (alloc_proc x st) = st_next_run st"
  "st_scopes (alloc_run r st) = st_scopes st" "st_scopes (alloc_cycle cy st) = st_scopes st"
  "st_scopes (alloc_serv sv st) = st_scopes st" "st_scopes (alloc_proc x st) = st_scopes st"
  "st_cycles (alloc_run r st) = st_cycles st" "st_cycles (alloc_scope sc st) = st_cycles st"
  "st_cycles (alloc_serv sv st) = st_cycles st" "st_cycles (alloc_proc x st) = st_cycles st"
  "st_next_cycle (alloc_run r st) = st_next_cycle st" "st_next_cycle (alloc_scope sc st) = st_next_cycle st"
  "st_next_cycle (alloc_serv sv st) = st_next_cycle st" "st_next_cycle (alloc_proc x st) = st_next_cycle st"
  "st_servs (alloc_run r st) = st_servs st" "st_servs (alloc_scope sc st) = st_servs st"
  "st_servs (alloc_cycle cy st) = st_servs st" "st_servs (alloc_proc x st) = st_servs st"
  "st_next_serv (alloc_run r st) = st_next_serv st" "st_next_serv (alloc_scope sc st) = st_next_serv st"
  "st_next_serv (alloc_cycle cy st) = st_next_serv st" "st_next_serv (alloc_proc x st) = st_next_serv st"
  "st_action_tasks (alloc_run r st) = st_action_tasks st" "st_action_tasks (alloc_scope sc st) = st_action_tasks st"
  "st_action_tasks (alloc_cycle cy st) = st_action_tasks st" "st_action_tasks (alloc_serv sv st) = st_action_tasks st"
  "st_action_tasks (alloc_proc x st) = st_action_tasks st"
  "st_services (alloc_run r st) = st_services st" "st_services (alloc_scope sc st) = st_services st"
  "st_services (alloc_cycle cy st) = st_services st" "st_services (alloc_serv sv st) = st_services st"
  "st_services (alloc_proc x st) = st_services st"
  "st_workers (alloc_run r st) = st_workers st" "st_workers (alloc_scope sc st) = st_workers st"
  "st_workers (alloc_cycle cy st) = st_workers st" "st_workers (alloc_serv sv st) = st_workers st"
  "st_workers (alloc_proc x st) = st_workers st"
  by (simp_all add: alloc_proc_def alloc_run_def alloc_scope_def alloc_cycle_def alloc_serv_def)

lemma adopt_fold:
  "st_procs (fold (adopt s) ps st) q =
     (if q \<in> set ps then (st_procs st q)\<lparr>p_service := s\<rparr> else st_procs st q)"
  by (induction ps arbitrary: st) (auto simp: adopt_def)

lemma adopt_frame [simp]:
  "st_next_proc (fold (adopt s) ps st) = st_next_proc st"
  "st_effects (fold (adopt s) ps st) = st_effects st"
  "st_runs (fold (adopt s) ps st) = st_runs st"
  "st_next_run (fold (adopt s) ps st) = st_next_run st"
  "st_scopes (fold (adopt s) ps st) = st_scopes st"
  "st_cycles (fold (adopt s) ps st) = st_cycles st"
  "st_next_cycle (fold (adopt s) ps st) = st_next_cycle st"
  "st_servs (fold (adopt s) ps st) = st_servs st"
  "st_next_serv (fold (adopt s) ps st) = st_next_serv st"
  "st_action_tasks (fold (adopt s) ps st) = st_action_tasks st"
  "st_services (fold (adopt s) ps st) = st_services st"
  "st_workers (fold (adopt s) ps st) = st_workers st"
  by (induction ps arbitrary: st; simp add: adopt_def)+

lemma emit_fold [simp]:
  "st_effects (fold emit es st) = st_effects st @ es"
  "st_procs (fold emit es st) = st_procs st" "st_next_proc (fold emit es st) = st_next_proc st"
  "st_runs (fold emit es st) = st_runs st" "st_next_run (fold emit es st) = st_next_run st"
  "st_scopes (fold emit es st) = st_scopes st" "st_cycles (fold emit es st) = st_cycles st"
  "st_next_cycle (fold emit es st) = st_next_cycle st" "st_servs (fold emit es st) = st_servs st"
  "st_next_serv (fold emit es st) = st_next_serv st" "st_action_tasks (fold emit es st) = st_action_tasks st"
  "st_services (fold emit es st) = st_services st" "st_workers (fold emit es st) = st_workers st"
  by (induction es arbitrary: st; simp)+

lemma enrolled_simps [simp]:
  "st_procs (enrolled s c sc now st) =
     (st_procs st)(st_next_proc st := new_process s (s_config (st_servs st s)) c sc now)"
  "st_next_proc (enrolled s c sc now st) = Suc (st_next_proc st)"
  "st_effects (enrolled s c sc now st) = st_effects st"
  "st_runs (enrolled s c sc now st) = st_runs st" "st_next_run (enrolled s c sc now st) = st_next_run st"
  "st_scopes (enrolled s c sc now st) = st_scopes st"
  "st_cycles (enrolled s c sc now st) = (st_cycles st)(c := (st_cycles st c)
     \<lparr>cy_members := set_insert (st_next_proc st) (cy_members (st_cycles st c))\<rparr>)"
  "st_next_cycle (enrolled s c sc now st) = st_next_cycle st"
  "st_servs (enrolled s c sc now st) = (st_servs st)(s := (st_servs st s)
     \<lparr>s_workers := set_insert (st_next_proc st) (s_workers (st_servs st s))\<rparr>)"
  "st_next_serv (enrolled s c sc now st) = st_next_serv st"
  "st_action_tasks (enrolled s c sc now st) = st_action_tasks st"
  "st_services (enrolled s c sc now st) = st_services st"
  "st_workers (enrolled s c sc now st) = set_insert (st_next_proc st) (st_workers st)"
  by (simp_all add: enrolled_def Let_def)

lemma removed_simps [simp]:
  "st_procs (removed p s c st) = st_procs st" "st_next_proc (removed p s c st) = st_next_proc st"
  "st_effects (removed p s c st) = st_effects st"
  "st_runs (removed p s c st) = st_runs st" "st_next_run (removed p s c st) = st_next_run st"
  "st_scopes (removed p s c st) = st_scopes st"
  "st_cycles (removed p s c st) = (st_cycles st)(c := (st_cycles st c)
     \<lparr>cy_members := set_delete p (cy_members (st_cycles st c))\<rparr>)"
  "st_next_cycle (removed p s c st) = st_next_cycle st"
  "st_servs (removed p s c st) = (st_servs st)(s := (st_servs st s)
     \<lparr>s_workers := set_delete p (s_workers (st_servs st s))\<rparr>)"
  "st_next_serv (removed p s c st) = st_next_serv st"
  "st_action_tasks (removed p s c st) = st_action_tasks st"
  "st_services (removed p s c st) = st_services st"
  "st_workers (removed p s c st) = set_delete p (st_workers st)"
  by (simp_all add: removed_def)

lemma installed_simps [simp]:
  "st_next_proc (installed n sv st) = st_next_proc st"
  "st_effects (installed n sv st) = st_effects st"
  "st_runs (installed n sv st) = st_runs st" "st_next_run (installed n sv st) = st_next_run st"
  "st_scopes (installed n sv st) = st_scopes st" "st_cycles (installed n sv st) = st_cycles st"
  "st_next_cycle (installed n sv st) = st_next_cycle st"
  "st_servs (installed n sv st) = (st_servs st)(st_next_serv st := sv)"
  "st_next_serv (installed n sv st) = Suc (st_next_serv st)"
  "st_action_tasks (installed n sv st) = st_action_tasks st"
  "st_services (installed n sv st) = AList.update n (st_next_serv st) (st_services st)"
  "st_workers (installed n sv st) = st_workers st"
  by (simp_all add: installed_def Let_def)

lemma installed_procs:
  "st_procs (installed n sv st) q =
     (if q \<in> set (s_workers sv) then (st_procs st q)\<lparr>p_service := st_next_serv st\<rparr> else st_procs st q)"
  by (simp add: installed_def Let_def adopt_fold)

lemma installed_fields [simp]:
  "p_stopping (st_procs (installed n sv st) q) = p_stopping (st_procs st q)"
  "p_exited (st_procs (installed n sv st) q) = p_exited (st_procs st q)"
  "p_cycle (st_procs (installed n sv st) q) = p_cycle (st_procs st q)"
  "p_config (st_procs (installed n sv st) q) = p_config (st_procs st q)"
  by (simp_all add: installed_procs)

lemma start_run_simps [simp]:
  "st_procs (start_run r v st) = st_procs st" "st_next_proc (start_run r v st) = st_next_proc st"
  "st_effects (start_run r v st) = st_effects st @ [RunAction r v]"
  "st_runs (start_run r v st) = (st_runs st)(r := (st_runs st r)\<lparr>ru_running := True, ru_cancel := True\<rparr>)"
  "st_next_run (start_run r v st) = st_next_run st" "st_scopes (start_run r v st) = st_scopes st"
  "st_cycles (start_run r v st) = st_cycles st" "st_next_cycle (start_run r v st) = st_next_cycle st"
  "st_servs (start_run r v st) = st_servs st" "st_next_serv (start_run r v st) = st_next_serv st"
  "st_action_tasks (start_run r v st) = st_action_tasks st + 1"
  "st_services (start_run r v st) = st_services st" "st_workers (start_run r v st) = st_workers st"
  by (simp_all add: start_run_def)

lemma set_ready_procs [simp]:
  "st_procs (set_ready p b st) = (st_procs st)(p := (st_procs st p)\<lparr>p_ready := b\<rparr>)"
  "st_effects (set_ready p b st) = st_effects st" "st_next_proc (set_ready p b st) = st_next_proc st"
  "st_cycles (set_ready p b st) = st_cycles st" "st_servs (set_ready p b st) = st_servs st"
  "st_workers (set_ready p b st) = st_workers st" "st_services (set_ready p b st) = st_services st"
  "st_runs (set_ready p b st) = st_runs st" "st_scopes (set_ready p b st) = st_scopes st"
  "st_next_run (set_ready p b st) = st_next_run st" "st_next_cycle (set_ready p b st) = st_next_cycle st"
  "st_next_serv (set_ready p b st) = st_next_serv st" "st_action_tasks (set_ready p b st) = st_action_tasks st"
  by (simp_all add: set_ready_def)

lemma new_process_simps [simp]:
  "p_stopping (new_process s config c sc now) = 0" "p_exited (new_process s config c sc now) = False"
  "p_pending (new_process s config c sc now) = True" "p_service (new_process s config c sc now) = s"
  "p_config (new_process s config c sc now) = config" "p_cycle (new_process s config c sc now) = Some c"
  "p_scope (new_process s config c sc now) = Some sc" "p_killed (new_process s config c sc now) = False"
  "p_started (new_process s config c sc now) = now"
  by (simp_all add: new_process_def)

lemma launched_simps [simp]:
  "p_pending (launched sv pid ex now x) = False" "p_pid (launched sv pid ex now x) = pid"
  "p_executed (launched sv pid ex now x) = ex" "p_exited (launched sv pid ex now x) = p_exited x"
  "p_stop_sent (launched sv pid ex now x) = p_stop_sent x" "p_killed (launched sv pid ex now x) = p_killed x"
  "p_stopping (launched sv pid ex now x) = p_stopping x" "p_ready (launched sv pid ex now x) = p_ready x"
  "p_was_ready (launched sv pid ex now x) = p_was_ready x" "p_config (launched sv pid ex now x) = p_config x"
  "p_scope (launched sv pid ex now x) = p_scope x" "p_cycle (launched sv pid ex now x) = p_cycle x"
  "p_service (launched sv pid ex now x) = p_service x" "p_started (launched sv pid ex now x) = p_started x"
  "p_base_ready x \<Longrightarrow> p_base_ready (launched sv pid ex now x)"
  by (auto simp: launched_def Let_def)

subsection \<open>Every move keeps the life of the workers\<close>

lemma procs_ok_upd:
  assumes "procs_ok st" and "proc_ok (f (st_procs st p))"
    and "p_pending (st_procs st p) \<Longrightarrow> p_pending (f (st_procs st p)) \<or> p < st_next_proc st"
  shows "procs_ok (upd_proc p f st)"
  using assms by (auto simp: procs_ok_def not_less)

lemma procs_ok_at: "procs_ok st \<Longrightarrow> proc_ok (st_procs st p)"
  by (simp add: procs_ok_def)

lemma benign_proc_ok: "benign x y \<Longrightarrow> proc_ok x \<Longrightarrow> proc_ok y"
  by (auto simp: benign_def proc_ok_def)

lemma new_process_ok: "proc_ok (new_process s config c scope now)"
  by (simp add: new_process_def proc_ok_def)

lemma procs_ok_same:
  "st_procs st' = st_procs st \<Longrightarrow> st_next_proc st' = st_next_proc st \<Longrightarrow> procs_ok st' = procs_ok st"
  by (simp add: procs_ok_def)

lemma proc_ok_service [simp]: "proc_ok (x\<lparr>p_service := s\<rparr>) = proc_ok x"
  by (simp add: proc_ok_def)

lemma move_procs_ok: "move st st' \<Longrightarrow> procs_ok st \<Longrightarrow> procs_ok st'"
proof (induction rule: move.induct)
  case (Report st p f)
  show ?case
  proof (rule procs_ok_upd [OF Report(2)])
    show "proc_ok (f (st_procs st p))"
      using Report(1) procs_ok_at [OF Report(2)] by (rule benign_proc_ok)
    show "p_pending (f (st_procs st p)) \<or> p < st_next_proc st" if "p_pending (st_procs st p)"
      using Report(1) that by (simp add: benign_def)
  qed
next
  case (Enroll s st c scope now)
  then show ?case by (auto simp: procs_ok_def new_process_ok)
next
  case (Start st p pid executed vals service now)
  with procs_ok_at [of st p] show ?case
    by (auto simp: procs_ok_def proc_ok_def)
next
  case (SendStop st p es now)
  with procs_ok_at [of st p] show ?case by (auto simp: procs_ok_def proc_ok_def)
qed (auto simp: procs_ok_def proc_ok_def same_core_def)

lemma reconfigure_procs_ok: "reconfigure st st' \<Longrightarrow> procs_ok st \<Longrightarrow> procs_ok st'"
  by (induction rule: reconfigure.induct) (auto simp: procs_ok_def installed_procs)

subsection \<open>Every move keeps workers and effects in step\<close>

text \<open>Effects only see these fields of a process.\<close>

lemma effects_match_cong:
  "p_pending y = p_pending x \<Longrightarrow> p_stop_sent y = p_stop_sent x \<Longrightarrow> p_killed y = p_killed x \<Longrightarrow>
   p_stopping y = p_stopping x \<Longrightarrow> p_config y = p_config x \<Longrightarrow> effects_match y es p = effects_match x es p"
  by (simp add: effects_match_def)

lemma effects_ok_at: "effects_ok st \<Longrightarrow> effects_match (st_procs st p) (st_effects st) p"
  by (simp add: effects_ok_def)

text \<open>A change of one process with the effects that concern it.\<close>

lemma effects_ok_upd:
  assumes "effects_ok st" and "st_procs st' = (st_procs st)(p := x)"
    and "st_effects st' = st_effects st @ es" and "\<forall>e \<in> set es. about e = Some p"
    and "effects_match x (st_effects st @ es) p"
  shows "effects_ok st'"
proof -
  have "effects_match (st_procs st q) (st_effects st @ es) q" if "q \<noteq> p" for q
    using assms(4)
  proof (induction es rule: rev_induct)
    case (snoc e es)
    then show ?case
      using effects_match_other [of e q "st_procs st q" "st_effects st @ es"] that by simp
  qed (use assms(1) effects_ok_at in simp)
  with assms show ?thesis by (simp add: effects_ok_def)
qed

lemma effects_ok_field:
  assumes "effects_ok st" and "st_effects st' = st_effects st"
    and "st_procs st' = (st_procs st)(p := x)"
    and "effects_match x (st_effects st) p"
  shows "effects_ok st'"
  using effects_ok_upd [OF assms(1,3), of "[]"] assms by simp

lemma effects_ok_frame:
  "effects_ok st \<Longrightarrow> st_procs st' = st_procs st \<Longrightarrow> st_effects st' = st_effects st @ es \<Longrightarrow>
   \<forall>e \<in> set es. about e = None \<Longrightarrow> effects_ok st'"
proof (induction es arbitrary: st' rule: rev_induct)
  case (snoc e es)
  then have "effects_ok (st'\<lparr>st_effects := st_effects st @ es\<rparr>)" by simp
  with snoc.prems show ?case
    by (auto simp: effects_ok_def append_assoc [symmetric] effects_match_other simp del: append_assoc)
qed (simp add: effects_ok_def)

lemma effects_match_fresh:
  assumes "effects_match x es p" and "proc_ok x" and "p_pending x"
    and "p_pending y" and "\<not> p_killed y"
  shows "effects_match y es p"
  using assms by (auto simp: effects_match_def proc_ok_def kills_zero)

lemma effects_match_stopping:
  assumes "effects_match x es p" and "proc_ok x" and "p_stopping x = 0"
  shows "effects_match (x\<lparr>p_stopping := now, p_ready := False\<rparr>) es p"
  using assms by (auto simp: effects_match_def proc_ok_def kills_zero)

lemma effects_match_stop:
  assumes "effects_match x es p" and "\<not> p_stop_sent x" and "\<not> p_pending x" and "\<not> p_killed x"
    and "fs \<in> stop_effects p now"
  shows "effects_match (x\<lparr>p_stop_sent := True\<rparr>) (es @ fs) p"
proof -
  have none: "stop_writes es p = 0" "stop_signals es p = 0" "\<not> stop_requested es p"
    using assms(1,2) writes_requested by (auto simp: effects_match_def)
  have two: "es @ [a, b] = (es @ [a]) @ [b]" for a b :: effect by simp
  from assms(5) consider "fs = [WriteStop p now]" | "fs = [StopSignal p]"
    | "fs = [WriteStop p now, StopSignal p]" by (auto simp: stop_effects_def)
  then show ?thesis
  proof cases
    case 3
    show ?thesis
      unfolding 3 two using assms none by (simp add: effects_match_def kills_zero del: append_assoc)
  qed (use assms none in \<open>simp_all add: effects_match_def kills_zero\<close>)
qed

lemma move_effects_ok: "move st st' \<Longrightarrow> procs_ok st \<Longrightarrow> effects_ok st \<Longrightarrow> effects_ok st'"
proof (induction rule: move.induct)
  case (Other st st')
  then show ?case by (auto simp: same_core_def quiet_about intro: effects_ok_frame)
next
  case (Report st p f)
  then have "effects_match (f (st_procs st p)) (st_effects st) p"
    using effects_ok_at effects_match_cong unfolding benign_def by blast
  with Report show ?case by (intro effects_ok_field [OF Report(3)]) auto
next
  case (BecomeReady st p)
  have "effects_match ((st_procs st p)\<lparr>p_ready := True, p_was_ready := True\<rparr>) (st_effects st) p"
    using effects_ok_at [OF BecomeReady(6), of p] by (subst effects_match_cong) simp_all
  then show ?case by (intro effects_ok_field [OF BecomeReady(6)]) auto
next
  case (MarkStopping st p now)
  then show ?case
    by (intro effects_ok_field [OF MarkStopping(4)])
      (auto intro: effects_match_stopping effects_ok_at procs_ok_at)
next
  case (Abandon st p)
  then show ?case
    using effects_ok_at [OF Abandon(5), of p]
    by (intro effects_ok_field [OF Abandon(5)]) (auto simp: effects_match_def)
next
  case (SendStop st p es now)
  have "effects_match ((st_procs st p)\<lparr>p_stop_sent := True\<rparr>) (st_effects st @ es) p"
    using SendStop procs_ok_at [OF SendStop(6), of p]
    by (intro effects_match_stop [where now = now] effects_ok_at) (auto simp: proc_ok_def)
  then show ?case
    using SendStop(5) by (intro effects_ok_upd [OF SendStop(7)]) (auto simp: stop_effects_def)
next
  case (Kill st p now)
  then show ?case
    using effects_ok_at [OF Kill(8), of p]
    by (intro effects_ok_upd [OF Kill(8), where es = "[KillJob p now]"])
      (auto simp: effects_match_def)
next
  case (Start st p pid executed vals service now)
  then show ?case
    using effects_ok_at [OF Start(9), of p] procs_ok_at [OF Start(8), of p]
    by (intro effects_ok_upd [OF Start(9), where es = "[Launch p vals]"])
      (auto simp: effects_match_def proc_ok_def)
next
  case (Enroll s st c scope now)
  then show ?case
    using procs_ok_at [OF Enroll(6)]
    by (intro effects_ok_field [OF Enroll(7)])
      (auto simp: new_process_def procs_ok_def intro: effects_match_fresh effects_ok_at)
next
  case (StartRun st r vals)
  then show ?case by (auto intro: effects_ok_frame [OF StartRun(5), where es = "[RunAction r vals]"])
qed (auto simp: effects_ok_def effects_match_def)

lemma reconfigure_effects_ok: "reconfigure st st' \<Longrightarrow> effects_ok st \<Longrightarrow> effects_ok st'"
  by (induction rule: reconfigure.induct) (auto simp: effects_ok_def effects_match_def installed_procs)

subsection \<open>Every move keeps the count of actions\<close>

definition running_runs :: "store \<Rightarrow> run_id set" where
  "running_runs st = {r. ru_running (st_runs st r)}"

definition runs_ok :: "store \<Rightarrow> bool" where
  "runs_ok st \<longleftrightarrow> st_action_tasks st = int (card (running_runs st))
     \<and> (\<forall>r \<in> running_runs st. r < st_next_run st)
     \<and> (\<forall>s. \<forall>r \<in> \<Union> (set ` snd ` set (sc_runs (st_scopes st s))). r < st_next_run st)"

lemma finite_running: "runs_ok st \<Longrightarrow> finite (running_runs st)"
  by (rule finite_subset [of _ "{..<st_next_run st}"]) (auto simp: runs_ok_def)

lemma running_update:
  "running_runs (upd_run r f st) =
     (if ru_running (f (st_runs st r)) then insert r (running_runs st) else running_runs st - {r})"
  by (auto simp: running_runs_def)

lemma runs_ok_same:
  "st_runs st' = st_runs st \<Longrightarrow> st_next_run st' = st_next_run st \<Longrightarrow>
   st_action_tasks st' = st_action_tasks st \<Longrightarrow> st_scopes st' = st_scopes st \<Longrightarrow> runs_ok st' = runs_ok st"
  by (simp add: runs_ok_def running_runs_def)

lemma move_runs_ok: "move st st' \<Longrightarrow> runs_ok st \<Longrightarrow> runs_ok st'"
proof (induction rule: move.induct)
  case (MakeRun run st)
  then have "running_runs (alloc_run run st) = running_runs st"
    by (auto simp: running_runs_def runs_ok_def)
  with MakeRun show ?case
    unfolding runs_ok_def by (auto intro: less_SucI)
next
  case (UpdateRun st r f)
  then have "running_runs (upd_run r f st) = running_runs st"
    by (auto simp: running_update kept_run_def running_runs_def)
  with UpdateRun show ?case by (auto simp: runs_ok_def)
next
  case (StartRun st r vals)
  then have "running_runs (start_run r vals st) = insert r (running_runs st)"
    and "r \<notin> running_runs st" by (auto simp: running_runs_def)
  with StartRun(3,4) finite_running [OF StartRun(4)] show ?case
    by (auto simp: runs_ok_def)
next
  case (EndRun st r)
  let ?st = "upd_run r (\<lambda>run. run\<lparr>ru_running := False, ru_cancel := False\<rparr>)
      (st\<lparr>st_action_tasks := st_action_tasks st - 1\<rparr>)"
  have "running_runs ?st = running_runs st - {r}" and r: "r \<in> running_runs st"
    using EndRun by (auto simp: running_runs_def)
  moreover have "card (running_runs st) > 0"
    using r finite_running [OF EndRun(2)] card_gt_0_iff by blast
  ultimately show ?case using EndRun finite_running [OF EndRun(2)]
    by (auto simp: runs_ok_def)
next
  case (KeepRuns runs st s event)
  then show ?case by (auto simp: runs_ok_def running_runs_def)
next
  case (MakeScope scope st)
  moreover have "st_action_tasks (alloc_scope scope st) = st_action_tasks st" by simp
  ultimately show ?case by (auto simp: runs_ok_def running_runs_def)
qed (auto simp: runs_ok_def running_runs_def same_core_def)

lemma reconfigure_runs_ok: "reconfigure st st' \<Longrightarrow> runs_ok st \<Longrightarrow> runs_ok st'"
  by (induction rule: reconfigure.induct) (auto simp: runs_ok_def running_runs_def)

subsection \<open>Every move keeps the generations\<close>

definition cycles_ok :: "store \<Rightarrow> bool" where
  "cycles_ok st \<longleftrightarrow> (\<forall>c. cy_retiring (st_cycles st c) \<longrightarrow> cycle_idle st c)
     \<and> (\<forall>p \<in> set (st_workers st). \<exists>c < st_next_cycle st. p_cycle (st_procs st p) = Some c
          \<and> p \<in> set (cy_members (st_cycles st c)))
     \<and> (\<forall>s c. s_cycle (st_servs st s) = Some c \<longrightarrow> c < st_next_cycle st)
     \<and> (\<forall>c. set (cy_members (st_cycles st c)) \<subseteq> {..<st_next_proc st})"

lemma cycle_idle_iff:
  "cycle_idle st c \<longleftrightarrow> (\<forall>q \<in> set (cy_members (st_cycles st c)).
     p_stopping (st_procs st q) = 0 \<longrightarrow> p_exited (st_procs st q))"
  by (auto simp: cycle_idle_def list_ex_iff)

lemma cycles_ok_idle: "cycles_ok st \<Longrightarrow> cy_retiring (st_cycles st c) \<Longrightarrow> cycle_idle st c"
  by (simp add: cycles_ok_def)

lemma cycles_ok_member:
  assumes "cycles_ok st" and "p \<in> set (st_workers st)"
  obtains c where "c < st_next_cycle st" "p_cycle (st_procs st p) = Some c" "p \<in> set (cy_members (st_cycles st c))"
  using assms unfolding cycles_ok_def by blast

lemma cycles_ok_service: "cycles_ok st \<Longrightarrow> s_cycle (st_servs st s) = Some c \<Longrightarrow> c < st_next_cycle st"
  by (simp add: cycles_ok_def)

lemma cycles_ok_below: "cycles_ok st \<Longrightarrow> set (cy_members (st_cycles st c)) \<subseteq> {..<st_next_proc st}"
  by (simp add: cycles_ok_def)

text \<open>Changes that keep cycles and memberships and bring no process back.\<close>

lemma cycles_ok_mono:
  assumes "cycles_ok st" and "st_cycles st' = st_cycles st" and "st_next_proc st' = st_next_proc st" and "st_next_cycle st' = st_next_cycle st"
    and "set (st_workers st') \<subseteq> set (st_workers st)"
    and "\<And>s. s_cycle (st_servs st' s) = s_cycle (st_servs st s) \<or> s_cycle (st_servs st' s) = None"
    and "\<And>p. p_cycle (st_procs st' p) = p_cycle (st_procs st p)"
    and "\<And>p. p_stopping (st_procs st' p) = 0 \<Longrightarrow> \<not> p_exited (st_procs st' p) \<Longrightarrow>
      p_stopping (st_procs st p) = 0 \<and> \<not> p_exited (st_procs st p)"
  shows "cycles_ok st'"
  unfolding cycles_ok_def cycle_idle_iff
proof (intro conjI allI impI ballI)
  fix c q assume "cy_retiring (st_cycles st' c)" "q \<in> set (cy_members (st_cycles st' c))"
    "p_stopping (st_procs st' q) = 0"
  with assms show "p_exited (st_procs st' q)"
    unfolding cycles_ok_def cycle_idle_iff by metis
next
  fix p assume "p \<in> set (st_workers st')"
  with assms show "\<exists>c < st_next_cycle st'. p_cycle (st_procs st' p) = Some c \<and> p \<in> set (cy_members (st_cycles st' c))"
    unfolding cycles_ok_def by (metis subsetD)
next
  fix s c assume "s_cycle (st_servs st' s) = Some c"
  with assms(1,4) assms(6) [of s] show "c < st_next_cycle st'" by (auto simp: cycles_ok_def)
next
  fix c show "set (cy_members (st_cycles st' c)) \<subseteq> {..<st_next_proc st'}"
    using assms(1,2,3) by (simp add: cycles_ok_def)
qed

lemma cycles_ok_members:
  assumes "cycles_ok st" and "st_procs st' = st_procs st" and "st_next_proc st' = st_next_proc st" and "st_next_cycle st' = st_next_cycle st"
    and "\<And>s. s_cycle (st_servs st' s) = s_cycle (st_servs st s)"
    and "set (st_workers st') = set (st_workers st) - {p}"
    and "\<And>d. cy_retiring (st_cycles st' d) = cy_retiring (st_cycles st d)"
    and "\<And>d. set (cy_members (st_cycles st' d)) \<subseteq> set (cy_members (st_cycles st d))"
    and "\<And>d. set (cy_members (st_cycles st d)) - {p} \<subseteq> set (cy_members (st_cycles st' d))"
  shows "cycles_ok st'"
  unfolding cycles_ok_def cycle_idle_iff
proof (intro conjI allI impI ballI)
  fix c q assume "cy_retiring (st_cycles st' c)" "q \<in> set (cy_members (st_cycles st' c))"
    "p_stopping (st_procs st' q) = 0"
  with assms show "p_exited (st_procs st' q)"
    unfolding cycles_ok_def cycle_idle_iff by (metis subsetD)
next
  fix q assume "q \<in> set (st_workers st')"
  with assms(6) have "q \<in> set (st_workers st)" "q \<noteq> p" by auto
  with assms(1) obtain c where "c < st_next_cycle st" "p_cycle (st_procs st q) = Some c"
    "q \<in> set (cy_members (st_cycles st c))" unfolding cycles_ok_def by blast
  with assms(2,4) assms(9) [of c] \<open>q \<noteq> p\<close>
  show "\<exists>c < st_next_cycle st'. p_cycle (st_procs st' q) = Some c \<and> q \<in> set (cy_members (st_cycles st' c))"
    by auto
next
  fix s c assume "s_cycle (st_servs st' s) = Some c"
  with assms show "c < st_next_cycle st'" by (simp add: cycles_ok_def)
next
  fix c show "set (cy_members (st_cycles st' c)) \<subseteq> {..<st_next_proc st'}"
    using cycles_ok_below [OF assms(1), of c] assms(3) assms(8) [of c] by auto
qed

lemma move_cycles_ok:
  "move st st' \<Longrightarrow> procs_ok st \<Longrightarrow> cycles_ok st \<Longrightarrow> set (st_workers st) \<subseteq> {..<st_next_proc st} \<Longrightarrow> cycles_ok st'"
proof (induction rule: move.induct)
  case (Other st st')
  then show ?case by (intro cycles_ok_mono [OF Other(3)]) (auto simp: same_core_def)
next
  case (Report st p f)
  then show ?case by (intro cycles_ok_mono [OF Report(3)]) (auto simp: benign_def split: if_splits)
next
  case (Unready st p)
  then show ?case by (intro cycles_ok_mono [OF Unready(2)]) (auto split: if_splits)
next
  case (BecomeReady st p)
  then show ?case by (intro cycles_ok_mono [OF BecomeReady(6)]) (auto split: if_splits)
next
  case (MarkStopping st p now)
  then show ?case by (intro cycles_ok_mono [OF MarkStopping(4)]) (auto split: if_splits)
next
  case (MarkExited st p)
  then show ?case by (intro cycles_ok_mono [OF MarkExited(4)]) (auto split: if_splits)
next
  case (Abandon st p)
  then show ?case by (intro cycles_ok_mono [OF Abandon(5)]) (auto split: if_splits)
next
  case (SendStop st p es now)
  then show ?case by (intro cycles_ok_mono [OF SendStop(7)]) (auto split: if_splits)
next
  case (Kill st p now)
  then show ?case by (intro cycles_ok_mono [OF Kill(8)]) (auto split: if_splits)
next
  case (Start st p pid executed vals service now)
  then show ?case by (intro cycles_ok_mono [OF Start(9)]) (auto split: if_splits)
next
  case (MakeCycle cycle st)
  let ?st = "alloc_cycle cycle st"
  have "cycle_idle ?st c" if "cy_retiring (st_cycles ?st c)" for c
    using that MakeCycle(1) cycles_ok_idle [OF MakeCycle(3)]
    by (auto simp: cycle_idle_iff split: if_splits)
  moreover have "\<exists>c < st_next_cycle ?st. p_cycle (st_procs ?st p) = Some c
      \<and> p \<in> set (cy_members (st_cycles ?st c))" if "p \<in> set (st_workers ?st)" for p
  proof -
    from that have "p \<in> set (st_workers st)" by simp
    from cycles_ok_member [OF MakeCycle(3) this] show ?thesis
      by (metis alloc_frame(3) alloc_simps(6,7) fun_upd_other less_SucI nat_neq_iff)
  qed
  moreover have "c < st_next_cycle ?st" if "s_cycle (st_servs ?st s) = Some c" for s c
    using that cycles_ok_service [OF MakeCycle(3)] by (auto intro: less_SucI)
  moreover have "set (cy_members (st_cycles ?st c)) \<subseteq> {..<st_next_proc ?st}" for c
    using MakeCycle(1) cycles_ok_below [OF MakeCycle(3)] by simp
  ultimately show ?case unfolding cycles_ok_def by blast
next
  case (RetireCycle st c)
  let ?st = "upd_cycle c (\<lambda>cy. cy\<lparr>cy_retiring := True\<rparr>) st"
  have "cycle_idle ?st d \<longleftrightarrow> cycle_idle st d" for d by (simp add: cycle_idle_iff)
  moreover have "cy_members (st_cycles ?st d) = cy_members (st_cycles st d)"
    and "cy_retiring (st_cycles ?st d) \<longleftrightarrow> d = c \<or> cy_retiring (st_cycles st d)" for d by auto
  ultimately show ?case
    using RetireCycle(1,3) by (auto simp: cycles_ok_def simp del: upd_cycle_simps(2)) 
next
  case (Enroll s st c scope now)
  show ?case
    unfolding cycles_ok_def cycle_idle_iff
  proof (intro conjI allI impI ballI)
    fix d q assume "cy_retiring (st_cycles (enrolled s c scope now st) d)"
      "q \<in> set (cy_members (st_cycles (enrolled s c scope now st) d))"
      "p_stopping (st_procs (enrolled s c scope now st) q) = 0"
    then have d: "cy_retiring (st_cycles st d)" "d \<noteq> c" "q \<in> set (cy_members (st_cycles st d))"
        "q \<noteq> st_next_proc st \<longrightarrow> p_stopping (st_procs st q) = 0"
      using Enroll(4) by (auto split: if_splits)
    then have "q \<noteq> st_next_proc st" using Enroll(7) unfolding cycles_ok_def by blast
    with d Enroll(7) show "p_exited (st_procs (enrolled s c scope now st) q)"
      by (auto simp: cycles_ok_def cycle_idle_iff)
  next
    fix q assume "q \<in> set (st_workers (enrolled s c scope now st))"
    with Enroll show "\<exists>d < st_next_cycle (enrolled s c scope now st).
        p_cycle (st_procs (enrolled s c scope now st) q) = Some d
        \<and> q \<in> set (cy_members (st_cycles (enrolled s c scope now st) d))"
      by (fastforce simp: cycles_ok_def new_process_def)
  next
    fix t d assume "s_cycle (st_servs (enrolled s c scope now st) t) = Some d"
    with Enroll show "d < st_next_cycle (enrolled s c scope now st)"
      by (auto simp: cycles_ok_def split: if_splits)
  next
    fix d show "set (cy_members (st_cycles (enrolled s c scope now st) d))
        \<subseteq> {..<st_next_proc (enrolled s c scope now st)}"
      using cycles_ok_below [OF Enroll(7), of d] by (auto simp: less_Suc_eq)
  qed
next
  case (Forget st p c)
  then show ?case by (intro cycles_ok_members [OF Forget(3)]) (auto split: if_splits)
next
  case (Unreserve st p c)
  then show ?case by (intro cycles_ok_members [OF Unreserve(3)]) (auto split: if_splits)
next
  case (UpdateService st s f)
  then show ?case by (intro cycles_ok_mono [OF UpdateService(3)]) (auto simp: kept_service_def)
next
  case (SetCycle c st s)
  then show ?case by (auto simp: cycles_ok_def cycle_idle_iff)
next
  case (Schedule st s)
  then show ?case by (intro cycles_ok_mono [OF Schedule(4)]) auto
qed (auto simp: cycles_ok_def cycle_idle_iff)

lemma reconfigure_cycles_ok: "reconfigure st st' \<Longrightarrow> cycles_ok st \<Longrightarrow> cycles_ok st'"
proof (induction rule: reconfigure.induct)
  case (DropService st name s)
  then show ?case by (intro cycles_ok_mono [OF DropService(3)]) auto
next
  case (Install service name st)
  then show ?case by (intro cycles_ok_mono [OF Install(7)]) auto
qed

subsection \<open>Every running process is supervised\<close>

definition supervised :: "store \<Rightarrow> bool" where
  "supervised st \<longleftrightarrow> (\<forall>p. \<not> p_pending (st_procs st p) \<and> \<not> p_exited (st_procs st p) \<longrightarrow> p \<in> set (st_workers st))"

lemma move_supervised: "move st st' \<Longrightarrow> supervised st \<Longrightarrow> supervised st'"
proof (induction rule: move.induct)
  case (Report st p f)
  then show ?case by (auto simp: supervised_def benign_def)
qed (auto simp: supervised_def same_core_def new_process_def)

lemma reconfigure_supervised: "reconfigure st st' \<Longrightarrow> supervised st \<Longrightarrow> supervised st'"
  by (induction rule: reconfigure.induct) (auto simp: supervised_def installed_procs)

subsection \<open>Every move keeps the services\<close>

definition worker_limit :: "app \<Rightarrow> int" where
  "worker_limit app = (if app_schedule app = [] then app_max_workers app else execution_limit app)"

definition service_ok :: "store \<Rightarrow> go_string \<Rightarrow> service_id \<Rightarrow> bool" where
  "service_ok st n s \<longleftrightarrow> (let service = st_servs st s; app = s_config service in
     s_name service = n \<and> s < st_next_serv st \<and> distinct (s_workers service)
     \<and> (\<forall>p \<in> set (s_workers service). p \<in> set (st_workers st) \<and> p_service (st_procs st p) = s)
     \<and> (s_scheduled service \<longrightarrow> app_schedule app \<noteq> [] \<and> executions st n < execution_limit app)
     \<and> (0 < available st s \<longrightarrow> available st s \<le> worker_limit app))"

definition worker_ok :: "store \<Rightarrow> proc_id \<Rightarrow> bool" where
  "worker_ok st p \<longleftrightarrow> (let child = st_procs st p; s = p_service child in
     p < st_next_proc st \<and> s < st_next_serv st \<and> p \<in> set (s_workers (st_servs st s))
     \<and> (p_stopping child = 0 \<and> \<not> p_exited child \<longrightarrow>
          s \<in> snd ` set (st_services st) \<and> p_config child = s_config (st_servs st s)))"

definition services_ok :: "store \<Rightarrow> bool" where
  "services_ok st \<longleftrightarrow> distinct (map fst (st_services st)) \<and> distinct (st_workers st)
     \<and> (\<forall>n s. (n, s) \<in> set (st_services st) \<longrightarrow> service_ok st n s)
     \<and> (\<forall>p \<in> set (st_workers st). worker_ok st p)
     \<and> (\<forall>s. 0 \<le> s_failures (st_servs st s))"

lemma services_okI:
  assumes "distinct (map fst (st_services st))" and "distinct (st_workers st)"
    and "\<And>n s. (n, s) \<in> set (st_services st) \<Longrightarrow> service_ok st n s"
    and "\<And>p. p \<in> set (st_workers st) \<Longrightarrow> worker_ok st p"
    and "\<And>s. 0 \<le> s_failures (st_servs st s)"
  shows "services_ok st"
  using assms by (simp add: services_ok_def)

lemma services_okD:
  assumes "services_ok st"
  shows "distinct (map fst (st_services st))" and "distinct (st_workers st)"
    and "(n, s) \<in> set (st_services st) \<Longrightarrow> service_ok st n s"
    and "p \<in> set (st_workers st) \<Longrightarrow> worker_ok st p"
    and "0 \<le> s_failures (st_servs st s)"
  using assms by (simp_all add: services_ok_def)

lemma service_name_unique:
  assumes "services_ok st" and "(n, s) \<in> set (st_services st)" and "(m, s) \<in> set (st_services st)"
  shows "n = m"
  using services_okD(3) [OF assms(1,2)] services_okD(3) [OF assms(1,3)] by (simp add: service_ok_def Let_def)

text \<open>The running workers of a service are executions of its application.\<close>

lemma available_executions:
  assumes "services_ok st" and "(n, s) \<in> set (st_services st)"
  shows "available st s \<le> executions st n"
proof -
  have s: "service_ok st n s" by (rule services_okD(3) [OF assms])
  let ?all = "filter (\<lambda>p. s_name (st_servs st (p_service (st_procs st p))) = n) (st_workers st)"
  have "set (running_workers st s) \<subseteq> set ?all"
    using s by (auto simp: running_workers_def service_ok_def Let_def)
  then have "card (set (running_workers st s)) \<le> card (set ?all)" by (intro card_mono) simp_all
  moreover have "distinct (running_workers st s)" "distinct ?all"
    using s services_okD(2) [OF assms(1)] by (simp_all add: running_workers_def service_ok_def Let_def)
  ultimately have "length (running_workers st s) \<le> length ?all" by (simp only: distinct_card)
  then show ?thesis by (simp add: available_def executions_def)
qed

lemma available_mono:
  assumes "s_workers (st_servs st' s) = s_workers (st_servs st s)"
    and "\<And>p. p_stopping (st_procs st' p) = 0 \<Longrightarrow> \<not> p_exited (st_procs st' p) \<Longrightarrow>
      p_stopping (st_procs st p) = 0 \<and> \<not> p_exited (st_procs st p)"
  shows "available st' s \<le> available st s"
  using assms by (auto simp: available_def running_workers_def intro!: length_filter_mono)

text \<open>Changes that leave the workers where they are and bring no process back.\<close>

lemma services_ok_mono:
  assumes ok: "services_ok st"
    and same: "st_services st' = st_services st" "st_workers st' = st_workers st"
      "st_next_proc st' = st_next_proc st" "st_next_serv st' = st_next_serv st"
    and servs: "\<And>s. kept_service (st_servs st s) (st_servs st' s)"
    and procs: "\<And>p. p_service (st_procs st' p) = p_service (st_procs st p)"
      "\<And>p. p_config (st_procs st' p) = p_config (st_procs st p)"
      "\<And>p. p_stopping (st_procs st' p) = 0 \<Longrightarrow> \<not> p_exited (st_procs st' p) \<Longrightarrow>
        p_stopping (st_procs st p) = 0 \<and> \<not> p_exited (st_procs st p)"
  shows "services_ok st'"
proof (rule services_okI)
  fix n s assume "(n, s) \<in> set (st_services st')"
  then have "service_ok st n s" using services_okD(3) [OF ok] same by simp
  moreover have "executions st' m = executions st m" for m
    using servs by (simp add: executions_def same procs kept_service_def)
  moreover have "available st' s \<le> available st s"
    using servs procs(3) by (intro available_mono) (auto simp: kept_service_def)
  ultimately show "service_ok st' n s"
    using servs [of s] by (auto simp: service_ok_def kept_service_def same procs Let_def)
next
  fix p assume "p \<in> set (st_workers st')"
  then have "worker_ok st p" using services_okD(4) [OF ok] same by simp
  then show "worker_ok st' p"
    using servs [of "p_service (st_procs st p)"] procs(3) [of p]
    by (auto simp: worker_ok_def kept_service_def same procs Let_def)
next
  fix s show "0 \<le> s_failures (st_servs st' s)"
    using services_okD(5) [OF ok] servs [of s] by (simp add: kept_service_def)
qed (use services_okD(1,2) [OF ok] same in simp_all)

lemma kept_refl [simp]: "kept_service x x"
  by (simp add: kept_service_def)

lemma services_ok_enroll:
  assumes ok: "services_ok st" and s: "s \<in> snd ` set (st_services st)"
    and free: "\<not> s_scheduled (st_servs st s)" "room st s"
  shows "services_ok (enrolled s c scope now st)"
proof (rule services_okI)
  let ?st = "enrolled s c scope now st" and ?p = "st_next_proc st"
  have fresh: "?p \<notin> set (st_workers st)"
    using services_okD(4) [OF ok] by (auto simp: worker_ok_def Let_def)
  then have own: "?p \<notin> set (s_workers (st_servs st t))" if "t \<in> snd ` set (st_services st)" for t
    using that services_okD(3) [OF ok] by (auto simp: service_ok_def Let_def)
  from s obtain m where m: "(m, s) \<in> set (st_services st)" by auto
  then have name: "s_name (st_servs st s) = m" using services_okD(3) [OF ok] by (auto simp: service_ok_def Let_def)
  let ?named = "\<lambda>k p. s_name (st_servs ?st (p_service (st_procs ?st p))) = k"
  have exec: "executions ?st k = executions st k + (if k = m then 1 else 0)" for k
  proof -
    have "filter (?named k) (st_workers st)
        = filter (\<lambda>p. s_name (st_servs st (p_service (st_procs st p))) = k) (st_workers st)"
      using fresh by (intro filter_cong) auto
    moreover have "filter (?named k) (st_workers ?st)
        = filter (?named k) (st_workers st) @ (if k = m then [?p] else [])"
      using fresh name by (simp add: set_insert_def)
    ultimately show ?thesis by (simp add: executions_def)
  qed
  let ?alive = "\<lambda>p. p_stopping (st_procs ?st p) = 0 \<and> \<not> p_exited (st_procs ?st p)"
  have avail: "available ?st t = available st t + (if t = s then 1 else 0)"
    if "t \<in> snd ` set (st_services st)" for t
  proof -
    have "filter ?alive (s_workers (st_servs st t)) = running_workers st t"
      unfolding running_workers_def using own [OF that] by (intro filter_cong) auto
    moreover have "running_workers ?st t
        = filter ?alive (s_workers (st_servs st t)) @ (if t = s then [?p] else [])"
      using own [OF that] own [OF s] by (simp add: running_workers_def set_insert_def)
    ultimately show ?thesis by (simp add: available_def)
  qed
  {
    fix n t assume nt: "(n, t) \<in> set (st_services ?st)"
    then have "service_ok st n t" using services_okD(3) [OF ok] by simp
    moreover have t: "t \<in> snd ` set (st_services st)" using nt by force
    moreover have "n = m \<longleftrightarrow> t = s"
      using nt m service_name_unique [OF ok] services_okD(1) [OF ok]
      by (auto dest: eq_key_imp_eq_value)
    ultimately show "service_ok ?st n t"
      using free name own [OF t] available_executions [OF ok m]
      by (auto simp: service_ok_def room_def worker_limit_def Let_def exec avail new_process_def)
  }
  {
    fix p assume "p \<in> set (st_workers ?st)"
    then consider "p = ?p" | "p \<in> set (st_workers st)" "p \<noteq> ?p" using fresh by auto
    then show "worker_ok ?st p"
    proof cases
      case 1
      with s m services_okD(3) [OF ok m] show ?thesis
        by (auto simp: worker_ok_def service_ok_def new_process_def Let_def)
    next
      case 2
      with services_okD(4) [OF ok 2(1)] show ?thesis
        by (auto simp: worker_ok_def Let_def)
    qed
  }
qed (use services_okD [OF ok] in auto)

lemma service_ok_le:
  assumes "service_ok st n t" and "s_name (st_servs st' t) = s_name (st_servs st t)"
    and "s_config (st_servs st' t) = s_config (st_servs st t)"
    and "s_scheduled (st_servs st' t) \<Longrightarrow> s_scheduled (st_servs st t)"
    and "st_next_serv st \<le> st_next_serv st'" and "distinct (s_workers (st_servs st' t))"
    and "\<And>p. p \<in> set (s_workers (st_servs st' t)) \<Longrightarrow> p \<in> set (st_workers st') \<and> p_service (st_procs st' p) = t"
    and "executions st' n \<le> executions st n" and "available st' t \<le> available st t"
  shows "service_ok st' n t"
proof -
  from assms(1) have "s_name (st_servs st t) = n" "t < st_next_serv st"
    "s_scheduled (st_servs st t) \<longrightarrow> app_schedule (s_config (st_servs st t)) \<noteq> []
       \<and> executions st n < execution_limit (s_config (st_servs st t))"
    "0 < available st t \<longrightarrow> available st t \<le> worker_limit (s_config (st_servs st t))"
    by (simp_all add: service_ok_def Let_def)
  with assms(2-) show ?thesis by (auto simp: service_ok_def Let_def)
qed

lemma removed_service:
  "s_name (st_servs (removed p s c st) t) = s_name (st_servs st t)"
  "s_config (st_servs (removed p s c st) t) = s_config (st_servs st t)"
  "s_scheduled (st_servs (removed p s c st) t) = s_scheduled (st_servs st t)"
  "s_failures (st_servs (removed p s c st) t) = s_failures (st_servs st t)"
  "s_workers (st_servs (removed p s c st) t) =
     (if t = s then set_delete p (s_workers (st_servs st t)) else s_workers (st_servs st t))"
  by simp_all

lemma services_ok_remove:
  assumes ok: "services_ok st"
  shows "services_ok (removed p (p_service (st_procs st p)) c st)"
proof (rule services_okI)
  let ?st = "removed p (p_service (st_procs st p)) c st"
  {
    fix n t assume "(n, t) \<in> set (st_services ?st)"
    then have t: "service_ok st n t" using services_okD(3) [OF ok] by simp
    have e: "executions ?st n \<le> executions st n"
    proof -
      have "filter (\<lambda>q. s_name (st_servs ?st (p_service (st_procs ?st q))) = n) (set_delete p (st_workers st))
          = filter (\<lambda>q. q \<noteq> p \<and> s_name (st_servs st (p_service (st_procs st q))) = n) (st_workers st)"
        by (auto simp: set_delete_def intro!: filter_cong)
      then show ?thesis by (auto simp: executions_def intro!: length_filter_mono)
    qed
    have a: "available ?st t \<le> available st t"
      by (auto simp: available_def running_workers_def set_delete_def intro!: length_filter_mono)
    show "service_ok ?st n t"
      using t by (intro service_ok_le [OF t _ _ _ _ _ _ e a])
        (auto simp: removed_service service_ok_def Let_def simp del: removed_simps(8) split: if_splits)
  }
  {
    fix q assume "q \<in> set (st_workers ?st)"
    then have "worker_ok st q" "q \<noteq> p" using services_okD(4) [OF ok] by auto
    then show "worker_ok ?st q" by (auto simp: worker_ok_def Let_def)
  }
qed (use services_okD [OF ok] in auto)

lemma services_ok_schedule:
  assumes ok: "services_ok st" and "room st s" and "app_schedule (s_config (st_servs st s)) \<noteq> []"
  shows "services_ok (upd_serv s (\<lambda>service. service\<lparr>s_scheduled := True\<rparr>) st)"
proof (rule services_okI)
  let ?st = "upd_serv s (\<lambda>service. service\<lparr>s_scheduled := True\<rparr>) st"
  have fields: "s_workers (st_servs ?st t) = s_workers (st_servs st t)"
    "s_name (st_servs ?st t) = s_name (st_servs st t)" "s_config (st_servs ?st t) = s_config (st_servs st t)" for t
    by auto
  have "executions ?st n = executions st n" "available ?st t = available st t" for n t
    by (simp_all add: executions_def available_def running_workers_def fields del: upd_serv_simps(5))
  then show "service_ok ?st n t" if "(n, t) \<in> set (st_services ?st)" for n t
    using services_okD(3) [OF ok, of n t] that assms(2,3)
    by (auto simp: service_ok_def room_def Let_def)
  show "worker_ok ?st p" if "p \<in> set (st_workers ?st)" for p
    using services_okD(4) [OF ok, of p] that by (auto simp: worker_ok_def Let_def)
qed (use services_okD [OF ok] in auto)

lemma services_ok_drop:
  assumes ok: "services_ok st" and s: "map_of (st_services st) name = Some s"
    and idle: "\<forall>p \<in> set (s_workers (st_servs st s)). p_stopping (st_procs st p) \<noteq> 0"
  shows "services_ok (st\<lparr>st_services := AList.delete name (st_services st)\<rparr>)"
proof (rule services_okI)
  let ?st = "st\<lparr>st_services := AList.delete name (st_services st)\<rparr>"
  show "distinct (map fst (st_services ?st))"
    using services_okD(1) [OF ok] by (simp add: distinct_delete)
  have "executions ?st n = executions st n" "available ?st t = available st t" for n t
    by (simp_all add: executions_def available_def running_workers_def)
  then show "service_ok ?st n t" if "(n, t) \<in> set (st_services ?st)" for n t
    using services_okD(3) [OF ok, of n t] that by (auto simp: service_ok_def AList.delete_eq Let_def)
  show "worker_ok ?st p" if "p \<in> set (st_workers ?st)" for p
  proof -
    from that have w: "worker_ok st p" using services_okD(4) [OF ok] by simp
    have keep: "t \<in> snd ` set (AList.delete name (st_services st))"
      if "t \<noteq> s" "t \<in> snd ` set (st_services st)" for t
    proof -
      from that(2) obtain n where n: "(n, t) \<in> set (st_services st)" by auto
      with that(1) s services_okD(1) [OF ok] have "n \<noteq> name"
        using map_of_is_SomeI by fastforce
      with n show ?thesis by (force simp: AList.delete_eq)
    qed
    let ?s = "p_service (st_procs st p)"
    have "p_stopping (st_procs st p) \<noteq> 0" if "?s = s"
      using that w idle by (auto simp: worker_ok_def Let_def)
    with w keep [of ?s] show ?thesis
      unfolding worker_ok_def Let_def by (cases "?s = s") simp_all
  qed
qed (use services_okD [OF ok] in auto)

lemma update_entry:
  "distinct (map fst xs) \<Longrightarrow>
   (m, t) \<in> set (AList.update n v xs) \<longleftrightarrow> (if m = n then t = v else (m, t) \<in> set xs)"
  using map_of_eq_Some_iff [of xs m t] map_of_eq_Some_iff [of "AList.update n v xs" m t]
  by (simp add: distinct_update update_conv' eq_commute)

lemma services_ok_install:
  assumes ok: "services_ok st" and sv: "s_name sv = name" "\<not> s_scheduled sv" "s_failures sv = 0"
    and workers: "s_workers sv = (case map_of (st_services st) name of None \<Rightarrow> [] | Some s \<Rightarrow> s_workers (st_servs st s))"
    and idle: "\<forall>p \<in> set (s_workers sv). p_stopping (st_procs st p) \<noteq> 0"
  shows "services_ok (installed name sv st)"
proof (rule services_okI)
  let ?st = "installed name sv st" and ?new = "st_next_serv st"
  note entry = update_entry [OF services_okD(1) [OF ok], of _ _ name ?new]
  show "distinct (map fst (st_services ?st))"
    using services_okD(1) [OF ok] by (simp add: distinct_update)
  have old: "s_workers sv \<noteq> [] \<Longrightarrow> \<exists>s. (name, s) \<in> set (st_services st) \<and> s_workers sv = s_workers (st_servs st s)"
    using workers by (auto split: option.splits dest: map_of_SomeD)
  have adopted: "p \<in> set (st_workers st) \<and> s_name (st_servs st (p_service (st_procs st p))) = name"
    if "p \<in> set (s_workers sv)" for p
    using old that services_okD(3) [OF ok] by (force simp: service_ok_def Let_def)
  have "executions ?st n = executions st n" for n
  proof -
    have "s_name (st_servs ?st (p_service (st_procs ?st p))) = s_name (st_servs st (p_service (st_procs st p)))"
      if "p \<in> set (st_workers st)" for p
      using that services_okD(4) [OF ok that] adopted sv(1)
      by (auto simp: installed_procs worker_ok_def Let_def)
    then show ?thesis by (simp add: executions_def cong: filter_cong)
  qed
  moreover have "available ?st t = available st t" if "t \<noteq> ?new" for t
    using that by (simp add: available_def running_workers_def)
  moreover have "available ?st ?new = 0"
    using idle by (auto simp: available_def running_workers_def filter_empty_conv)
  ultimately show "service_ok ?st n t" if nt: "(n, t) \<in> set (st_services ?st)" for n t
  proof (cases "n = name")
    case True
    with nt have "t = ?new" by (simp add: entry)
    moreover have "distinct (s_workers sv)"
      using old services_okD(3) [OF ok] by (cases "s_workers sv = []") (auto simp: service_ok_def Let_def)
    ultimately show ?thesis
      using True sv adopted \<open>available ?st ?new = 0\<close> by (auto simp: service_ok_def installed_procs Let_def)
  next
    case False
    with nt have "service_ok st n t" using services_okD(3) [OF ok] by (simp add: entry)
    moreover have "p \<notin> set (s_workers sv)" if "p \<in> set (s_workers (st_servs st t))" for p
      using adopted [of p] that \<open>service_ok st n t\<close> False by (auto simp: service_ok_def Let_def)
    ultimately show ?thesis
      using \<open>\<And>n. executions ?st n = executions st n\<close> \<open>\<And>t. t \<noteq> ?new \<Longrightarrow> available ?st t = available st t\<close>
      by (auto simp: service_ok_def installed_procs Let_def)
  qed
  show "worker_ok ?st p" if p: "p \<in> set (st_workers ?st)" for p
  proof (cases "p \<in> set (s_workers sv)")
    case True
    with p idle services_okD(4) [OF ok, of p] show ?thesis
      by (auto simp: worker_ok_def installed_procs Let_def)
  next
    case False
    from p have w: "worker_ok st p" using services_okD(4) [OF ok] by simp
    have "t \<in> snd ` set (AList.update name ?new (st_services st))"
      if "t = p_service (st_procs st p)" and t: "t \<in> snd ` set (st_services st)" for t
    proof -
      from t obtain n where n: "(n, t) \<in> set (st_services st)" by auto
      have "n \<noteq> name"
      proof
        assume "n = name"
        then have "s_workers sv = s_workers (st_servs st t)"
          using n workers services_okD(1) [OF ok] by (simp add: map_of_eq_Some_iff [THEN iffD2])
        with w False that(1) show False by (auto simp: worker_ok_def Let_def)
      qed
      with n have "(n, t) \<in> set (AList.update name ?new (st_services st))" by (simp add: entry)
      then show ?thesis by force
    qed
    with w False show ?thesis by (auto simp: worker_ok_def installed_procs Let_def)
  qed
  show "0 \<le> s_failures (st_servs ?st s)" for s
    using services_okD(5) [OF ok] sv(3) by simp
qed (use services_okD [OF ok] in simp)

lemma move_services_ok: "move st st' \<Longrightarrow> services_ok st \<Longrightarrow> services_ok st'"
proof (induction rule: move.induct)
  case (Other st st')
  then show ?case by (intro services_ok_mono [OF Other(2)]) (auto simp: same_core_def)
next
  case (Report st p f)
  then show ?case by (intro services_ok_mono [OF Report(2)]) (auto simp: benign_def split: if_splits)
next
  case (Unready st p)
  then show ?case by (intro services_ok_mono [OF Unready(1)]) (auto split: if_splits)
next
  case (BecomeReady st p)
  then show ?case by (intro services_ok_mono [OF BecomeReady(5)]) (auto split: if_splits)
next
  case (MarkStopping st p now)
  then show ?case by (intro services_ok_mono [OF MarkStopping(3)]) (auto split: if_splits)
next
  case (MarkExited st p)
  then show ?case by (intro services_ok_mono [OF MarkExited(3)]) (auto split: if_splits)
next
  case (Abandon st p)
  then show ?case by (intro services_ok_mono [OF Abandon(4)]) (auto split: if_splits)
next
  case (SendStop st p es now)
  then show ?case by (intro services_ok_mono [OF SendStop(6)]) (auto split: if_splits)
next
  case (Kill st p now)
  then show ?case by (intro services_ok_mono [OF Kill(7)]) (auto split: if_splits)
next
  case (Start st p pid executed vals service now)
  then show ?case by (intro services_ok_mono [OF Start(8)]) (auto split: if_splits)
next
  case (Enroll s st c scope now)
  then show ?case by (intro services_ok_enroll)
next
  case (UpdateService st s f)
  then show ?case by (intro services_ok_mono [OF UpdateService(2)]) auto
next
  case (SetCycle c st s)
  have "s_name (st_servs (upd_serv s (s_cycle_update (\<lambda>_. Some c)) st) t) = s_name (st_servs st t)"
    and "s_config (st_servs (upd_serv s (s_cycle_update (\<lambda>_. Some c)) st) t) = s_config (st_servs st t)"
    and "s_workers (st_servs (upd_serv s (s_cycle_update (\<lambda>_. Some c)) st) t) = s_workers (st_servs st t)"
    and "s_scheduled (st_servs (upd_serv s (s_cycle_update (\<lambda>_. Some c)) st) t) = s_scheduled (st_servs st t)"
    and "s_failures (st_servs (upd_serv s (s_cycle_update (\<lambda>_. Some c)) st) t) = s_failures (st_servs st t)"
    for t by auto
  with SetCycle(2) show ?case
    by (simp add: services_ok_def service_ok_def worker_ok_def executions_def available_def
        running_workers_def Let_def del: upd_serv_simps(5))
next
  case (Schedule st s)
  then show ?case by (intro services_ok_schedule)
next
  case (Forget st p c)
  then show ?case by (intro services_ok_remove)
next
  case (Unreserve st p c)
  then show ?case by (intro services_ok_remove)
qed (auto elim!: services_ok_mono)

lemma reconfigure_services_ok: "reconfigure st st' \<Longrightarrow> services_ok st \<Longrightarrow> services_ok st'"
  by (induction rule: reconfigure.induct) (auto intro: services_ok_drop services_ok_install)

definition inv :: "store \<Rightarrow> bool" where
  "inv st \<longleftrightarrow> procs_ok st \<and> effects_ok st \<and> runs_ok st \<and> cycles_ok st \<and> services_ok st
     \<and> supervised st"

lemma workers_below: "services_ok st \<Longrightarrow> set (st_workers st) \<subseteq> {..<st_next_proc st}"
  using services_okD(4) by (auto simp: worker_ok_def Let_def)

lemma move_inv: "move st st' \<Longrightarrow> inv st \<Longrightarrow> inv st'"
  using move_procs_ok move_effects_ok move_runs_ok move_cycles_ok move_services_ok move_supervised
    workers_below
  unfolding inv_def by blast

lemma moves_inv: "moves st st' \<Longrightarrow> inv st \<Longrightarrow> inv st'"
  by (induction rule: rtranclp_induct) (auto intro: move_inv)

lemma reconfigure_inv: "reconfigure st st' \<Longrightarrow> inv st \<Longrightarrow> inv st'"
  unfolding inv_def
  using reconfigure_procs_ok reconfigure_effects_ok reconfigure_runs_ok reconfigure_cycles_ok
    reconfigure_services_ok reconfigure_supervised by blast

lemma steps_inv: "steps st st' \<Longrightarrow> inv st \<Longrightarrow> inv st'"
  by (induction rule: rtranclp_induct) (auto intro: move_inv reconfigure_inv)

lemma moves_steps: "moves st st' \<Longrightarrow> steps st st'"
  by (rule rtranclp_mono [THEN predicate2D, rotated]) auto

text \<open>Only a new configuration changes which services there are and how they are configured.\<close>

definition stable :: "store \<Rightarrow> store \<Rightarrow> bool" where
  "stable st st' \<longleftrightarrow> st_services st' = st_services st \<and> st_next_serv st' = st_next_serv st
     \<and> (\<forall>s. s_name (st_servs st' s) = s_name (st_servs st s) \<and> s_config (st_servs st' s) = s_config (st_servs st s))"

lemma stable_refl: "stable st st"
  by (simp add: stable_def)

lemma stable_trans: "stable st st1 \<Longrightarrow> stable st1 st2 \<Longrightarrow> stable st st2"
  by (simp add: stable_def)

lemma move_stable: "move st st' \<Longrightarrow> stable st st'"
  by (induction rule: move.induct) (auto simp: stable_def same_core_def kept_service_def)

lemma moves_stable: "moves st st' \<Longrightarrow> stable st st'"
  by (induction rule: rtranclp_induct) (auto intro: stable_refl stable_trans move_stable)

subsection \<open>What is never taken back\<close>

text \<open>
  A worker keeps its configuration and generation, its stop time once it has one, its exit, its
  pid once started; a retired generation stays retired and a cancelled action cancelled.
\<close>

definition evolves :: "store \<Rightarrow> store \<Rightarrow> bool" where
  "evolves st st' \<longleftrightarrow>
     prefix (st_effects st) (st_effects st') \<and> st_next_proc st \<le> st_next_proc st'
     \<and> st_next_cycle st \<le> st_next_cycle st' \<and> st_next_run st \<le> st_next_run st'
     \<and> (\<forall>p < st_next_proc st. let x = st_procs st p; y = st_procs st' p in
          p_config y = p_config x \<and> p_cycle y = p_cycle x \<and> p_scope y = p_scope x
          \<and> p_started y = p_started x
          \<and> (p_stopping x \<noteq> 0 \<longrightarrow> p_stopping y = p_stopping x) \<and> (p_exited x \<longrightarrow> p_exited y)
          \<and> (\<not> p_pending x \<longrightarrow> \<not> p_pending y \<and> p_pid y = p_pid x \<and> p_executed y = p_executed x)
          \<and> (p_was_ready x \<longrightarrow> p_was_ready y) \<and> (p_killed x \<longrightarrow> p_killed y)
          \<and> (p_stop_sent x \<longrightarrow> p_stop_sent y))
     \<and> (\<forall>c < st_next_cycle st. cy_retiring (st_cycles st c) \<longrightarrow> cy_retiring (st_cycles st' c))
     \<and> (\<forall>r < st_next_run st. ru_cancelled (st_runs st r) \<longrightarrow> ru_cancelled (st_runs st' r))"

lemma evolves_refl: "evolves st st"
  by (simp add: evolves_def Let_def)

lemma evolves_trans:
  assumes "evolves st st1" and "evolves st1 st2"
  shows "evolves st st2"
  using assms unfolding evolves_def Let_def
  by (auto dest: less_le_trans)

lemma move_evolves: "move st st' \<Longrightarrow> evolves st st'"
proof (induction rule: move.induct)
  case (Other st st')
  then show ?case by (auto simp: same_core_def evolves_def Let_def)
next
  case (Report st p f)
  then show ?case by (auto simp: benign_def evolves_def Let_def)
next
  case (UpdateRun st r f)
  then show ?case by (auto simp: kept_run_def evolves_def Let_def)
qed (auto simp: evolves_def Let_def)

lemma reconfigure_evolves: "reconfigure st st' \<Longrightarrow> evolves st st'"
  by (induction rule: reconfigure.induct) (auto simp: installed_procs evolves_def Let_def)

lemma steps_evolves: "steps st st' \<Longrightarrow> evolves st st'"
  by (induction rule: rtranclp_induct) (auto intro: evolves_refl evolves_trans move_evolves reconfigure_evolves)

lemma moves_evolves: "moves st st' \<Longrightarrow> evolves st st'"
  by (intro steps_evolves moves_steps)


subsection \<open>What is never done again\<close>

text \<open>
  A cancelled action does not run again, a worker told to stop is not launched, and a retired
  generation gets no new member.
\<close>

fun is_run :: "run_id \<Rightarrow> effect \<Rightarrow> bool" where
  "is_run r (RunAction q _) \<longleftrightarrow> q = r"
| "is_run r _ \<longleftrightarrow> False"

definition runs_started :: "effect list \<Rightarrow> run_id \<Rightarrow> nat" where
  "runs_started es r = length (filter (is_run r) es)"

lemma is_run_iff: "is_run r e \<longleftrightarrow> (\<exists>v. e = RunAction r v)"
  by (cases e) auto

lemma runs_started_append [simp]: "runs_started (es @ fs) r = runs_started es r + runs_started fs r"
  by (simp add: runs_started_def)

lemma runs_started_simps [simp]:
  "runs_started [] r = 0"
  "runs_started (e # es) r = (if \<exists>v. e = RunAction r v then Suc (runs_started es r) else runs_started es r)"
  by (simp_all add: runs_started_def is_run_iff)

lemma launches_append: "launches (es @ fs) p = launches es p + launches fs p"
  by (simp add: launches_def)

lemma quiet_counts: "\<forall>e \<in> set es. quiet e \<Longrightarrow> runs_started es r = 0 \<and> launches es p = 0"
  by (auto simp: runs_started_def launches_def filter_empty_conv is_run_iff effect_kinds)

definition fenced :: "store \<Rightarrow> store \<Rightarrow> bool" where
  "fenced st st' \<longleftrightarrow>
     (\<forall>r < st_next_run st. ru_cancelled (st_runs st r) \<longrightarrow>
        runs_started (st_effects st') r = runs_started (st_effects st) r)
     \<and> (\<forall>p < st_next_proc st. p_stopping (st_procs st p) \<noteq> 0 \<longrightarrow>
        launches (st_effects st') p = launches (st_effects st) p)
     \<and> (\<forall>c < st_next_cycle st. cy_retiring (st_cycles st c) \<longrightarrow>
        set (cy_members (st_cycles st' c)) \<subseteq> set (cy_members (st_cycles st c)))"

lemma fenced_refl: "fenced st st"
  by (simp add: fenced_def)

lemma fenced_trans:
  assumes "fenced st st1" and "evolves st st1" and "fenced st1 st2"
  shows "fenced st st2"
  unfolding fenced_def
proof (intro conjI allI impI)
  fix r assume r: "r < st_next_run st" "ru_cancelled (st_runs st r)"
  then have "r < st_next_run st1" "ru_cancelled (st_runs st1 r)"
    using assms(2) by (auto simp: evolves_def)
  with r assms(1,3) show "runs_started (st_effects st2) r = runs_started (st_effects st) r"
    by (simp add: fenced_def)
next
  fix p assume p: "p < st_next_proc st" "p_stopping (st_procs st p) \<noteq> 0"
  then have "p < st_next_proc st1" "p_stopping (st_procs st1 p) \<noteq> 0"
    using assms(2) by (auto simp: evolves_def Let_def)
  with p assms(1,3) show "launches (st_effects st2) p = launches (st_effects st) p"
    by (simp add: fenced_def)
next
  fix c assume c: "c < st_next_cycle st" "cy_retiring (st_cycles st c)"
  then have "c < st_next_cycle st1" "cy_retiring (st_cycles st1 c)"
    using assms(2) by (auto simp: evolves_def)
  with c assms(1,3) show "set (cy_members (st_cycles st2 c)) \<subseteq> set (cy_members (st_cycles st c))"
    unfolding fenced_def by blast
qed

lemma move_fenced: "move st st' \<Longrightarrow> fenced st st'"
proof (induction rule: move.induct)
  case (Other st st')
  then show ?case by (auto simp: same_core_def fenced_def launches_append quiet_counts)
next
  case (SendStop st p es now)
  then show ?case by (auto simp: fenced_def stop_effects_def launches_append) (auto simp: launches_def)
qed (auto simp: fenced_def)

lemma reconfigure_fenced: "reconfigure st st' \<Longrightarrow> fenced st st'"
  by (induction rule: reconfigure.induct) (auto simp: fenced_def)

lemma steps_fenced: "steps st st' \<Longrightarrow> fenced st st'"
proof (induction rule: rtranclp_induct)
  case (step st1 st2)
  then have "fenced st1 st2" using move_fenced reconfigure_fenced by auto
  with step show ?case using fenced_trans steps_evolves by blast
qed (rule fenced_refl)

end
