(* ===== verification/Operations.thy ===== *)
theory Operations
  imports Moves
begin

text \<open>
  Every operation of the supervisor is a sequence of the moves of \<open>Moves\<close>, so it keeps their
  invariants.  The lemmas go through the operations in the order in which they call each other.
\<close>

subsection \<open>Sequences of moves\<close>

lemma move_moves: "move st st' \<Longrightarrow> moves st st'"
  by (rule r_into_rtranclp)

lemma moves_refl: "moves st st"
  by simp

lemma moves_then: "moves st st1 \<Longrightarrow> (inv st1 \<Longrightarrow> moves st1 st2) \<Longrightarrow> inv st \<Longrightarrow> moves st st2"
  using moves_inv by (metis rtranclp_trans)

lemma move_then: "move st st1 \<Longrightarrow> (inv st1 \<Longrightarrow> moves st1 st2) \<Longrightarrow> inv st \<Longrightarrow> moves st st2"
  using moves_then move_moves by blast

lemma moves_fold:
  "(\<And>x st. x \<in> set xs \<Longrightarrow> inv st \<Longrightarrow> moves st (f x st)) \<Longrightarrow> inv st \<Longrightarrow> moves st (fold f xs st)"
proof (induction xs arbitrary: st)
  case (Cons x xs)
  then show ?case by (auto intro: moves_then)
qed simp

lemma inv_procD: "inv st \<Longrightarrow> proc_ok (st_procs st p)"
  by (simp add: inv_def procs_ok_def)

lemma inv_has_scope: "inv st \<Longrightarrow> p_scope (st_procs st p) \<noteq> None \<and> p_cycle (st_procs st p) \<noteq> None"
  using inv_procD [of st p] by (auto simp: proc_ok_def)

subsection \<open>Simple changes\<close>

lemma moves_report: "benign (st_procs st p) (f (st_procs st p)) \<Longrightarrow> moves st (upd_proc p f st)"
  by (intro move_moves Report)

lemma moves_service: "kept_service (st_servs st s) (f (st_servs st s)) \<Longrightarrow> moves st (upd_serv s f st)"
  by (intro move_moves UpdateService)

lemma moves_other: "same_core st st' \<Longrightarrow> moves st st'"
  by (intro move_moves Other)

lemma moves_emit: "quiet e \<Longrightarrow> moves st (emit e st)"
  by (intro moves_other) (auto simp: same_core_def)

lemma moves_observe: "moves st (observe_pressure s now st)"
  unfolding observe_pressure_def by (intro moves_service) (simp add: kept_service_def)

lemma moves_backoff: "moves st (backoff s now st)"
  unfolding backoff_def by (intro moves_service) (simp add: kept_service_def)

lemma moves_demand: "moves st (upd_serv s (\<lambda>service. service\<lparr>s_demand := d\<rparr>) st)"
  by (intro moves_service) (simp add: kept_service_def)

lemma moves_fatal: "moves st (set_fatal e st)"
  by (intro moves_other) (auto simp: same_core_def set_fatal_def)

lemma moves_list: "moves st (upd_list l f st)"
  by (intro moves_other) (auto simp: same_core_def)

lemma moves_failed: "moves st (set_failed p st)"
  unfolding set_failed_def by (intro moves_report) (simp add: benign_def)

subsection \<open>Actions\<close>

text \<open>Actions leave the workers, services and generations alone.\<close>

definition same_workers :: "store \<Rightarrow> store \<Rightarrow> bool" where
  "same_workers st st' \<longleftrightarrow> st_procs st' = st_procs st \<and> st_cycles st' = st_cycles st
     \<and> st_servs st' = st_servs st \<and> st_workers st' = st_workers st \<and> st_services st' = st_services st
     \<and> st_next_proc st' = st_next_proc st \<and> st_next_cycle st' = st_next_cycle st
     \<and> st_next_scope st' = st_next_scope st"

lemma same_workers_refl [simp]: "same_workers st st"
  by (simp add: same_workers_def)

lemma same_workers_trans: "same_workers st st1 \<Longrightarrow> same_workers st1 st2 \<Longrightarrow> same_workers st st2"
  by (simp add: same_workers_def)

lemma same_workers_fold:
  "(\<And>x st. same_workers st (f x st)) \<Longrightarrow> same_workers st (fold f xs st)"
  by (induction xs arbitrary: st) (auto intro: same_workers_trans)

lemma cancel_run_moves: "moves st (cancel_run r st)"
proof -
  have m: "move st (upd_run r (\<lambda>run. run\<lparr>ru_cancelled := True\<rparr>) st)"
    by (intro UpdateRun) (simp add: kept_run_def)
  moreover have "moves (upd_run r (\<lambda>run. run\<lparr>ru_cancelled := True\<rparr>) st) (cancel_run r st)"
    by (auto simp: cancel_run_def Let_def intro: moves_emit)
  ultimately show ?thesis by (rule converse_rtranclp_into_rtranclp)
qed

lemma cancel_run_same: "same_workers st (cancel_run r st)"
  by (simp add: cancel_run_def same_workers_def Let_def)

lemma cancel_checks_moves: "inv st \<Longrightarrow> moves st (cancel_checks scope st)"
  unfolding cancel_checks_def
  by (auto split: option.split prod.split intro!: moves_fold cancel_run_moves)

lemma cancel_checks_same: "same_workers st (cancel_checks scope st)"
  unfolding cancel_checks_def
  by (auto split: option.split prod.split intro!: same_workers_fold cancel_run_same)

lemma cancel_phase_moves: "inv st \<Longrightarrow> moves st (cancel_phase scope event st)"
  unfolding cancel_phase_def by (auto split: option.split intro!: moves_fold cancel_run_moves)

lemma cancel_phase_same: "same_workers st (cancel_phase scope event st)"
  unfolding cancel_phase_def by (auto split: option.split intro!: same_workers_fold cancel_run_same)

lemma alloc_runs:
  "\<forall>run \<in> set runs. \<not> ru_running run \<Longrightarrow> inv st \<Longrightarrow>
     moves st (fold alloc_run runs st) \<and> same_workers st (fold alloc_run runs st)
     \<and> st_next_run (fold alloc_run runs st) = st_next_run st + length runs"
proof (induction runs arbitrary: st)
  case (Cons run runs)
  then have m: "move st (alloc_run run st)" by (intro MakeRun) simp
  moreover have "same_workers st (alloc_run run st)"
    by (simp add: same_workers_def) (simp add: alloc_run_def)
  ultimately show ?case
    using Cons.IH [of "alloc_run run st"] Cons.prems move_inv [OF m]
    by (auto intro: same_workers_trans converse_rtranclp_into_rtranclp)
qed simp

lemma phase_runs_moves:
  assumes "inv st" and "phase_runs s event st = (st', runs)"
  shows "moves st st' \<and> same_workers st st' \<and> (\<forall>r \<in> set runs. r < st_next_run st')"
proof (cases "map_of (sc_runs (st_scopes st s)) event")
  case (Some rs)
  then have "(event, rs) \<in> set (sc_runs (st_scopes st s))" by (rule map_of_SomeD)
  with assms Some show ?thesis
    by (force simp: phase_runs_def inv_def runs_ok_def)
next
  case None
  let ?bs = "event_bindings (st_scopes st s) event"
  let ?st1 = "fold alloc_run (map (new_run s event) ?bs) st"
  have "\<forall>run \<in> set (map (new_run s event) ?bs). \<not> ru_running run" by (auto simp: new_run_def)
  from alloc_runs [OF this assms(1)]
  have st1: "moves st ?st1" "same_workers st ?st1" "st_next_run ?st1 = st_next_run st + length ?bs"
    by simp_all
  have st': "st' = upd_scope s (\<lambda>sc. sc\<lparr>sc_runs := sc_runs sc @ [(event, runs)]\<rparr>) ?st1"
    and runs: "runs = [st_next_run st ..< st_next_run st + length ?bs]"
    using assms(2) None by (auto simp: phase_runs_def Let_def)
  have "move ?st1 st'" unfolding st' by (intro KeepRuns) (simp add: st1(3) runs)
  moreover have "same_workers ?st1 st'" by (simp add: st' same_workers_def)
  ultimately show ?thesis
    using st1 by (auto simp: st' runs intro: rtranclp.rtrancl_into_rtrancl same_workers_trans)
qed

lemma phase_loop_moves:
  "\<forall>r \<in> set runs. r < st_next_run st \<Longrightarrow>
     moves st (fst (phase_loop s event now runs st ok)) \<and> same_workers st (fst (phase_loop s event now runs st ok))"
proof (induction runs arbitrary: st ok)
  case (Cons r runs)
  define st1 where "st1 = (if run_due (st_runs st r) event now
    then start_run r (scope_values st s event now) st else st)"
  have "moves st st1 \<and> same_workers st st1 \<and> st_next_run st1 = st_next_run st"
  proof (cases "run_due (st_runs st r) event now")
    case True
    then have "move st st1"
      using Cons.prems unfolding st1_def by (auto simp: run_due_def intro!: StartRun)
    with True show ?thesis by (auto simp: st1_def same_workers_def) (simp add: start_run_def)
  qed (simp add: st1_def)
  then show ?case
    using Cons.IH [of st1] Cons.prems
    by (auto simp: Let_def simp flip: st1_def intro: rtranclp_trans same_workers_trans)
qed simp

lemma phase_moves:
  assumes "inv st" and "phase scope event now st = (st', ok)"
  shows "moves st st'" and "same_workers st st'"
proof -
  have "moves st st' \<and> same_workers st st'"
  proof (cases scope)
    case (Some s)
    obtain st1 runs where r: "phase_runs s event st = (st1, runs)" by (cases "phase_runs s event st")
    from phase_runs_moves [OF assms(1) r] phase_loop_moves [of runs st1 s event now True] show ?thesis
      using assms(2) Some r by (auto simp: phase_def intro: rtranclp_trans same_workers_trans)
  qed (use assms in \<open>simp add: phase_def\<close>)
  then show "moves st st'" and "same_workers st st'" by auto
qed

lemma phase_inv: "inv st \<Longrightarrow> phase scope event now st = (st', ok) \<Longrightarrow> inv st'"
  using phase_moves moves_inv by blast

subsection \<open>The life of a worker\<close>

lemma same_workersD:
  assumes "same_workers st st'"
  shows "st_procs st' = st_procs st" "st_cycles st' = st_cycles st" "st_servs st' = st_servs st"
    "st_workers st' = st_workers st" "st_services st' = st_services st"
    "st_next_proc st' = st_next_proc st" "st_next_cycle st' = st_next_cycle st"
    "st_next_scope st' = st_next_scope st"
  using assms by (simp_all add: same_workers_def)

text \<open>A step that leaves the workers alone, followed by the rest.\<close>

lemma same_then:
  "inv st \<Longrightarrow> moves st st1 \<Longrightarrow> same_workers st st1 \<Longrightarrow>
   (inv st1 \<Longrightarrow> st_procs st1 = st_procs st \<Longrightarrow> st_cycles st1 = st_cycles st \<Longrightarrow> moves st1 st2) \<Longrightarrow> moves st st2"
  using moves_inv rtranclp_trans [of move st st1 st2] by (auto simp: same_workers_def)

lemma phase_then:
  assumes "inv st" and "phase scope event now st = (st1, ok)"
    and "inv st1 \<Longrightarrow> st_procs st1 = st_procs st \<Longrightarrow> st_cycles st1 = st_cycles st \<Longrightarrow> moves st1 st2"
  shows "moves st st2"
  using same_then [OF assms(1) phase_moves [OF assms(1,2)] assms(3)] .

lemma forget_removed: "forget p c st = removed p (p_service (st_procs st p)) c st"
  by (simp add: forget_def removed_def)

lemma lifecycle_exited_moves:
  assumes "inv st" and "p_exited (st_procs st p)"
  shows "moves st (lifecycle_exited p c now st)"
proof -
  let ?scope = "p_scope (st_procs st p)"
  let ?st1 = "cancel_phase ?scope ''pre_stop'' st"
  have st1: "inv ?st1" "st_procs ?st1 = st_procs st"
    using moves_inv [OF cancel_phase_moves] assms(1) cancel_phase_same same_workersD(1) by blast+
  obtain st2 d1 where st2: "phase ?scope ''post_stop'' now ?st1 = (st2, d1)" by fastforce
  have inv2: "inv st2" and procs2: "st_procs st2 = st_procs st"
    using phase_inv [OF st1(1) st2] phase_moves(2) [OF st1(1) st2] st1(2) same_workersD(1) by auto
  let ?app = "Some (cy_scope (st_cycles st2 c))"
  obtain st3 d2 where st3: "(if list_all (\<lambda>q. p_exited (st_procs st2 q)) (cy_members (st_cycles st2 c))
      then phase ?app ''post_stop'' now (cancel_phase ?app ''pre_stop'' st2) else (st2, True)) = (st3, d2)"
    by fastforce
  have "moves st2 st3 \<and> st_procs st3 = st_procs st2"
  proof (cases "list_all (\<lambda>q. p_exited (st_procs st2 q)) (cy_members (st_cycles st2 c))")
    case True
    let ?st = "cancel_phase ?app ''pre_stop'' st2"
    have "moves st2 ?st" "same_workers st2 ?st" by (rule cancel_phase_moves [OF inv2], rule cancel_phase_same)
    moreover have "inv ?st" using moves_inv inv2 calculation(1) by blast
    ultimately show ?thesis
      using phase_moves [of ?st ?app "''post_stop''" now st3 d2] st3 True
      by (auto simp: same_workers_def intro: rtranclp_trans)
  qed (use st3 in simp)
  moreover have "move st3 (forget p c st3)" if "st_procs st3 = st_procs st"
    unfolding forget_removed using that assms(2) by (intro Forget) simp
  ultimately have "moves st2 (if d1 \<and> d2 then forget p c st3 else st3)"
    using procs2 by (auto intro: rtranclp.rtrancl_into_rtrancl)
  moreover have "lifecycle_exited p c now st = (if d1 \<and> d2 then forget p c st3 else st3)"
    by (simp only: lifecycle_exited_def Let_def st2 prod.case st3)
  moreover have "moves st st2"
    using cancel_phase_moves [OF assms(1)] phase_moves(1) [OF st1(1) st2] by (rule rtranclp_trans)
  ultimately show ?thesis by (auto intro: rtranclp_trans)
qed

lemma signal_stop_effects:
  "\<exists>es \<in> stop_effects p now. signal_stop w p now st = fold emit es st"
  by (auto simp: signal_stop_def stop_effects_def Let_def)

lemma lifecycle_stopping_moves:
  assumes "inv st" and "\<not> p_exited (st_procs st p)" and "p_stopping (st_procs st p) \<noteq> 0"
  shows "moves st (lifecycle_stopping w p c now st)"
proof -
  obtain st1 d1 where st1: "phase (p_scope (st_procs st p)) ''pre_stop'' now st = (st1, d1)" by fastforce
  have inv1: "inv st1" and procs1: "st_procs st1 = st_procs st"
    using phase_inv [OF assms(1) st1] phase_moves(2) [OF assms(1) st1] same_workersD(1) by auto
  obtain st2 d2 where st2: "(if cy_retiring (st_cycles st1 c)
      then phase (Some (cy_scope (st_cycles st1 c))) ''pre_stop'' now st1 else (st1, True)) = (st2, d2)"
    by fastforce
  then have "moves st1 st2 \<and> st_procs st2 = st_procs st1"
    using phase_moves [OF inv1] by (auto simp: same_workers_def split: if_splits)
  with phase_moves(1) [OF assms(1) st1] procs1
  have m2: "moves st st2" and procs2: "st_procs st2 = st_procs st" by (auto intro: rtranclp_trans)
  let ?sent = "upd_proc p (\<lambda>child. child\<lparr>p_stop_sent := True\<rparr>) st2"
  let ?cond = "\<not> p_stop_sent (st_procs st2 p) \<and> (d1 \<and> d2
    \<or> app_stop_timeout (p_config (st_procs st2 p)) \<le> time_sub now (p_stopping (st_procs st2 p)))"
  have "move st2 (if p_pending (st_procs st2 p) then upd_proc p (\<lambda>child. child\<lparr>p_exited := True\<rparr>) ?sent
      else signal_stop w p now ?sent)" if "\<not> p_stop_sent (st_procs st2 p)"
  proof (cases "p_pending (st_procs st2 p)")
    case True
    have "move st2 (upd_proc p (\<lambda>child. child\<lparr>p_stop_sent := True, p_exited := True\<rparr>) st2)"
      using True that assms procs2 by (intro Abandon) simp_all
    moreover have "upd_proc p (\<lambda>child. child\<lparr>p_exited := True\<rparr>) ?sent
      = upd_proc p (\<lambda>child. child\<lparr>p_stop_sent := True, p_exited := True\<rparr>) st2"
      by (simp add: upd_proc_def)
    ultimately have "move st2 (upd_proc p (\<lambda>child. child\<lparr>p_exited := True\<rparr>) ?sent)" by (simp only:)
    then show ?thesis by (simp only: True if_True)
  next
    case False
    obtain es where "es \<in> stop_effects p now" "signal_stop w p now ?sent = fold emit es ?sent"
      using signal_stop_effects by blast
    with False that assms procs2 show ?thesis by (auto intro!: SendStop)
  qed
  with m2 have "moves st (if ?cond then (if p_pending (st_procs st2 p)
      then upd_proc p (\<lambda>child. child\<lparr>p_exited := True\<rparr>) ?sent else signal_stop w p now ?sent) else st2)"
    by (auto intro: rtranclp.rtrancl_into_rtrancl)
  moreover have "lifecycle_stopping w p c now st = (if ?cond then (if p_pending (st_procs st2 p)
      then upd_proc p (\<lambda>child. child\<lparr>p_exited := True\<rparr>) ?sent else signal_stop w p now ?sent) else st2)"
    by (simp only: lifecycle_stopping_def Let_def st1 prod.case st2)
  ultimately show ?thesis by simp
qed

lemma lifecycle_running_moves:
  assumes "inv st" and "\<not> p_exited (st_procs st p)" and "p_stopping (st_procs st p) = 0"
    and "\<not> p_pending (st_procs st p)"
  shows "moves st (lifecycle_running p c now st)"
proof -
  let ?worker = "p_scope (st_procs st p)" and ?app = "Some (cy_scope (st_cycles st c))"
  obtain st1 b1 where st1: "phase ?worker ''post_start'' now st = (st1, b1)" by fastforce
  obtain st2 b2 where st2: "phase ?app ''post_start'' now st1 = (st2, b2)" by fastforce
  obtain st3 b3 where st3: "phase ?worker ''readiness'' now st2 = (st3, b3)" by fastforce
  obtain st4 b4 where st4: "phase ?app ''readiness'' now st3 = (st4, b4)" by fastforce
  obtain st5 b5 where st5: "phase ?worker ''health'' now st4 = (st5, b5)" by fastforce
  obtain st6 b6 where st6: "phase ?app ''health'' now st5 = (st6, b6)" by fastforce
  have unready: "moves s (set_ready p False s)" for s by (intro move_moves Unready)
  note i1 = phase_inv [OF assms(1) st1]
  note i2 = phase_inv [OF i1 st2]
  note i3 = phase_inv [OF i2 st3]
  note i4 = phase_inv [OF i3 st4]
  note i5 = phase_inv [OF i4 st5]
  have same: "st_procs st6 = st_procs st" "st_procs st2 = st_procs st"
    using phase_moves(2) [OF assms(1) st1] phase_moves(2) [OF i1 st2] phase_moves(2) [OF i2 st3]
      phase_moves(2) [OF i3 st4] phase_moves(2) [OF i4 st5] phase_moves(2) [OF i5 st6]
    by (auto simp: same_workers_def)
  have m2: "moves st st2" using phase_moves(1) [OF assms(1) st1] phase_moves(1) [OF i1 st2] by simp
  moreover have m4: "moves st2 st4" using phase_moves(1) [OF i2 st3] phase_moves(1) [OF i3 st4] by simp
  moreover have m6: "moves st4 st6" using phase_moves(1) [OF i4 st5] phase_moves(1) [OF i5 st6] by simp
  moreover let ?set = "\<lambda>ready. upd_proc p (\<lambda>child. child\<lparr>p_ready := ready, p_was_ready := p_was_ready child \<or> ready\<rparr>) st6"
  have "moves st6 (?set ready)" if base: "p_base_ready (st_procs st p)" for ready
  proof (cases ready)
    case True
    then have "?set ready = upd_proc p (\<lambda>child. child\<lparr>p_ready := True, p_was_ready := True\<rparr>) st6"
      by (simp add: upd_proc_def)
    with base assms(2-) same show ?thesis by (auto intro!: move_moves BecomeReady)
  next
    case False
    then have "?set ready = set_ready p False st6" by (simp add: upd_proc_def set_ready_def)
    with unready show ?thesis by simp
  qed
  ultimately have "moves st (if \<not> p_base_ready (st_procs st2 p) \<or> \<not> b1 \<or> \<not> b2 then set_ready p False st2
      else if \<not> b3 \<or> \<not> b4 then set_ready p False st4
      else ?set (b5 \<and> b6 \<and> dependencies_ready st6 (p_config (st_procs st6 p)) True))"
    using unready [of st2] unready [of st4] same by (auto intro: rtranclp_trans)
  then show ?thesis
    by (simp only: lifecycle_running_def Let_def st1 st2 st3 st4 st5 st6 prod.case)
qed

lemma lifecycle_moves: "inv st \<Longrightarrow> moves st (lifecycle w p now st)"
  unfolding lifecycle_def
  by (auto split: option.split
      intro: lifecycle_exited_moves lifecycle_stopping_moves lifecycle_running_moves)

subsection \<open>Stopping\<close>

lemma retire_if_idle_moves:
  assumes "inv st"
  shows "moves st (retire_if_idle cycle st)"
proof (cases cycle)
  case (Some c)
  have m: "moves st (upd_cycle c (\<lambda>cy. cy\<lparr>cy_retiring := True\<rparr>) st)" if "cycle_idle st c"
    using that by (intro move_moves RetireCycle)
  then show ?thesis
    using Some cancel_checks_moves moves_inv [OF _ assms]
    by (auto simp: retire_if_idle_def intro!: moves_then [OF m _ assms])
qed (simp add: retire_if_idle_def)

text \<open>The store in which \<^verbatim>\<open>stop\<close> enters the life cycle of the stopped worker.\<close>

definition stop_marked :: "proc_id \<Rightarrow> time \<Rightarrow> store \<Rightarrow> store" where
  "stop_marked p now st =
     (let st = upd_proc p (\<lambda>child. child\<lparr>p_stopping := now, p_ready := False\<rparr>) st;
          child = st_procs st p;
          st = retire_if_idle (p_cycle child) (cancel_checks (p_scope child) st)
      in if p_failed child \<and> app_schedule (p_config child) = []
         then backoff (p_service child) now
           (upd_serv (p_service child) (\<lambda>s. s\<lparr>s_demand := True\<rparr>) st)
         else st)"

lemma stop_marked_moves:
  assumes "inv st" and "0 < now" and "p_stopping (st_procs st p) = 0"
  shows "moves st (stop_marked p now st)"
proof -
  define st1 where "st1 = upd_proc p (\<lambda>child. child\<lparr>p_stopping := now, p_ready := False\<rparr>) st"
  define child where "child = st_procs st1 p"
  define st2 where "st2 = retire_if_idle (p_cycle child) (cancel_checks (p_scope child) st1)"
  have m1: "moves st st1"
    unfolding st1_def using assms(2,3) by (intro move_moves MarkStopping)
  have i1: "inv st1" using moves_inv [OF m1 assms(1)] .
  have m2: "moves st1 st2"
    unfolding st2_def by (rule moves_then [OF cancel_checks_moves [OF i1] retire_if_idle_moves i1])
  have "moves st2 (stop_marked p now st)"
    unfolding stop_marked_def Let_def st1_def [symmetric] child_def [symmetric] st2_def [symmetric]
    by (auto intro: rtranclp_trans [OF moves_demand moves_backoff])
  with m1 m2 show ?thesis by simp
qed

lemma stop_body_marked:
  assumes "inv st" and "p_stopping (st_procs st p) = 0"
  shows "stop_body w p now st = lifecycle w p now (stop_marked p now st)"
  using assms inv_has_scope [OF assms(1), of p] by (simp add: stop_body_def stop_marked_def Let_def)

lemma stop_body_moves:
  assumes "inv st" and "0 < now"
  shows "moves st (stop_body w p now st)"
proof (cases "p_stopping (st_procs st p) = 0")
  case True
  have m: "moves st (stop_marked p now st)" using assms True by (rule stop_marked_moves)
  with lifecycle_moves [OF moves_inv [OF m assms(1)]] show ?thesis
    by (auto simp: stop_body_marked [OF assms(1) True] intro: rtranclp_trans)
qed (simp add: stop_body_def)

lemma stop_moves: "inv st \<Longrightarrow> 0 < now \<Longrightarrow> moves st (stop w p now st)"
  unfolding stop_def by (rule moves_then [OF stop_body_moves moves_observe])

lemma fail_stop_moves: "inv st \<Longrightarrow> 0 < now \<Longrightarrow> moves st (fail_stop w p now st)"
  unfolding fail_stop_def by (rule moves_then [OF moves_failed stop_moves])

lemma action_result_moves:
  assumes "inv st" and "0 < now" and "ru_running (st_runs st r)"
  shows "moves st (action_result w r success now st)"
proof -
  let ?st1 = "upd_run r (\<lambda>run. run\<lparr>ru_running := False, ru_cancel := False\<rparr>)
    (st\<lparr>st_action_tasks := st_action_tasks st - 1\<rparr>)"
  let ?st2 = "upd_run r (run_result success now) ?st1"
  have st1: "moves st ?st1" using assms(3) by (intro move_moves EndRun)
  have st2: "moves ?st1 ?st2" by (intro move_moves UpdateRun) (simp add: kept_run_def run_result_def)
  have active: "moves s (stop_active w now p s)" if "inv s" for p s
    using that assms(2) by (auto simp: stop_active_def intro: fail_stop_moves)
  have "moves ?st2 (case sc_worker (st_scopes ?st2 (ru_scope (st_runs ?st2 r))) of
      Some p \<Rightarrow> stop_active w now p ?st2
    | None \<Rightarrow> (case sc_cycle (st_scopes ?st2 (ru_scope (st_runs ?st2 r))) of None \<Rightarrow> ?st2
      | Some c \<Rightarrow> fold (stop_active w now) (w_order w LoopMembers (cy_members (st_cycles ?st2 c))) ?st2))"
    if "inv ?st2"
    using that active by (auto split: option.split intro: moves_fold)
  moreover have "inv ?st2" using moves_inv st1 st2 assms(1) by blast
  ultimately show ?thesis
    using st1 st2 by (auto simp: action_result_def Let_def simp del: upd_run_simps)
qed

subsection \<open>Only the worker itself is forgotten\<close>

definition keeps_others :: "proc_id \<Rightarrow> store \<Rightarrow> store \<Rightarrow> bool" where
  "keeps_others p st st' \<longleftrightarrow> set (st_workers st) - {p} \<subseteq> set (st_workers st')"

lemma keeps_others_same: "st_workers st' = st_workers st \<Longrightarrow> keeps_others p st st'"
  by (auto simp: keeps_others_def)

lemma keeps_others_trans: "keeps_others p st st1 \<Longrightarrow> keeps_others p st1 st2 \<Longrightarrow> keeps_others p st st2"
  by (auto simp: keeps_others_def)

text \<open>Nor is a worker added to a service.\<close>

definition releases :: "proc_id \<Rightarrow> store \<Rightarrow> store \<Rightarrow> bool" where
  "releases p st st' \<longleftrightarrow> set (st_workers st) - {p} \<subseteq> set (st_workers st')
     \<and> (\<forall>s. set (s_workers (st_servs st' s)) \<subseteq> set (s_workers (st_servs st s)))"

lemma releases_keeps: "releases p st st' \<Longrightarrow> keeps_others p st st'"
  by (simp add: releases_def keeps_others_def)

lemma releases_same:
  "st_workers st' = st_workers st \<and> (\<forall>s. s_workers (st_servs st' s) = s_workers (st_servs st s))
     \<Longrightarrow> releases p st st'"
  by (auto simp: releases_def)

lemma phase_workers:
  "inv st \<Longrightarrow> st_workers (fst (phase scope event now st)) = st_workers st"
  using phase_moves(2) [of st scope event now] same_workersD(4) by (metis prod.collapse)

lemma cancel_workers [simp]:
  "st_workers (cancel_checks scope st) = st_workers st" "st_workers (cancel_phase scope event st) = st_workers st"
  "st_servs (cancel_checks scope st) = st_servs st" "st_servs (cancel_phase scope event st) = st_servs st"
  using cancel_checks_same cancel_phase_same same_workersD(3,4) by blast+

lemma signal_stop_workers [simp]:
  "st_workers (signal_stop w p now st) = st_workers st" "st_servs (signal_stop w p now st) = st_servs st"
  by (simp_all add: signal_stop_def Let_def)

lemma lifecycle_stopping_workers:
  assumes "inv st"
  shows "st_workers (lifecycle_stopping w p c now st) = st_workers st
    \<and> st_servs (lifecycle_stopping w p c now st) = st_servs st"
proof -
  obtain st1 d1 where st1: "phase (p_scope (st_procs st p)) ''pre_stop'' now st = (st1, d1)" by fastforce
  have inv1: "inv st1" using phase_inv [OF assms st1] .
  obtain st2 d2 where st2: "(if cy_retiring (st_cycles st1 c)
      then phase (Some (cy_scope (st_cycles st1 c))) ''pre_stop'' now st1 else (st1, True)) = (st2, d2)"
    by fastforce
  have "st_workers st2 = st_workers st \<and> st_servs st2 = st_servs st"
    using st2 phase_moves(2) [OF inv1] phase_moves(2) [OF assms st1]
    by (auto simp: same_workers_def split: if_splits)
  then show ?thesis
    by (simp only: lifecycle_stopping_def Let_def st1 prod.case st2) (simp add: Let_def)
qed

lemma lifecycle_running_workers:
  assumes "inv st"
  shows "st_workers (lifecycle_running p c now st) = st_workers st
    \<and> st_servs (lifecycle_running p c now st) = st_servs st"
proof -
  let ?worker = "p_scope (st_procs st p)" and ?app = "Some (cy_scope (st_cycles st c))"
  obtain st1 b1 where st1: "phase ?worker ''post_start'' now st = (st1, b1)" by fastforce
  obtain st2 b2 where st2: "phase ?app ''post_start'' now st1 = (st2, b2)" by fastforce
  obtain st3 b3 where st3: "phase ?worker ''readiness'' now st2 = (st3, b3)" by fastforce
  obtain st4 b4 where st4: "phase ?app ''readiness'' now st3 = (st4, b4)" by fastforce
  obtain st5 b5 where st5: "phase ?worker ''health'' now st4 = (st5, b5)" by fastforce
  obtain st6 b6 where st6: "phase ?app ''health'' now st5 = (st6, b6)" by fastforce
  note i1 = phase_inv [OF assms st1]
  note i2 = phase_inv [OF i1 st2]
  note i3 = phase_inv [OF i2 st3]
  note i4 = phase_inv [OF i3 st4]
  note i5 = phase_inv [OF i4 st5]
  have "st_workers st6 = st_workers st" "st_workers st2 = st_workers st" "st_workers st4 = st_workers st"
      "st_servs st6 = st_servs st" "st_servs st2 = st_servs st" "st_servs st4 = st_servs st"
    using phase_moves(2) [OF assms st1] phase_moves(2) [OF i1 st2] phase_moves(2) [OF i2 st3]
      phase_moves(2) [OF i3 st4] phase_moves(2) [OF i4 st5] phase_moves(2) [OF i5 st6]
    by (auto simp: same_workers_def)
  then show ?thesis
    by (simp only: lifecycle_running_def Let_def st1 st2 st3 st4 st5 st6 prod.case) simp
qed

lemma forget_workers: "releases p st (forget p c st)"
  by (auto simp: forget_removed releases_def)

lemma lifecycle_exited_others:
  assumes "inv st"
  shows "releases p st (lifecycle_exited p c now st)"
proof -
  let ?scope = "p_scope (st_procs st p)"
  let ?st1 = "cancel_phase ?scope ''pre_stop'' st"
  have i1: "inv ?st1" using moves_inv [OF cancel_phase_moves [OF assms] assms] .
  obtain st2 d1 where st2: "phase ?scope ''post_stop'' now ?st1 = (st2, d1)" by fastforce
  have i2: "inv st2" using phase_inv [OF i1 st2] .
  let ?app = "Some (cy_scope (st_cycles st2 c))"
  obtain st3 d2 where st3: "(if list_all (\<lambda>q. p_exited (st_procs st2 q)) (cy_members (st_cycles st2 c))
      then phase ?app ''post_stop'' now (cancel_phase ?app ''pre_stop'' st2) else (st2, True)) = (st3, d2)"
    by fastforce
  have i: "inv (cancel_phase ?app ''pre_stop'' st2)"
    using moves_inv [OF cancel_phase_moves [OF i2] i2] .
  have "st_workers st3 = st_workers st2 \<and> st_servs st3 = st_servs st2"
  proof (cases "list_all (\<lambda>q. p_exited (st_procs st2 q)) (cy_members (st_cycles st2 c))")
    case True
    then have "phase ?app ''post_stop'' now (cancel_phase ?app ''pre_stop'' st2) = (st3, d2)"
      using st3 by simp
    from phase_moves(2) [OF i this] show ?thesis by (simp add: same_workers_def)
  qed (use st3 in simp)
  moreover have "st_workers st2 = st_workers st \<and> st_servs st2 = st_servs st"
    using phase_moves(2) [OF i1 st2] by (simp add: same_workers_def)
  ultimately have "st_workers st3 = st_workers st \<and> st_servs st3 = st_servs st" by simp
  then have "releases p st (if d1 \<and> d2 then forget p c st3 else st3)"
    using forget_workers [of p st3 c] by (auto simp: releases_def)
  then show ?thesis
    by (simp only: lifecycle_exited_def Let_def st2 prod.case st3)
qed

lemma lifecycle_alive_others:
  "inv st \<Longrightarrow> releases p st (lifecycle_stopping w p c now st)"
  "inv st \<Longrightarrow> releases p st (lifecycle_running p c now st)"
  by (simp_all add: releases_same lifecycle_stopping_workers lifecycle_running_workers)

lemma releases_refl: "releases p st st"
  by (auto simp: releases_def)

lemma lifecycle_others: "inv st \<Longrightarrow> releases p st (lifecycle w p now st)"
  unfolding lifecycle_def
  by (auto split: option.split intro: lifecycle_exited_others lifecycle_alive_others releases_refl)

lemma retire_if_idle_workers [simp]:
  "st_workers (retire_if_idle cycle st) = st_workers st" "st_servs (retire_if_idle cycle st) = st_servs st"
  by (simp_all add: retire_if_idle_def split: option.split)

lemma observe_workers [simp]:
  "st_workers (observe_pressure s now st) = st_workers st"
  "s_workers (st_servs (observe_pressure s now st) t) = s_workers (st_servs st t)"
  by (simp_all add: observe_pressure_def)

lemma backoff_workers [simp]:
  "st_workers (backoff s now st) = st_workers st"
  "s_workers (st_servs (backoff s now st) t) = s_workers (st_servs st t)"
  by (simp_all add: backoff_def)

lemma stop_marked_workers [simp]:
  "st_workers (stop_marked p now st) = st_workers st"
  "s_workers (st_servs (stop_marked p now st) t) = s_workers (st_servs st t)"
  by (simp_all add: stop_marked_def Let_def)

lemma stop_others:
  assumes "inv st" and "0 < now"
  shows "releases p st (stop w p now st)"
proof (cases "p_stopping (st_procs st p) = 0")
  case True
  have "inv (stop_marked p now st)"
    using moves_inv [OF stop_marked_moves [OF assms True] assms(1)] .
  from lifecycle_others [OF this, of p w now] show ?thesis
    by (simp add: stop_def stop_body_marked [OF assms(1) True] releases_def)
qed (simp add: stop_def stop_body_def releases_def)

lemma fail_stop_others: "inv st \<Longrightarrow> 0 < now \<Longrightarrow> releases p st (fail_stop w p now st)"
  using stop_others [of "set_failed p st" now p w] moves_inv [OF moves_failed]
  by (simp add: fail_stop_def releases_def set_failed_def)

subsection \<open>Starting workers\<close>

lemma set_insert_in: "x \<in> set xs \<Longrightarrow> set_insert x xs = xs"
  by (simp add: set_insert_def)

lemma start_process_moves:
  assumes "inv st" and "world_ok w" and "p \<in> set (st_workers st)"
    and "p_pending (st_procs st p)" and "p_stopping (st_procs st p) = 0" and "\<not> p_exited (st_procs st p)"
  shows "moves st (fst (start_process w p now st))"
proof (cases "w_launch w p")
  case (Some r)
  obtain pid executed where r: "r = (pid, executed)" by (cases r)
  let ?s = "p_service (st_procs st p)"
  let ?v = "scope_launch_values st p now"
  let ?st1 = "emit (Launch p ?v) (upd_proc p (launched (st_servs st ?s) pid executed now) st)"
  have ok: "worker_ok st p" using assms(1,3) by (simp add: inv_def services_okD(4))
  then have "p \<in> set (s_workers (st_servs st ?s))" and "p < st_next_proc st"
    by (simp_all add: worker_ok_def Let_def)
  then have "fst (start_process w p now st) = upd_serv ?s (\<lambda>service. service\<lparr>s_demand := False\<rparr>) ?st1"
    using Some r assms(3)
    by (simp add: start_process_def Let_def set_insert_in upd_serv_def emit_def upd_proc_def)
  moreover have "move st ?st1"
    using assms Some r \<open>p < st_next_proc st\<close> by (intro Start) (auto simp: world_ok_def)
  ultimately show ?thesis
    using moves_demand by (simp add: converse_rtranclp_into_rtranclp)
qed (simp add: start_process_def)

text \<open>Room in a service depends on its workers only.\<close>

lemma room_cong:
  assumes "st_procs st' = st_procs st" and "st_workers st' = st_workers st"
    and "\<And>t. s_name (st_servs st' t) = s_name (st_servs st t)"
    and "\<And>t. s_config (st_servs st' t) = s_config (st_servs st t)"
    and "\<And>t. s_workers (st_servs st' t) = s_workers (st_servs st t)"
  shows "room st' s = room st s"
  using assms by (simp add: room_def available_def running_workers_def executions_def)

lemma join_cycle_moves:
  assumes "inv st" and "join_cycle s st = (st', c)"
  shows "moves st st'" and "c < st_next_cycle st'" and "\<not> cy_retiring (st_cycles st' c)"
    and "st_procs st' = st_procs st" "st_workers st' = st_workers st" "st_services st' = st_services st"
    and "st_next_proc st' = st_next_proc st"
    and "s_name (st_servs st' t) = s_name (st_servs st t)"
    and "s_config (st_servs st' t) = s_config (st_servs st t)"
    and "s_workers (st_servs st' t) = s_workers (st_servs st t)"
    and "s_scheduled (st_servs st' t) = s_scheduled (st_servs st t)"
proof -
  let ?scope = "\<lparr>sc_config = s_config (st_servs st s), sc_address = service_address st (st_servs st s),
    sc_worker = None, sc_cycle = Some (st_next_cycle st), sc_runs = []\<rparr>"
  let ?cycle = "\<lparr>cy_members = [], cy_scope = st_next_scope st, cy_retiring = False\<rparr>"
  let ?st2 = "alloc_cycle ?cycle (alloc_scope ?scope st)"
  let ?st3 = "upd_serv s (\<lambda>service. service\<lparr>s_cycle := Some (st_next_cycle st)\<rparr>) ?st2"
  consider "st' = st" "s_cycle (st_servs st s) = Some c" "\<not> cy_retiring (st_cycles st c)"
    | "st' = ?st3" "c = st_next_cycle st"
  proof -
    have "fresh_cycle s st = (?st3, st_next_cycle st)"
      by (simp add: fresh_cycle_def Let_def)
    with assms(2) that show thesis
      by (simp add: join_cycle_def split: option.splits if_splits)
  qed
  note cases = this
  have "move st (alloc_scope ?scope st)" by (intro MakeScope) simp
  moreover have "move (alloc_scope ?scope st) ?st2" by (intro MakeCycle) simp
  moreover have "move ?st2 ?st3" by (intro SetCycle) simp
  ultimately have "moves st ?st3" by (meson converse_rtranclp_into_rtranclp move_moves)
  with cases show "moves st st'" by cases auto
  have "c < st_next_cycle st" if "s_cycle (st_servs st s) = Some c"
    using that assms(1) by (auto simp: inv_def intro: cycles_ok_service)
  with cases show "c < st_next_cycle st'" by cases auto
  show "\<not> cy_retiring (st_cycles st' c)" using cases by cases auto
  show "st_procs st' = st_procs st" "st_workers st' = st_workers st" "st_services st' = st_services st"
    "st_next_proc st' = st_next_proc st"
    using cases by (cases; simp)+
  show "s_name (st_servs st' t) = s_name (st_servs st t)" "s_config (st_servs st' t) = s_config (st_servs st t)"
    "s_workers (st_servs st' t) = s_workers (st_servs st t)"
    "s_scheduled (st_servs st' t) = s_scheduled (st_servs st t)"
    using cases by (cases; simp)+
qed

lemma reserve_moves:
  assumes "s \<in> snd ` set (st_services st)" and "\<not> s_scheduled (st_servs st s)" and "room st s"
    and "\<not> cy_retiring (st_cycles st c)" and "c < st_next_cycle st"
    and "reserve s c now st = (st', p)"
  shows "moves st st'" and "p = st_next_proc st" and "p \<in> set (st_workers st')"
    and "p_pending (st_procs st' p)" and "p_stopping (st_procs st' p) = 0" and "\<not> p_exited (st_procs st' p)"
    and "p_service (st_procs st' p) = s" and "p_cycle (st_procs st' p) = Some c"
    and "p_scope (st_procs st' p) \<noteq> None"
    and "set (st_workers st') = insert p (set (st_workers st))"
proof -
  let ?scope = "\<lparr>sc_config = s_config (st_servs st s), sc_address = service_address st (st_servs st s),
    sc_worker = Some (st_next_proc st), sc_cycle = None, sc_runs = []\<rparr>"
  let ?st1 = "alloc_scope ?scope st"
  have st': "st' = enrolled s c (st_next_scope st) now ?st1" and p: "p = st_next_proc st"
    using assms(6) by (auto simp: reserve_def enrolled_def Let_def)
  have "move st ?st1" by (intro MakeScope) simp
  moreover have "room ?st1 s" using assms(3) by (subst room_cong [of ?st1 st]) simp_all
  then have "move ?st1 st'" unfolding st' using assms(1-5) by (intro Enroll) simp_all
  ultimately show "moves st st'" by (meson converse_rtranclp_into_rtranclp move_moves)
  show "p = st_next_proc st" by (rule p)
  show "p \<in> set (st_workers st')" "p_pending (st_procs st' p)" "p_stopping (st_procs st' p) = 0"
    "\<not> p_exited (st_procs st' p)" "p_service (st_procs st' p) = s" "p_cycle (st_procs st' p) = Some c"
    "p_scope (st_procs st' p) \<noteq> None" "set (st_workers st') = insert p (set (st_workers st))"
    by (simp_all add: st' p)
qed

lemma unreserve_moves:
  assumes "inv st" and "p_pending (st_procs st p)" and "p_service (st_procs st p) = s"
  shows "moves st (unreserve p s c st)"
proof -
  define st1 where "st1 = cancel_checks (p_scope (st_procs st p)) st"
  have m1: "moves st st1" unfolding st1_def by (rule cancel_checks_moves [OF assms(1)])
  have p1: "st_procs st1 = st_procs st"
    unfolding st1_def using cancel_checks_same same_workersD(1) by blast
  define st2 where "st2 = removed p s c st1"
  have "move st1 (removed p (p_service (st_procs st1 p)) c st1)"
    using assms(2) by (intro Unreserve) (simp add: p1)
  then have m2: "moves st1 st2" using assms(3) by (simp add: st2_def p1)
  have i2: "inv st2" using m1 m2 assms(1) moves_inv by blast
  have body: "unreserve p s c st = (if cy_members (st_cycles st2 c) = []
      then cancel_checks (Some (cy_scope (st_cycles st2 c)))
        (upd_cycle c (\<lambda>cy. cy\<lparr>cy_retiring := True\<rparr>) st2) else st2)"
    by (simp only: unreserve_def Let_def st1_def [symmetric] removed_def st2_def)
  have "moves st2 (upd_cycle c (\<lambda>cy. cy\<lparr>cy_retiring := True\<rparr>) st2)" if "cy_members (st_cycles st2 c) = []"
    using that by (intro move_moves RetireCycle) (simp add: cycle_idle_def)
  then have "moves st2 (unreserve p s c st)"
    unfolding body using i2 moves_inv [OF _ i2]
    by (auto intro: rtranclp_trans [OF _ cancel_checks_moves])
  with m1 m2 show ?thesis by simp
qed

lemma spawn_moves:
  assumes "inv st" and "world_ok w" and "s \<in> snd ` set (st_services st)"
    and "\<not> s_scheduled (st_servs st s)" and "room st s"
  shows "moves st (fst (spawn w s now st))"
proof -
  obtain st1 c where st1: "join_cycle s st = (st1, c)" by fastforce
  note j = join_cycle_moves [OF assms(1) st1]
  have i1: "inv st1" using moves_inv [OF j(1) assms(1)] .
  obtain st2 p where st2: "reserve s c now st1 = (st2, p)" by fastforce
  have "room st1 s" using assms(5) by (subst room_cong [OF j(4,5,8,9,10)])
  note r = reserve_moves [OF _ _ this j(3,2) st2]
  have r': "s \<in> snd ` set (st_services st1)" "\<not> s_scheduled (st_servs st1 s)"
    using assms(3,4) j(6,11) by simp_all
  note r = r [OF r']
  have i2: "inv st2" using moves_inv [OF r(1) i1] .
  obtain st3 ok3 where st3: "phase (Some (cy_scope (st_cycles st2 c))) ''pre_start'' now st2 = (st3, ok3)"
    by fastforce
  note p3 = phase_moves [OF i2 st3] and i3 = phase_inv [OF i2 st3]
  obtain st4 ok4 where st4: "phase (p_scope (st_procs st3 p)) ''pre_start'' now st3 = (st4, ok4)"
    by fastforce
  note p4 = phase_moves [OF i3 st4] and i4 = phase_inv [OF i3 st4]
  have same: "st_procs st4 = st_procs st2" "st_workers st4 = st_workers st2"
    using same_workersD(1,4) [OF p3(2)] same_workersD(1,4) [OF p4(2)] by simp_all
  obtain st5 started where st5: "start_process w p now st4 = (st5, started)" by fastforce
  have m5: "moves st4 st5"
    using start_process_moves [OF i4 assms(2), of p now] r st5 same by simp
  have i5: "inv st5" using moves_inv [OF m5 i4] .
  have failed: "st5 = st4" if "\<not> started"
    using st5 that by (auto simp: start_process_def Let_def split: option.splits)
  have "moves st5 (if started then lifecycle w p now st5 else unreserve p s c st5)"
    using lifecycle_moves [OF i5] unreserve_moves [OF i4, of p s c] failed r same by auto
  then have "moves st4 (if ok3 \<and> ok4 then if started then lifecycle w p now st5 else unreserve p s c st5 else st4)"
    using m5 by auto
  moreover have "moves st st4" using j(1) r(1) p3(1) p4(1) by (meson rtranclp_trans)
  moreover have "fst (spawn w s now st)
      = (if ok3 \<and> ok4 then if started then lifecycle w p now st5 else unreserve p s c st5 else st4)"
    by (simp only: spawn_def Let_def st1 st2 st3 st4 st5 prod.case) simp
  ultimately show ?thesis by simp
qed

subsection \<open>Messages\<close>

text \<open>
  What the goroutines promise: an action reports once for each time it was started, and a worker's
  exit is reported once, after it was started.
\<close>

definition deliverable :: "store \<Rightarrow> message \<Rightarrow> bool" where
  "deliverable st msg \<longleftrightarrow> (case msg of
     ActionDone r _ \<Rightarrow> ru_running (st_runs st r)
   | Exited p _ _ \<Rightarrow> \<not> p_pending (st_procs st p) \<and> \<not> p_exited (st_procs st p)
   | _ \<Rightarrow> True)"

lemma handle_socket_moves: "moves st (handle_socket now socket st)"
  by (auto simp: handle_socket_def Let_def split: prod.split option.split
      intro: moves_fatal moves_demand rtranclp_trans [OF moves_demand moves_list])

lemma handle_exited_moves:
  assumes "inv st" and "\<not> p_pending (st_procs st p)" and "\<not> p_exited (st_procs st p)"
  shows "moves st (handle_exited w p code failed now st)"
proof -
  define st1 where "st1 = (if failed then set_fatal (CleanupFailed (p_pid (st_procs st p))) st else st)"
  define st2 where "st2 = upd_proc p (\<lambda>child. child\<lparr>p_exited := True, p_ready := False\<rparr>) st1"
  define st3 where "st3 = cancel_checks (p_scope (st_procs st2 p)) st2"
  define st4 where "st4 = (case code of None \<Rightarrow> st3 | Some c \<Rightarrow> upd_proc p (\<lambda>child. child\<lparr>p_exit_code := c\<rparr>) st3)"
  define child where "child = st_procs st4 p"
  define st5 where "st5 = (if p_stopping child = 0 \<and> app_schedule (p_config child) = []
    then backoff (p_service (st_procs st p)) now
      (upd_serv (p_service (st_procs st p)) (\<lambda>s. s\<lparr>s_demand := True\<rparr>) st4) else st4)"
  have m1: "moves st st1" and p1: "st_procs st1 = st_procs st"
    unfolding st1_def using moves_fatal by (auto simp: set_fatal_def)
  have m2: "moves st1 st2"
    unfolding st2_def using assms(2,3) by (intro move_moves MarkExited) (simp_all add: p1)
  have i2: "inv st2" using m1 m2 assms(1) moves_inv by blast
  have m3: "moves st2 st3" unfolding st3_def by (rule cancel_checks_moves [OF i2])
  have m4: "moves st3 st4"
    unfolding st4_def by (auto split: option.split intro!: moves_report simp: benign_def)
  have m5: "moves st4 st5"
    unfolding st5_def by (auto intro: rtranclp_trans [OF moves_demand moves_backoff])
  have m: "moves st st5" using m1 m2 m3 m4 m5 by simp
  have i4: "inv st4" and i5: "inv st5" using m1 m2 m3 m4 m5 assms(1) by (meson moves_inv)+
  obtain c where c: "p_cycle child = Some c"
    using inv_has_scope [OF i4, of p] by (auto simp: child_def)
  have m6: "moves st5 (retire_if_idle (Some c) st5)" by (rule retire_if_idle_moves [OF i5])
  have "handle_exited w p code failed now st = lifecycle w p now (retire_if_idle (Some c) st5)"
    by (simp only: handle_exited_def Let_def st1_def [symmetric] st2_def [symmetric]
        st3_def [symmetric] st4_def [symmetric] child_def [symmetric] st5_def [symmetric] c option.case)
  with rtranclp_trans [OF rtranclp_trans [OF m m6] lifecycle_moves [OF moves_inv [OF m6 i5]]]
  show ?thesis by simp
qed

lemma benign_report_moves:
  assumes "\<And>x. benign x (f x)"
  shows "moves st (upd_proc p f st)"
  using assms by (intro moves_report)

lemma handle_worker_moves:
  assumes "inv st" and "0 < now" and "deliverable st msg"
  shows "moves st (handle_worker w msg now st)"
proof (cases msg)
  case (Exited p code failed)
  with assms show ?thesis by (simp add: deliverable_def handle_exited_moves)
next
  case (Probed p ready)
  have "moves st (handle_probe p ready now st)"
    unfolding handle_probe_def by (intro benign_report_moves) (simp add: benign_def Let_def)
  with Probed show ?thesis by simp
next
  case (HandshakeSeen p ready)
  define st1 where "st1 = upd_proc p (\<lambda>child. child\<lparr>p_telemetry := ready\<rparr>) st"
  define by_event where "by_event = (app_ready (p_config (st_procs st p)) = ''event'')"
  let ?up = "upd_proc p (\<lambda>child. child\<lparr>p_base_ready := p_base_ready child \<or> by_event, p_idle_since := now\<rparr>) st1"
  have m1: "moves st st1" unfolding st1_def by (intro benign_report_moves) (simp add: benign_def)
  have "moves st1 ?up" by (intro benign_report_moves) (simp add: benign_def)
  then have "moves st1 (if ready then ?up else if by_event then fail_stop w p now st1 else st1)"
    using fail_stop_moves [OF moves_inv [OF m1 assms(1)] assms(2)] by auto
  with m1 have "moves st (if ready then ?up else if by_event then fail_stop w p now st1 else st1)"
    by (rule rtranclp_trans)
  then have "moves st (handle_handshake w p ready now st)"
    by (simp only: handle_handshake_def Let_def st1_def [symmetric] by_event_def [symmetric])
  with HandshakeSeen show ?thesis by simp
next
  case (StreamFailed p)
  with assms fail_stop_moves show ?thesis by auto
next
  case (WorkerEvent p e)
  have "moves st (handle_event w p e now st)"
    using assms by (auto simp: handle_event_def Let_def intro!: fail_stop_moves benign_report_moves)
      (auto simp: benign_def)
  with WorkerEvent show ?thesis by simp
qed auto

theorem handle_moves:
  assumes "inv st" and "0 < now" and "deliverable st msg"
  shows "moves st (handle w msg now st)"
proof -
  have worker: "moves st (observe_pressure s now (handle_worker w msg now st))" for s
    using handle_worker_moves [OF assms] moves_observe by (rule rtranclp_trans)
  show ?thesis
  proof (cases msg)
    case (ActionDone r success)
    with assms show ?thesis by (simp add: handle_def deliverable_def action_result_moves)
  next
    case (PollEvents sockets)
    with assms show ?thesis by (auto simp: handle_def intro: moves_fold handle_socket_moves)
  qed (use worker moves_fatal in \<open>auto simp: handle_def\<close>)
qed

subsection \<open>Schedules and the tick\<close>

lemma schedule_due_moves:
  assumes "inv st" and "app_schedule (s_config (st_servs st s)) \<noteq> []"
  shows "moves st (schedule_due w s now st)"
proof -
  let ?run = "\<lambda>t. upd_serv s (\<lambda>service. service\<lparr>s_next_run := t\<rparr>) st"
  have next_run: "moves st (?run t)" for t
    by (intro moves_service) (simp add: kept_service_def)
  have "move (?run t) (upd_serv s (\<lambda>service. service\<lparr>s_scheduled := True\<rparr>) (?run t))"
    if "\<not> executions (?run t) (s_name (st_servs st s)) \<ge> execution_limit (s_config (st_servs st s))" for t
    using that assms(2) by (intro Schedule) (simp_all add: room_def)
  with next_run show ?thesis
    by (auto simp: schedule_due_def Let_def simp del: upd_serv_simps intro: rtranclp.rtrancl_into_rtrancl)
qed

lemma rearm_moves: "moves st (rearm_listener w now s st)"
proof -
  have e: "moves st (emit (ArmListener l) st)" for l by (rule moves_emit) simp
  have "moves st (upd_list l f (set_fatal x (emit (ArmListener l) st)))"
    and "moves st (upd_list l f (emit (ArmListener l) st))" for l f x
    using e moves_fatal moves_list by (meson rtranclp_trans)+
  then show ?thesis
    by (auto simp: rearm_listener_def Let_def split: option.split)
qed

text \<open>A stopping worker that the tick finds overdue has been asked to stop.\<close>

lemma lifecycle_overdue:
  assumes "inv st" and "lifecycle w p now st = st'" and "\<not> p_exited (st_procs st' p)"
    and "p_stopping (st_procs st' p) \<noteq> 0"
    and "app_stop_timeout (p_config (st_procs st' p)) \<le> time_sub now (p_stopping (st_procs st' p))"
    and "p < st_next_proc st"
  shows "p_stop_sent (st_procs st' p)"
proof -
  have m: "moves st st'" using lifecycle_moves [OF assms(1), of w p now] assms(2) by simp
  note ev = moves_evolves [OF m, unfolded evolves_def Let_def]
  have alive: "\<not> p_exited (st_procs st p)" using ev assms(3,6) by blast
  obtain c where c: "p_cycle (st_procs st p) = Some c" using inv_has_scope [OF assms(1)] by blast
  show ?thesis
  proof (cases "p_stopping (st_procs st p) = 0")
    case True
    have "p_stopping (st_procs st' p) = 0"
    proof (cases "p_pending (st_procs st p)")
      case False
      then have st': "st' = lifecycle_running p c now st"
        using assms(2) alive True c by (simp add: lifecycle_def)
      let ?worker = "p_scope (st_procs st p)" and ?app = "Some (cy_scope (st_cycles st c))"
      obtain st1 b1 where st1: "phase ?worker ''post_start'' now st = (st1, b1)" by fastforce
      obtain st2 b2 where st2: "phase ?app ''post_start'' now st1 = (st2, b2)" by fastforce
      obtain st3 b3 where st3: "phase ?worker ''readiness'' now st2 = (st3, b3)" by fastforce
      obtain st4 b4 where st4: "phase ?app ''readiness'' now st3 = (st4, b4)" by fastforce
      obtain st5 b5 where st5: "phase ?worker ''health'' now st4 = (st5, b5)" by fastforce
      obtain st6 b6 where st6: "phase ?app ''health'' now st5 = (st6, b6)" by fastforce
      note i1 = phase_inv [OF assms(1) st1]
      note i2 = phase_inv [OF i1 st2]
      note i3 = phase_inv [OF i2 st3]
      note i4 = phase_inv [OF i3 st4]
      note i5 = phase_inv [OF i4 st5]
      have "st_procs st6 = st_procs st" "st_procs st2 = st_procs st" "st_procs st4 = st_procs st"
        using phase_moves(2) [OF assms(1) st1] phase_moves(2) [OF i1 st2] phase_moves(2) [OF i2 st3]
          phase_moves(2) [OF i3 st4] phase_moves(2) [OF i4 st5] phase_moves(2) [OF i5 st6]
        by (auto simp: same_workers_def)
      then show ?thesis
        using True by (simp only: st' lifecycle_running_def Let_def st1 st2 st3 st4 st5 st6 prod.case) simp
    qed (use assms(2) alive True c in \<open>auto simp: lifecycle_def\<close>)
    with assms(4) show ?thesis by simp
  next
    case stopping: False
    then have st': "st' = lifecycle_stopping w p c now st"
      using assms(2) alive c by (simp add: lifecycle_def)
    obtain st1 d1 where st1: "phase (p_scope (st_procs st p)) ''pre_stop'' now st = (st1, d1)" by fastforce
    have i1: "inv st1" using phase_inv [OF assms(1) st1] .
    obtain st2 d2 where st2: "(if cy_retiring (st_cycles st1 c)
        then phase (Some (cy_scope (st_cycles st1 c))) ''pre_stop'' now st1 else (st1, True)) = (st2, d2)"
      by fastforce
    have same: "st_procs st2 = st_procs st"
      using st2 phase_moves(2) [OF i1] phase_moves(2) [OF assms(1) st1]
      by (auto simp: same_workers_def split: if_splits)
    have cfg: "p_config (st_procs st' p) = p_config (st_procs st p)"
      and stop: "p_stopping (st_procs st' p) = p_stopping (st_procs st p)"
      using ev assms(6) stopping by blast+
    have sent: "p_stop_sent (st_procs (signal_stop w p now s) p) = p_stop_sent (st_procs s p)" for s
      by (simp add: signal_stop_def Let_def)
    show ?thesis
      using assms(5) unfolding cfg stop
      by (simp only: st' lifecycle_stopping_def Let_def st1 st2 prod.case) (simp add: same sent)
  qed
qed

lemma kill_overdue_moves:
  assumes "p_stopping (st_procs st p) \<noteq> 0" and "\<not> p_exited (st_procs st p)"
    and "app_stop_timeout (p_config (st_procs st p)) \<le> time_sub now (p_stopping (st_procs st p))
      \<Longrightarrow> p_stop_sent (st_procs st p)"
  shows "moves st (kill_overdue now p st)"
  using assms by (auto simp: kill_overdue_def Let_def intro!: move_moves Kill)

lemma start_probe_moves: "moves st (start_probe now p st)"
proof -
  have "moves st (emit (ProbeSocket p n a) (upd_proc p (\<lambda>child. child\<lparr>p_probing := True\<rparr>) st))" for n a
    by (intro rtranclp_trans [OF benign_report_moves moves_emit]) (simp_all add: benign_def)
  then show ?thesis by (auto simp: start_probe_def Let_def split: prod.split)
qed

lemma time_out_requests_moves: "inv st \<Longrightarrow> 0 < now \<Longrightarrow> moves st (time_out_requests w now p st)"
  by (auto simp: time_out_requests_def Let_def intro!: moves_fold fail_stop_moves)

lemma settle_moves: "moves st (settle now p st)"
  by (auto simp: settle_def Let_def kept_service_def intro!: moves_service)

lemma tick_worker_moves:
  assumes "inv st" and "0 < now" and "p < st_next_proc st"
  shows "moves st (tick_worker w now p st)"
proof -
  define st1 where "st1 = lifecycle w p now st"
  define child where "child = st_procs st1 p"
  have m1: "moves st st1" unfolding st1_def by (rule lifecycle_moves [OF assms(1)])
  have i1: "inv st1" using moves_inv [OF m1 assms(1)] .
  define st2 where "st2 = (if \<not> p_was_ready child \<and> \<not> p_ready child
      \<and> app_start_timeout (p_config child) \<le> time_sub now (p_started child)
    then fail_stop w p now st1 else st1)"
  have m2: "moves st1 st2" unfolding st2_def using fail_stop_moves [OF i1 assms(2)] by auto
  have i2: "inv (start_probe now p st2)" using m2 start_probe_moves i1 by (meson moves_inv)
  have "moves st2 (settle now p (time_out_requests w now p (start_probe now p st2)))"
    using start_probe_moves time_out_requests_moves [OF i2 assms(2)] settle_moves by (meson rtranclp_trans)
  then have "moves st1 (settle now p (time_out_requests w now p (start_probe now p st2)))"
    using m2 by simp
  moreover have "moves st1 (kill_overdue now p st1)" if "p_stopping child \<noteq> 0" "\<not> p_exited child"
  proof (rule kill_overdue_moves)
    show "p_stopping (st_procs st1 p) \<noteq> 0" "\<not> p_exited (st_procs st1 p)"
      using that by (simp_all add: child_def)
    then show "p_stop_sent (st_procs st1 p)"
      if "app_stop_timeout (p_config (st_procs st1 p)) \<le> time_sub now (p_stopping (st_procs st1 p))"
      using lifecycle_overdue [OF assms(1) st1_def [symmetric] _ _ that assms(3)] by simp
  qed
  moreover have "moves st1 (fail_stop w p now st1)" by (rule fail_stop_moves [OF i1 assms(2)])
  ultimately have "moves st1 (tick_worker w now p st)"
    by (simp only: tick_worker_def Let_def st1_def [symmetric] child_def [symmetric] st2_def [symmetric]
        split: if_split) auto
  with m1 show ?thesis by simp
qed

lemma stop_unrequired_moves: "inv st \<Longrightarrow> 0 < now \<Longrightarrow> moves st (stop_unrequired w now p st)"
  by (simp add: stop_unrequired_def stop_moves)

lemma activate_service_moves:
  assumes "inv st"
  shows "moves st (fst (activate_service w now entry (st, marks)))"
  using assms by (auto simp: activate_service_def Let_def split: prod.split intro: schedule_due_moves)

lemma activate_fold_moves:
  "inv st \<Longrightarrow> moves st (fst (fold (activate_service w now) entries (st, marks)))"
proof (induction entries arbitrary: st marks)
  case (Cons entry entries)
  obtain st1 marks1 where a: "activate_service w now entry (st, marks) = (st1, marks1)"
    by (cases "activate_service w now entry (st, marks)")
  have m: "moves st st1" using activate_service_moves [OF Cons.prems, of w now entry marks] a by simp
  from Cons.IH [OF moves_inv [OF m Cons.prems], of marks1] m a show ?case by simp
qed simp

lemma start_process_workers: "set (st_workers st) \<subseteq> set (st_workers (fst (start_process w p now st)))"
  by (auto simp: start_process_def Let_def split: option.split)

lemma start_pending_moves:
  assumes "inv st" and "0 < now" and "world_ok w" and "p \<in> set (st_workers st)"
  shows "moves st (start_pending w now p st)" and "keeps_others p st (start_pending w now p st)"
proof -
  let ?child = "st_procs st p"
  have "moves st (start_pending w now p st) \<and> keeps_others p st (start_pending w now p st)"
  proof (cases "\<not> p_pending ?child \<or> p_stopping ?child \<noteq> 0 \<or> p_exited ?child")
    case True
    then show ?thesis by (auto simp: start_pending_def Let_def keeps_others_def)
  next
    case False
    obtain st1 ok1 where st1: "phase (map_option (\<lambda>c. cy_scope (st_cycles st c)) (p_cycle ?child)) ''pre_start'' now st
        = (st1, ok1)" by fastforce
    note p1 = phase_moves [OF assms(1) st1] and i1 = phase_inv [OF assms(1) st1]
    obtain st2 ok2 where st2: "phase (p_scope ?child) ''pre_start'' now st1 = (st2, ok2)" by fastforce
    note p2 = phase_moves [OF i1 st2] and i2 = phase_inv [OF i1 st2]
    have same: "st_procs st2 = st_procs st" "st_workers st2 = st_workers st"
      using same_workersD(1,4) [OF p1(2)] same_workersD(1,4) [OF p2(2)] by simp_all
    obtain st3 started where st3: "start_process w p now st2 = (st3, started)" by fastforce
    have m3: "moves st2 st3"
      using start_process_moves [OF i2 assms(3), of p now] False assms(4) st3 same by simp
    have i3: "inv st3" using moves_inv [OF m3 i2] .
    have k3: "keeps_others p st st3"
      using start_process_workers [of st2 w p now] st3 same by (auto simp: keeps_others_def)
    let ?st4 = "if started then lifecycle w p now st3 else fail_stop w p now st3"
    have "moves st3 ?st4" and k: "keeps_others p st3 ?st4"
      using lifecycle_moves [OF i3] fail_stop_moves [OF i3 assms(2)]
        releases_keeps [OF lifecycle_others [OF i3]]
        releases_keeps [OF fail_stop_others [OF i3 assms(2)]] by auto
    with m3 have m4: "moves st2 ?st4" by simp
    have k4: "keeps_others p st ?st4" using k3 k by (rule keeps_others_trans)
    have m2: "moves st st2" using p1(1) p2(1) by (rule rtranclp_trans)
    have k2: "keeps_others p st st2" using same by (simp add: keeps_others_def)
    have "start_pending w now p st = (if ok1 \<and> ok2 then ?st4 else st2)"
      using False by (simp only: start_pending_def Let_def st1 st2 st3 prod.case) simp
    with m2 m4 k4 k2 show ?thesis by (auto intro: rtranclp_trans)
  qed
  then show "moves st (start_pending w now p st)" and "keeps_others p st (start_pending w now p st)"
    by auto
qed

lemma start_all_moves:
  "inv st \<Longrightarrow> 0 < now \<Longrightarrow> world_ok w \<Longrightarrow> distinct ps \<Longrightarrow> set ps \<subseteq> set (st_workers st) \<Longrightarrow>
   moves st (fold (start_pending w now) ps st)"
proof (induction ps arbitrary: st)
  case (Cons p ps)
  then have p: "p \<in> set (st_workers st)" by simp
  note m = start_pending_moves [OF Cons.prems(1-3) p]
  have "set ps \<subseteq> set (st_workers (start_pending w now p st))"
    using m(2) Cons.prems(4,5) by (auto simp: keeps_others_def)
  then have "moves (start_pending w now p st) (fold (start_pending w now) ps (start_pending w now p st))"
    using Cons.prems moves_inv [OF m(1) Cons.prems(1)] by (intro Cons.IH) auto
  with m(1) show ?case by simp
qed simp

lemma shrink_moves:
  "inv st \<Longrightarrow> 0 < now \<Longrightarrow> moves st (shrink w s minimum wanted now ps avail st)"
proof (induction ps arbitrary: avail st)
  case (Cons p ps)
  have "moves (stop w p now st) (shrink w s minimum wanted now ps (avail - 1) (stop w p now st))"
    using Cons stop_moves moves_inv by blast
  with Cons stop_moves [of st now w p] show ?case by (auto intro: rtranclp_trans)
qed simp

lemma inv_service:
  assumes "inv st" and "s \<in> snd ` set (st_services st)"
  obtains n where "service_ok st n s" and "(n, s) \<in> set (st_services st)"
  using assms services_okD(3) by (fastforce simp: inv_def)

lemma tick_scheduled_moves:
  assumes "inv st" and "world_ok w" and "s \<in> snd ` set (st_services st)"
  shows "moves st (tick_scheduled w s now st)"
proof (cases "s_scheduled (st_servs st s)")
  case True
  let ?st1 = "upd_serv s (\<lambda>service. service\<lparr>s_scheduled := False\<rparr>) st"
  have m: "moves st ?st1" by (intro moves_service) (simp add: kept_service_def)
  obtain n where "service_ok st n s" by (rule inv_service [OF assms(1,3)])
  with True have "room st s" by (auto simp: service_ok_def room_def Let_def)
  then have "room ?st1 s" by (subst room_cong [of ?st1 st]) simp_all
  then have "moves ?st1 (fst (spawn w s now ?st1))"
    using assms moves_inv [OF m assms(1)] by (intro spawn_moves) simp_all
  with m True show ?thesis by (simp add: tick_scheduled_def)
qed (simp add: tick_scheduled_def)

lemma observe_fields [simp]:
  "st_procs (observe_pressure s now st) = st_procs st"
  "s_config (st_servs (observe_pressure s now st) t) = s_config (st_servs st t)"
  "s_name (st_servs (observe_pressure s now st) t) = s_name (st_servs st t)"
  "s_scheduled (st_servs (observe_pressure s now st) t) = s_scheduled (st_servs st t)"
  "s_demand (st_servs (observe_pressure s now st) t) = s_demand (st_servs st t)"
  "s_retry_at (st_servs (observe_pressure s now st) t) = s_retry_at (st_servs st t)"
  "st_services (observe_pressure s now st) = st_services st"
  "st_resource_block (observe_pressure s now st) = st_resource_block st"
  by (simp_all add: observe_pressure_def)

lemma should_grow_room:
  "should_grow (st_servs st s) (available st s) start needed pressure now \<Longrightarrow>
   app_schedule (s_config (st_servs st s)) = [] \<Longrightarrow> room st s"
  by (simp add: should_grow_def room_def Let_def)

lemma note_wanted_moves: "moves st (upd_serv s (note_wanted wanted now) st)"
  by (intro moves_service) (simp add: kept_service_def note_wanted_def)

lemma tick_pool_moves:
  assumes "inv st" and "0 < now" and "world_ok w" and "s \<in> snd ` set (st_services st)"
    and pool: "app_schedule (s_config (st_servs st s)) = []"
  shows "moves st (tick_pool w s wanted needed now st)"
proof -
  define st1 where "st1 = observe_pressure s now st"
  obtain window pressed where ev: "evaluate_window now (app_scale_window (s_config (st_servs st s)))
      (app_scale_at (s_config (st_servs st s))) (s_pressure (st_servs st1 s)) = (window, pressed)" by fastforce
  define st2 where "st2 = upd_serv s (\<lambda>service. service\<lparr>s_pressure := window\<rparr>) st1"
  define avail where "avail = available st2 s"
  define grow where "grow = should_grow (st_servs st2 s) avail (starting st2 s) needed
    (st_resource_block st2 = [] \<and> pressed) now"
  obtain st3 started where sp: "spawn w s now st2 = (st3, started)" by fastforce
  define st4 where "st4 = (if grow
    then observe_pressure s now (if started then st3 else backoff s now st3) else st2)"
  define st5 where "st5 = (if avail > 0 then upd_serv s (\<lambda>service. service\<lparr>s_demand := False\<rparr>) st4 else st4)"
  define st6 where "st6 = upd_serv s (note_wanted wanted now) st5"
  have m1: "moves st st1" unfolding st1_def by (rule moves_observe)
  have m2: "moves st1 st2" unfolding st2_def by (intro moves_service) (simp add: kept_service_def)
  have i2: "inv st2" using m1 m2 assms(1) moves_inv by blast
  have stable: "stable st st2" using m1 m2 moves_stable stable_trans by blast
  then have s: "s \<in> snd ` set (st_services st2)" "app_schedule (s_config (st_servs st2 s)) = []"
    using assms(4) pool by (simp_all add: stable_def)
  obtain n where "service_ok st2 n s" by (rule inv_service [OF i2 s(1)])
  with s(2) have unscheduled: "\<not> s_scheduled (st_servs st2 s)" by (auto simp: service_ok_def Let_def)
  have "moves st2 st3" if grow
    using spawn_moves [OF i2 assms(3) s(1) unscheduled, of now] should_grow_room [OF _ s(2)] that sp
    by (simp add: grow_def avail_def)
  moreover have "moves st3 (observe_pressure s now (if started then st3 else backoff s now st3))"
    using moves_observe rtranclp_trans [OF moves_backoff moves_observe] by auto
  ultimately have m4: "moves st2 st4" unfolding st4_def by (auto intro: rtranclp_trans)
  have m5: "moves st4 st5" unfolding st5_def using moves_demand by auto
  have m6: "moves st5 st6" unfolding st6_def by (rule note_wanted_moves)
  have m: "moves st st6" using m1 m2 m4 m5 m6 by simp
  have "tick_pool w s wanted needed now st = shrink w s
      (if needed then max (app_min_workers (s_config (st_servs st s))) 1 else app_min_workers (s_config (st_servs st s)))
      wanted now (w_order w (LoopIdle s) (s_workers (st_servs st6 s))) avail st6"
    by (simp only: tick_pool_def Let_def st1_def [symmetric] ev prod.case st2_def [symmetric]
        avail_def [symmetric] grow_def [symmetric] sp st4_def [symmetric] st5_def [symmetric] st6_def [symmetric])
  with m shrink_moves [OF moves_inv [OF m assms(1)] assms(2)] show ?thesis by (simp add: rtranclp_trans)
qed

lemma tick_service_moves:
  assumes "inv st" and "0 < now" and "world_ok w" and s: "s \<in> snd ` set (st_services st)"
  shows "moves st (tick_service w now marks s st)"
proof (cases "dependencies_ready st (s_config (st_servs st s)) False")
  case False
  define st1 where "st1 = (if s_workers (st_servs st s) \<noteq> [] \<and> app_schedule (s_config (st_servs st s)) = []
    then upd_serv s (\<lambda>service. service\<lparr>s_demand := True\<rparr>) st else st)"
  have m1: "moves st st1" unfolding st1_def using moves_demand by auto
  have "moves st1 (fold (\<lambda>p. stop w p now) (w_order w (LoopDependency s) (s_workers (st_servs st s))) st1)"
    using moves_inv [OF m1 assms(1)] assms(2) by (intro moves_fold stop_moves)
  with False m1 show ?thesis
    by (simp add: tick_service_def Let_def st1_def [symmetric] rtranclp_trans)
next
  case True
  let ?ps = "w_order w (LoopPending s) (s_workers (st_servs st s))"
  define st1 where "st1 = fold (start_pending w now) ?ps st"
  obtain n where n: "service_ok st n s" by (rule inv_service [OF assms(1) s])
  have "distinct ?ps"
    using n assms(3) by (metis mset_eq_imp_distinct_iff service_ok_def world_ok_def)
  moreover have "set ?ps \<subseteq> set (st_workers st)"
    using n world_order [OF assms(3)] by (auto simp: service_ok_def Let_def)
  ultimately have m1: "moves st st1"
    unfolding st1_def using assms by (intro start_all_moves)
  have st: "s \<in> snd ` set (st_services st1)" "s_config (st_servs st1 s) = s_config (st_servs st s)"
    using moves_stable [OF m1] s by (simp_all add: stable_def)
  have i1: "inv st1" using moves_inv [OF m1 assms(1)] .
  have "moves st1 (tick_service w now marks s st)"
    using True tick_scheduled_moves [OF i1 assms(3) st(1)] tick_pool_moves [OF i1 assms(2,3) st(1)] st(2)
    by (simp add: tick_service_def Let_def st1_def [symmetric])
  with m1 show ?thesis by (rule rtranclp_trans)
qed

lemma tick_services_fold:
  "inv st \<Longrightarrow> 0 < now \<Longrightarrow> world_ok w \<Longrightarrow> set ss \<subseteq> snd ` set (st_services st) \<Longrightarrow>
   moves st (fold (tick_service w now marks) ss st)"
proof (induction ss arbitrary: st)
  case (Cons s ss)
  then have m: "moves st (tick_service w now marks s st)" by (intro tick_service_moves) auto
  then have "moves (tick_service w now marks s st) (fold (tick_service w now marks) ss (tick_service w now marks s st))"
    using Cons.prems moves_stable [OF m] moves_inv [OF m] by (intro Cons.IH) (auto simp: stable_def)
  with m show ?case by simp
qed simp

lemma tick_services_moves:
  assumes "inv st" and "0 < now" and "world_ok w"
  shows "moves st (tick_services w now st)"
proof -
  define st1 where "st1 = st\<lparr>st_resource_block := blocked (st_limits st) (st_resources st) now\<rparr>"
  obtain st2 marks where a: "fold (activate_service w now) (st_services st1) (st1, [], []) = (st2, marks)"
    by (cases "fold (activate_service w now) (st_services st1) (st1, [], [])")
  have m1: "moves st st1" unfolding st1_def by (intro moves_other) (simp add: same_core_def)
  have m2: "moves st1 st2"
    using activate_fold_moves [OF moves_inv [OF m1 assms(1)], of w now "st_services st1" "([], [])"] a by simp
  have i2: "inv st2" using m1 m2 assms(1) moves_inv by blast
  have "set (w_order w LoopServices (map snd (st_services st2))) \<subseteq> snd ` set (st_services st2)"
    using world_order [OF assms(3)] by simp
  then have "moves st2 (tick_services w now st)"
    using tick_services_fold [OF i2 assms(2,3)] a
    by (simp add: tick_services_def Let_def st1_def [symmetric])
  with m1 m2 show ?thesis by simp
qed

lemma tick_workers_moves:
  "set ps \<subseteq> {..<st_next_proc st} \<Longrightarrow> inv st \<Longrightarrow> 0 < now \<Longrightarrow> moves st (fold (tick_worker w now) ps st)"
proof (induction ps arbitrary: st)
  case (Cons p ps)
  then have m: "moves st (tick_worker w now p st)" by (intro tick_worker_moves) auto
  then have "set ps \<subseteq> {..<st_next_proc (tick_worker w now p st)}"
    using Cons.prems(1) moves_evolves [OF m] by (auto simp: evolves_def intro: less_le_trans)
  then have "moves (tick_worker w now p st) (fold (tick_worker w now) ps (tick_worker w now p st))"
    using moves_inv [OF m Cons.prems(2)] Cons.prems(3) by (rule Cons.IH)
  with m show ?case by simp
qed simp

theorem tick_moves:
  assumes "inv st" and "0 < now" and "world_ok w"
  shows "moves st (tick w now stopping st)"
proof -
  define st1 where "st1 = (if stopping then st else fold (rearm_listener w now) (map snd (st_listeners st)) st)"
  define st2 where "st2 = fold (tick_worker w now) (w_order w LoopWorkers (st_workers st1)) st1"
  have m1: "moves st st1" unfolding st1_def using assms(1) by (auto intro: moves_fold rearm_moves)
  have i1: "inv st1" using moves_inv [OF m1 assms(1)] .
  have "set (w_order w LoopWorkers (st_workers st1)) \<subseteq> {..<st_next_proc st1}"
    using workers_below i1 world_order [OF assms(3)] by (simp add: inv_def)
  then have m2: "moves st1 st2" unfolding st2_def using i1 assms(2) by (rule tick_workers_moves)
  have i2: "inv st2" using moves_inv [OF m2 i1] .
  have "moves st2 (if stopping then fold (stop_unrequired w now) (w_order w LoopStopping (st_workers st2)) st2
      else tick_services w now st2)"
    using i2 assms by (auto intro: moves_fold stop_unrequired_moves tick_services_moves)
  then have "moves st2 (tick w now stopping st)"
    by (simp only: tick_def Let_def st1_def [symmetric] st2_def [symmetric])
  with m1 m2 show ?thesis by simp
qed

subsection \<open>Restart and shutdown\<close>

theorem restart_moves:
  assumes "inv st" and "0 < now"
  shows "moves st (restart w s now st)"
proof -
  have loop: "inv x \<Longrightarrow> moves x (fst (fold (restart_one w now) ps (x, active)))" for ps x active
  proof (induction ps arbitrary: x active)
    case (Cons p ps)
    obtain y b where y: "restart_one w now p (x, active) = (y, b)"
      by (cases "restart_one w now p (x, active)")
    have m: "moves x y"
      using y stop_moves [OF Cons.prems assms(2)] by (auto simp: restart_one_def split: if_splits)
    from Cons.IH [OF moves_inv [OF m Cons.prems], of b] m y show ?case by simp
  qed simp
  obtain st1 active where st1: "fold (restart_one w now) (w_order w LoopRestart (s_workers (st_servs st s))) (st, False)
      = (st1, active)" by fastforce
  have "moves st st1" using loop [OF assms(1)] st1 by (metis fst_conv)
  moreover have "moves st1 (upd_serv s (\<lambda>service. service\<lparr>s_failures := 0, s_retry_at := 0\<rparr>) st1)"
    by (intro moves_service) (simp add: kept_service_def)
  ultimately show ?thesis by (auto simp: restart_def st1)
qed

lemma close_listener_moves: "moves st (close_listener l st)"
  by (intro moves_other) (auto simp: close_listener_def same_core_def)

lemma close_service_moves: "moves st (close_service s st)"
proof -
  have "moves st (upd_serv s (\<lambda>service. service\<lparr>s_listener := None\<rparr>) (close_listener l st))" for l
    by (intro rtranclp_trans [OF close_listener_moves moves_service]) (simp add: kept_service_def)
  then show ?thesis by (simp add: close_service_def split: option.split)
qed

theorem shutdown_moves:
  assumes "inv st" and "0 < now" and "world_ok w"
  shows "moves st (shutdown w now st)"
proof -
  have m: "moves st (fold close_service (map snd (st_services st)) st)"
    by (rule moves_fold [OF close_service_moves assms(1)])
  show ?thesis
    unfolding shutdown_def using m tick_moves [OF moves_inv [OF m assms(1)] assms(2,3)] by (rule rtranclp_trans)
qed

end
