(* ===== verification/Reconfiguration.thy ===== *)
theory Reconfiguration
  imports Operations
begin

text \<open>
  \<^verbatim>\<open>apply\<close> is a sequence of moves too, with the two that change the table of services: a service is
  dropped or replaced only when all its workers have been told to stop.
\<close>

subsection \<open>Staging\<close>

text \<open>Staging does not touch the services.\<close>

lemma same_core_refl: "same_core st st"
  by (simp add: same_core_def)

lemma same_core_trans:
  assumes "same_core st st1" and "same_core st1 st2"
  shows "same_core st st2"
proof -
  obtain es fs where "st_effects st1 = st_effects st @ es" "\<forall>e \<in> set es. quiet e"
    "st_effects st2 = st_effects st1 @ fs" "\<forall>e \<in> set fs. quiet e"
    using assms by (auto simp: same_core_def)
  then have "st_effects st2 = st_effects st @ (es @ fs)" "\<forall>e \<in> set (es @ fs). quiet e" by auto
  with assms show ?thesis unfolding same_core_def by metis
qed

lemma same_core_fold: "(\<And>x st. same_core st (f x st)) \<Longrightarrow> same_core st (fold f xs st)"
  by (induction xs arbitrary: st) (auto intro: same_core_refl same_core_trans)

lemma open_listeners_same: "same_core st (fst (open_listeners w apps st opened))"
proof (induction w apps st opened rule: open_listeners.induct)
  case (2 w name app apps st opened)
  let ?l = "st_next_listener st + 1"
  define st1 where "st1 = emit (OpenListener ?l (app_listen app)) (st\<lparr>st_next_listener := ?l\<rparr>)"
  define st2 where "st2 bound = upd_list ?l (\<lambda>_. \<lparr>l_address = bound, l_rearm_at = 0\<rparr>) st1" for bound
  have open1: "same_core st (st2 bound)" for bound by (simp add: st1_def st2_def same_core_def)
  have close1: "same_core st (emit (CloseListener ?l) (st2 bound))" for bound
    by (simp add: st1_def st2_def same_core_def)
  consider (skip) "\<not> needs_listener st name app"
    | (failed) "needs_listener st name app" "w_open w name = None"
    | (exhausted) bound where "needs_listener st name app" "w_open w name = Some bound"
        "st_next_listener st = 2 ^ 31 - 1"
    | (opened) bound where "needs_listener st name app" "w_open w name = Some bound"
        "st_next_listener st \<noteq> 2 ^ 31 - 1"
    by (cases "w_open w name") auto
  then show ?case
  proof cases
    case opened
    then have "same_core (st2 bound) (fst (open_listeners w apps (st2 bound) (opened @ [(name, ?l)])))"
      if "w_arm w ?l" using 2(2) that by (simp add: st1_def st2_def)
    from same_core_trans [OF open1 this] opened close1 [of bound] show ?thesis
      by (simp add: st1_def [symmetric] st2_def [symmetric]) (simp add: Let_def)
  qed (use 2(1) in \<open>auto simp: same_core_refl\<close>)
qed (simp add: same_core_refl)

lemma stage_permissions_same: "same_core st (fst (stage_permissions w apps st staged))"
proof (induction w apps st staged rule: stage_permissions.induct)
  case (2 w name app apps st staged)
  have "same_core st (emit (SetPermissions a m) st)" for a m by (simp add: same_core_def)
  with 2 show ?case by (auto simp: same_core_refl intro: same_core_trans)
qed (simp add: same_core_refl)

lemma finish_apply_same: "same_core st (finish_apply w committed staged opened st)"
proof -
  have "same_core st (finish_permissions w committed path st)" for path st
    by (auto simp: finish_permissions_def Let_def set_fatal_def same_core_def)
  then have "same_core st (fold (finish_permissions w committed) (rev staged) st)" by (rule same_core_fold)
  moreover have "same_core st (fold (\<lambda>(_, l). emit (CloseListener l)) opened st)" for st
    by (rule same_core_fold) (auto simp: same_core_def)
  ultimately show ?thesis
    by (auto simp: finish_apply_def Let_def intro: same_core_trans)
qed

lemma same_core_steps: "same_core st st' \<Longrightarrow> steps st st'"
  by (intro moves_steps moves_other)

text \<open>Stopping the workers of a service leaves none of them running.\<close>

lemma stop_stopping:
  assumes "inv st" and "0 < now" and "p < st_next_proc st"
  shows "p_stopping (st_procs (stop w p now st) p) \<noteq> 0"
proof (cases "p_stopping (st_procs st p) = 0")
  case True
  have i: "inv (stop_marked p now st)"
    using moves_inv [OF stop_marked_moves [OF assms(1,2) True] assms(1)] .
  define st1 where "st1 = upd_proc p (\<lambda>child. child\<lparr>p_stopping := now, p_ready := False\<rparr>) st"
  have m1: "moves st st1" unfolding st1_def using True assms(2) by (intro move_moves MarkStopping)
  have i1: "inv st1" using moves_inv [OF m1 assms(1)] .
  define st2 where "st2 = retire_if_idle (p_cycle (st_procs st1 p)) (cancel_checks (p_scope (st_procs st1 p)) st1)"
  have m2: "moves st1 st2"
    unfolding st2_def by (rule moves_then [OF cancel_checks_moves [OF i1] retire_if_idle_moves i1])
  have "moves st2 (stop_marked p now st)"
    unfolding stop_marked_def Let_def st1_def [symmetric] st2_def [symmetric]
    by (auto intro: rtranclp_trans [OF moves_demand moves_backoff])
  with m2 have "moves st1 (stop_marked p now st)" by (rule rtranclp_trans)
  from rtranclp_trans [OF rtranclp_trans [OF this lifecycle_moves [OF i]] moves_observe]
  have "moves st1 (stop w p now st)"
    by (simp add: stop_def stop_body_marked [OF assms(1) True])
  from moves_evolves [OF this] show ?thesis
    using assms(2,3) by (auto simp: evolves_def Let_def st1_def)
next
  case False
  with moves_evolves [OF stop_moves [OF assms(1,2), of w p]] assms(3) show ?thesis
    by (auto simp: evolves_def Let_def)
qed

lemma stop_fold:
  assumes "inv st" and "\<And>p. 0 < f p" and "set ps \<subseteq> {..<st_next_proc st}"
  shows "(\<forall>p \<in> set ps. p_stopping (st_procs (fold (\<lambda>p. stop w p (f p)) ps st) p) \<noteq> 0)
    \<and> (\<forall>s. set (s_workers (st_servs (fold (\<lambda>p. stop w p (f p)) ps st) s)) \<subseteq> set (s_workers (st_servs st s)))"
  using assms(1,3)
proof (induction ps arbitrary: st)
  case (Cons p ps)
  let ?st = "stop w p (f p) st" and ?fin = "fold (\<lambda>p. stop w p (f p)) (p # ps) st"
  have m: "moves st ?st" by (rule stop_moves [OF Cons.prems(1) assms(2)])
  have i: "inv ?st" using moves_inv [OF m Cons.prems(1)] .
  have le: "st_next_proc st \<le> st_next_proc ?st" using moves_evolves [OF m] by (simp add: evolves_def)
  have "set ps \<subseteq> {..<st_next_proc ?st}" using Cons.prems(2) le by auto
  note IH = Cons.IH [OF i this]
  have m': "moves ?st ?fin"
    using moves_fold [of ps "\<lambda>p. stop w p (f p)", OF stop_moves i] assms(2) by simp
  have "p_stopping (st_procs ?st p) \<noteq> 0"
    using stop_stopping [OF Cons.prems(1) assms(2)] Cons.prems(2) by simp
  moreover have "p < st_next_proc ?st" using Cons.prems(2) le by auto
  ultimately have "p_stopping (st_procs ?fin p) \<noteq> 0"
    using moves_evolves [OF m'] by (simp add: evolves_def Let_def)
  moreover have "\<forall>s. set (s_workers (st_servs ?st s)) \<subseteq> set (s_workers (st_servs st s))"
    using stop_others [OF Cons.prems(1) assms(2)] by (simp add: releases_def)
  ultimately show ?case using IH by fastforce
qed simp

subsection \<open>Replacing the services\<close>

lemma steps_trans: "steps st st1 \<Longrightarrow> steps st1 st2 \<Longrightarrow> steps st st2"
  by (rule rtranclp_trans)

lemma move_steps: "moves st st1 \<Longrightarrow> steps st1 st2 \<Longrightarrow> steps st st2"
  by (blast intro: rtranclp_trans moves_steps)

text \<open>While services are replaced, a service whose configuration is not the new one is draining.\<close>

definition draining :: "store \<Rightarrow> service_id \<Rightarrow> bool" where
  "draining st s \<longleftrightarrow> (\<forall>p \<in> set (s_workers (st_servs st s)). p_stopping (st_procs st p) \<noteq> 0)"

definition settled :: "apps \<Rightarrow> store \<Rightarrow> go_string \<times> service_id \<Rightarrow> bool" where
  "settled apps st = (\<lambda>(name, s). map_of apps name = Some (s_config (st_servs st s)) \<or> draining st s)"

lemma workers_of_below:
  assumes "inv st" and "s \<in> snd ` set (st_services st)"
  shows "set (s_workers (st_servs st s)) \<subseteq> {..<st_next_proc st}"
proof -
  obtain n where "service_ok st n s" by (rule inv_service [OF assms])
  then have "set (s_workers (st_servs st s)) \<subseteq> set (st_workers st)" by (auto simp: service_ok_def Let_def)
  with workers_below [of st] assms(1) show ?thesis by (auto simp: inv_def)
qed

definition stopped_all :: "world \<Rightarrow> service_id \<Rightarrow> store \<Rightarrow> store" where
  "stopped_all w s st =
     fold (\<lambda>p. stop w p (w_clock w p)) (w_order w (LoopService s) (s_workers (st_servs st s))) st"

lemma stopped_all:
  assumes "inv st" and "world_ok w" and s: "s \<in> snd ` set (st_services st)"
  shows "moves st (stopped_all w s st)" and "draining (stopped_all w s st) s"
    and "t \<in> snd ` set (st_services st) \<Longrightarrow> draining st t \<Longrightarrow> draining (stopped_all w s st) t"
proof -
  let ?ps = "w_order w (LoopService s) (s_workers (st_servs st s))"
  have clock: "0 < w_clock w p" for p using assms(2) by (simp add: world_ok_def)
  have ps: "set ?ps = set (s_workers (st_servs st s))" by (rule world_order [OF assms(2)])
  show m: "moves st (stopped_all w s st)"
    unfolding stopped_all_def by (intro moves_fold stop_moves assms(1) clock)
  have below: "set ?ps \<subseteq> {..<st_next_proc st}"
    unfolding ps by (rule workers_of_below [OF assms(1) s])
  note f = stop_fold [OF assms(1), of "w_clock w", OF clock below, folded stopped_all_def, where w = w]
  from f ps show "draining (stopped_all w s st) s" unfolding draining_def stopped_all_def by blast
  assume t: "t \<in> snd ` set (st_services st)" "draining st t"
  show "draining (stopped_all w s st) t"
    unfolding draining_def
  proof
    fix p assume "p \<in> set (s_workers (st_servs (stopped_all w s st) t))"
    with f have p: "p \<in> set (s_workers (st_servs st t))" unfolding stopped_all_def by blast
    with workers_of_below [OF assms(1) t(1)] have "p < st_next_proc st" by auto
    with moves_evolves [OF m] t(2) p show "p_stopping (st_procs (stopped_all w s st) p) \<noteq> 0"
      by (auto simp: evolves_def draining_def Let_def)
  qed
qed

lemma close_listener_same: "same_core st (close_listener l st)"
  by (auto simp: close_listener_def same_core_def)

lemma settled_same: "same_core st st' \<Longrightarrow> settled apps st' = settled apps st"
  by (simp add: fun_eq_iff settled_def draining_def same_core_def)

lemma settled_stopped:
  assumes "inv st" and "world_ok w" and "s \<in> snd ` set (st_services st)"
    and "(n, t) \<in> set (st_services st)" and "settled apps st (n, t)"
  shows "settled apps (stopped_all w s st) (n, t)"
proof -
  have "t \<in> snd ` set (st_services st)" using assms(4) by force
  with stopped_all [OF assms(1-3)] moves_stable [of st "stopped_all w s st"] assms(5) show ?thesis
    by (auto simp: settled_def stable_def)
qed

text \<open>Retiring one service settles it, and keeps the others as they are.\<close>

definition retires :: "apps \<Rightarrow> go_string \<times> service_id \<Rightarrow> store \<Rightarrow> store \<Rightarrow> bool" where
  "retires apps entry st st' \<longleftrightarrow>
     set (st_services st') \<subseteq> set (st_services st) \<and> set (st_services st) - {entry} \<subseteq> set (st_services st')
     \<and> (\<forall>e \<in> set (st_services st'). e = entry \<or> settled apps st e \<longrightarrow> settled apps st' e)"

lemma retire_service_retires:
  assumes i: "inv st" and w: "world_ok w" and e: "(name, s) \<in> set (st_services st)"
  shows "steps st (retire_service w apps (name, s) st) \<and> retires apps (name, s) st (retire_service w apps (name, s) st)"
proof (cases "map_of apps name = Some (s_config (st_servs st s))")
  case True
  then show ?thesis by (auto simp: retire_service_def retires_def settled_def)
next
  case False
  have s: "s \<in> snd ` set (st_services st)" using e by force
  define st1 where "st1 = stopped_all w s st"
  have m1: "moves st st1" and d1: "draining st1 s" using stopped_all [OF i w s] by (simp_all add: st1_def)
  have sv1: "st_services st1 = st_services st" using moves_stable [OF m1] by (simp add: stable_def)
  have keep: "settled apps st1 x" if "x \<in> set (st_services st)" "settled apps st x" for x
    using settled_stopped [OF i w s] that unfolding st1_def by (cases x) blast
  have new1: "settled apps st1 (name, s)" using d1 by (simp add: settled_def)
  define drop where "drop \<longleftrightarrow> (case map_of apps name of None \<Rightarrow> True
    | Some app \<Rightarrow> app_listen (s_config (st_servs st s)) \<noteq> app_listen app)"
  define st2 where "st2 = (case s_listener (st_servs st1 s) of None \<Rightarrow> st1 | Some l \<Rightarrow> close_listener l st1)"
  have c: "same_core st1 st2"
    unfolding st2_def by (auto split: option.split intro: close_listener_same same_core_refl)
  have eq: "retire_service w apps (name, s) st =
      (if drop then st2\<lparr>st_services := AList.delete name (st_services st2)\<rparr> else st1)"
    using False unfolding drop_def
    by (simp add: retire_service_def Let_def st1_def [unfolded stopped_all_def, symmetric] st2_def [symmetric])
  show ?thesis
  proof (cases drop)
    case False
    then show ?thesis
      using m1 sv1 keep new1 unfolding eq by (auto simp: retires_def intro: moves_steps)
  next
    case True
    let ?st = "st2\<lparr>st_services := AList.delete name (st_services st2)\<rparr>"
    have sv2: "st_services st2 = st_services st" using c sv1 by (simp add: same_core_def)
    have "distinct (map fst (st_services st))" using i services_okD(1) by (simp add: inv_def)
    then have name: "map_of (st_services st2) name = Some s" using e by (simp add: sv2)
    have "reconfigure st2 ?st"
      using d1 c by (intro DropService [OF name]) (simp add: draining_def same_core_def)
    then have "steps st2 ?st" by (intro r_into_rtranclp) simp
    then have "steps st ?st" using move_steps [OF m1] same_core_steps [OF c] steps_trans by blast
    moreover have "settled apps ?st x = settled apps st1 x" for x
      using settled_same [OF c, of apps] by (cases x) (simp add: settled_def draining_def)
    moreover have "set (AList.delete name (st_services st)) = set (st_services st) - {(name, s)}"
      using e \<open>distinct (map fst (st_services st))\<close> by (auto simp: AList.delete_eq eq_key_imp_eq_value)
    ultimately show ?thesis using True keep new1 unfolding eq by (auto simp: retires_def sv2)
  qed
qed

lemma inv_distinct: "inv st \<Longrightarrow> distinct (map fst (st_services st))"
  using services_okD(1) by (simp add: inv_def)

lemma retire_all:
  assumes "inv st" and "world_ok w" and "distinct es" and "set es \<subseteq> set (st_services st)"
    and "\<forall>e \<in> set (st_services st) - set es. settled apps st e"
  shows "steps st (fold (retire_service w apps) es st)
    \<and> (\<forall>e \<in> set (st_services (fold (retire_service w apps) es st)). settled apps (fold (retire_service w apps) es st) e)"
  using assms(1,3-5)
proof (induction es arbitrary: st)
  case (Cons e es)
  let ?st = "retire_service w apps e st"
  have r: "steps st ?st" "retires apps e st ?st"
    using retire_service_retires [OF Cons.prems(1) assms(2), of "fst e" "snd e"] Cons.prems(3) by simp_all
  have "set es \<subseteq> set (st_services ?st)" "\<forall>x \<in> set (st_services ?st) - set es. settled apps ?st x"
    using r(2) Cons.prems(2-4) by (auto simp: retires_def)
  with Cons.prems(2) Cons.IH [OF steps_inv [OF r(1) Cons.prems(1)]]
  have "steps ?st (fold (retire_service w apps) es ?st)
    \<and> (\<forall>x \<in> set (st_services (fold (retire_service w apps) es ?st)).
      settled apps (fold (retire_service w apps) es ?st) x)" unfolding distinct.simps by blast
  with steps_trans [OF r(1)] show ?case unfolding fold_Cons comp_apply by blast
qed simp

lemma install_service_installed:
  assumes "map_option s_config (current_service st name) \<noteq> Some app"
  obtains sv where "s_name sv = name" and "s_config sv = app" and "\<not> s_scheduled sv" and "s_failures sv = 0"
    and "s_cycle sv = None"
    and "s_workers sv = (case map_of (st_services st) name of None \<Rightarrow> [] | Some s \<Rightarrow> s_workers (st_servs st s))"
    and "same_core (installed name sv st) (install_service w plans opened (name, app) st)"
proof -
  define listener where "listener = (case current_service st name of None \<Rightarrow> map_of opened name
    | Some service \<Rightarrow> s_listener service)"
  define workers where "workers = (case current_service st name of None \<Rightarrow> [] | Some service \<Rightarrow> s_workers service)"
  define sv where "sv = new_service name app listener (lookup_or zero_schedule plans name)
    (w_clock w (st_next_serv st)) workers"
  define st1 where "st1 = installed name sv st"
  have f: "s_name sv = name" "s_config sv = app" "\<not> s_scheduled sv" "s_failures sv = 0" "s_cycle sv = None"
    "s_workers sv = workers" by (simp_all add: sv_def new_service_def)
  have "st1 = (fold (adopt (st_next_serv st)) workers (alloc_serv sv st))
        \<lparr>st_services := AList.update name (st_next_serv st)
          (st_services (fold (adopt (st_next_serv st)) workers (alloc_serv sv st)))\<rparr>"
    using f by (simp add: st1_def installed_def Let_def)
  then have "install_service w plans opened (name, app) st = (case listener of None \<Rightarrow> st1
      | Some l \<Rightarrow> st1\<lparr>st_listeners := AList.update l (st_next_serv st) (st_listeners st1)\<rparr>)"
    using assms by (simp only: install_service_def Let_def prod.case if_False
        listener_def [symmetric] workers_def [symmetric] sv_def [symmetric])
  then have "same_core st1 (install_service w plans opened (name, app) st)"
    by (simp add: same_core_def split: option.split)
  moreover have "workers = (case map_of (st_services st) name of None \<Rightarrow> [] | Some s \<Rightarrow> s_workers (st_servs st s))"
    by (simp add: workers_def current_service_def split: option.split)
  ultimately show ?thesis using f that unfolding st1_def by metis
qed

lemma install_service_steps:
  assumes i: "inv st" and app: "map_of apps name = Some app"
    and settled: "\<forall>e \<in> set (st_services st). settled apps st e"
  shows "steps st (install_service w plans opened (name, app) st)
    \<and> (\<forall>e \<in> set (st_services (install_service w plans opened (name, app) st)).
        settled apps (install_service w plans opened (name, app) st) e)"
proof (cases "map_option s_config (current_service st name) = Some app")
  case True
  then show ?thesis using settled by (simp add: install_service_def)
next
  case False
  obtain sv where sv: "s_name sv = name" "s_config sv = app" "\<not> s_scheduled sv" "s_failures sv = 0" "s_cycle sv = None"
    "s_workers sv = (case map_of (st_services st) name of None \<Rightarrow> [] | Some s \<Rightarrow> s_workers (st_servs st s))"
    and c: "same_core (installed name sv st) (install_service w plans opened (name, app) st)"
    by (rule install_service_installed [OF False])
  have "\<forall>p \<in> set (s_workers sv). p_stopping (st_procs st p) \<noteq> 0"
  proof (cases "map_of (st_services st) name")
    case None
    then show ?thesis using sv(6) by simp
  next
    case (Some s)
    then have "settled apps st (name, s)" using settled map_of_SomeD by fastforce
    with False Some app have "draining st s" by (auto simp: settled_def current_service_def)
    then show ?thesis using Some sv(6) by (simp add: draining_def)
  qed
  then have "reconfigure st (installed name sv st)" using sv by (intro Install)
  then have "steps st (installed name sv st)" by (intro r_into_rtranclp) simp
  then have "steps st (install_service w plans opened (name, app) st)"
    using same_core_steps [OF c] steps_trans by blast
  moreover have "settled apps (installed name sv st) (n, t)" if "(n, t) \<in> set (st_services (installed name sv st))" for n t
  proof (cases "n = name")
    case True
    with that have "t = st_next_serv st" by (simp add: update_entry [OF inv_distinct [OF i]])
    then show ?thesis using True app sv(2) by (simp add: settled_def)
  next
    case False
    with that have e: "(n, t) \<in> set (st_services st)" by (simp add: update_entry [OF inv_distinct [OF i]])
    then have "t \<noteq> st_next_serv st" using i services_okD(3) by (fastforce simp: inv_def service_ok_def Let_def)
    then show ?thesis using settled e by (auto simp: settled_def draining_def installed_procs)
  qed
  ultimately show ?thesis using settled_same [OF c, of apps] c by (auto simp: same_core_def)
qed

lemma install_all:
  assumes "inv st" and "set entries \<subseteq> set apps" and "distinct (map fst apps)"
    and "\<forall>e \<in> set (st_services st). settled apps st e"
  shows "steps st (fold (install_service w plans opened) entries st)"
  using assms(1,2,4)
proof (induction entries arbitrary: st)
  case (Cons e entries)
  let ?st = "install_service w plans opened e st"
  have "map_of apps (fst e) = Some (snd e)" using Cons.prems(2) assms(3) by simp
  from install_service_steps [OF Cons.prems(1) this Cons.prems(3), of w plans opened]
  have r: "steps st ?st" "\<forall>e \<in> set (st_services ?st). settled apps ?st e" by simp_all
  have "steps ?st (fold (install_service w plans opened) entries ?st)"
    using Cons.prems(2) r(2) by (intro Cons.IH steps_inv [OF r(1) Cons.prems(1)]) auto
  with steps_trans [OF r(1)] show ?case unfolding fold_Cons comp_apply by blast
qed simp

lemma same_core_limits: "same_core st (st\<lparr>st_limits := x\<rparr>)"
  by (simp add: same_core_def)

theorem apply_steps:
  assumes i: "inv st" and w: "world_ok w" and d: "distinct (map fst (sn_apps sn))"
  shows "steps st (fst (apply_snapshot w sn st))"
proof (cases "sn_cgroup sn = st_cgroup st")
  case True
  show ?thesis
  proof (cases "plan_schedules (sn_apps sn)")
    case (Inl e)
    then show ?thesis using True by (simp add: apply_snapshot_def)
  next
    case (Inr plans)
    obtain st1 failure1 opened where st1: "open_listeners w (sn_apps sn) st [] = (st1, failure1, opened)"
      by (metis prod_cases3)
    have c1: "same_core st st1" using open_listeners_same [of st w "sn_apps sn" "[]"] st1 by simp
    obtain st2 failure2 staged where st2: "stage_permissions w (sn_apps sn) st1 [] = (st2, failure2, staged)"
      by (metis prod_cases3)
    have c2: "same_core st st2"
      using stage_permissions_same [of st1 w "sn_apps sn" "[]"] st2 same_core_trans [OF c1] by simp
    have i2: "inv st2" using steps_inv [OF same_core_steps [OF c2] i] .
    define st3 where "st3 = fold (retire_service w (sn_apps sn)) (st_services st2) st2"
    have "distinct (st_services st2)" using inv_distinct [OF i2] by (simp add: distinct_map)
    then have s3: "steps st2 st3" "\<forall>e \<in> set (st_services st3). settled (sn_apps sn) st3 e"
      unfolding st3_def using retire_all [OF i2 w, of "st_services st2" "sn_apps sn"] by simp_all
    define st4 where "st4 = fold (install_service w plans opened) (sn_apps sn) st3"
    have s4: "steps st3 st4"
      unfolding st4_def by (rule install_all [OF steps_inv [OF s3(1) i2] subset_refl d s3(2)])
    define st5 where "st5 = st4\<lparr>st_limits := sn_resources sn\<rparr>"
    have s5: "steps st4 st5" unfolding st5_def by (rule same_core_steps [OF same_core_limits])
    have s5: "steps st st5"
      by (rule steps_trans [OF same_core_steps [OF c2] steps_trans [OF s3(1) steps_trans [OF s4 s5]]])
    have f: "steps st x \<Longrightarrow> steps st (finish_apply w b ps ls x)" for x b ps ls
      by (rule steps_trans [OF _ same_core_steps [OF finish_apply_same]])
    have "fst (apply_snapshot w sn st) = (case failure1 of Some e \<Rightarrow> finish_apply w False [] opened st1
      | None \<Rightarrow> (case failure2 of Some e \<Rightarrow> finish_apply w False staged opened st2
          | None \<Rightarrow> finish_apply w True staged opened st5))"
      using True Inr
      by (simp add: apply_snapshot_def Let_def st1 st2 st3_def [symmetric] st4_def [symmetric]
          st5_def [symmetric] split: option.split)
    also have "steps st \<dots>"
      using f [OF same_core_steps [OF c1]] f [OF same_core_steps [OF c2]] f [OF s5]
      by (cases failure1; cases failure2) (simp_all only: option.case)
    finally show ?thesis .
  qed
qed (simp add: apply_snapshot_def)

end
