(* ===== verification/Supervisor.thy ===== *)
theory Supervisor
  imports Reconfiguration
begin

text \<open>
  The loop of \<^verbatim>\<open>run\<close> in \<^verbatim>\<open>src/main.go\<close>: one iteration looks for a fatal error, returns when a
  stopping supervisor has nothing left, and otherwise reacts to one input.  Everything the
  supervisor does is reached by such iterations, so the invariants of \<open>Moves\<close> hold throughout.
\<close>

subsection \<open>The loop\<close>

datatype run_error = Fatal fatal_error | WatcherFailed

text \<open>The local variables of \<^verbatim>\<open>run\<close>: \<open>su_done\<close> and \<open>su_watch\<close> say that the channels \<^verbatim>\<open>done\<close> and
  \<^verbatim>\<open>watchDone\<close> have not been set to \<^verbatim>\<open>nil\<close>.\<close>

record supervisor =
  su_store :: store
  su_stopping :: bool
  su_result :: "run_error option"
  su_pending :: "snapshot option"
  su_retry :: time
  su_done :: bool
  su_watch :: bool

text \<open>What the \<^verbatim>\<open>select\<close> receives; the flag of \<open>WatchEnded\<close> is \<^verbatim>\<open>ctx.Err() == nil\<close>.\<close>

datatype input =
    Sampled resource_sample
  | Cancelled
  | WatchEnded bool
  | Updated "snapshot option" "(go_string \<times> app) list"
  | Received message
  | Ticked

definition check_fatal :: "world \<Rightarrow> time \<Rightarrow> supervisor \<Rightarrow> supervisor" where
  "check_fatal w now su = (case st_fatal (su_store su) of
     None \<Rightarrow> su
   | Some e \<Rightarrow>
       (let su = (if su_result su = None then su\<lparr>su_result := Some (Fatal e)\<rparr> else su)
        in if su_stopping su then su
           else su\<lparr>su_stopping := True, su_store := shutdown w now (su_store su)\<rparr>))"

definition restart_named :: "world \<Rightarrow> go_string \<times> app \<Rightarrow> store \<Rightarrow> store" where
  "restart_named w = (\<lambda>(name, config) st. case map_of (st_services st) name of
     None \<Rightarrow> st
   | Some s \<Rightarrow> if s_config (st_servs st s) = config then restart w s (w_clock w s) st else st)"

definition update_snapshot :: "world \<Rightarrow> time \<Rightarrow> snapshot option \<Rightarrow> supervisor \<Rightarrow> supervisor" where
  "update_snapshot w now snapshot su = (case snapshot of
     None \<Rightarrow> su
   | Some sn \<Rightarrow> (case apply_snapshot w sn (su_store su) of
         (st, Some e) \<Rightarrow> su\<lparr>su_store := st, su_pending := Some sn, su_retry := now + second\<rparr>
       | (st, None) \<Rightarrow> su\<lparr>su_store := st, su_pending := None\<rparr>))"

definition retry_pending :: "world \<Rightarrow> time \<Rightarrow> supervisor \<Rightarrow> supervisor" where
  "retry_pending w now su = (case su_pending su of
     None \<Rightarrow> su
   | Some sn \<Rightarrow>
       if su_stopping su \<or> now < su_retry su then su
       else (let (st, failure) = apply_snapshot w sn (su_store su);
                 su = (if failure = None then su\<lparr>su_store := st, su_pending := None\<rparr> else su\<lparr>su_store := st\<rparr>)
             in su\<lparr>su_retry := now + second\<rparr>))"

definition react :: "world \<Rightarrow> time \<Rightarrow> input \<Rightarrow> supervisor \<Rightarrow> supervisor" where
  "react w now input su = (case input of
     Sampled sample \<Rightarrow> su\<lparr>su_store := (su_store su)\<lparr>st_resources := sample\<rparr>\<rparr>
   | Cancelled \<Rightarrow> su\<lparr>su_done := False, su_stopping := True, su_store := shutdown w now (su_store su)\<rparr>
   | WatchEnded running \<Rightarrow>
       (let su = su\<lparr>su_watch := False\<rparr>
        in if su_stopping su then su
           else (let su = (if running then su\<lparr>su_result := Some WatcherFailed\<rparr> else su)
                 in su\<lparr>su_stopping := True, su_store := shutdown w now (su_store su)\<rparr>))
   | Updated snapshot restarts \<Rightarrow>
       if su_stopping su then su
       else (let su = update_snapshot w now snapshot su
             in su\<lparr>su_store := fold (restart_named w) restarts (su_store su)\<rparr>)
   | Received msg \<Rightarrow> su\<lparr>su_store := handle w msg now (su_store su)\<rparr>
   | Ticked \<Rightarrow>
       (let su = retry_pending w now su
        in su\<lparr>su_store := tick w now (su_stopping su) (su_store su)\<rparr>))"

text \<open>
  One iteration: \<open>Inl\<close> is the result \<^verbatim>\<open>run\<close> returns.  The check of a fatal error and the reaction
  read the clock and the outside world separately.
\<close>

definition iteration :: "world \<times> time \<Rightarrow> world \<times> time \<Rightarrow> input \<Rightarrow> supervisor
    \<Rightarrow> run_error option + supervisor" where
  "iteration before after input su =
     (let su = check_fatal (fst before) (snd before) su
      in if run_finished (su_store su) (su_stopping su) then Inl (su_result su)
         else Inr (react (fst after) (snd after) input su))"

text \<open>What can be received in a state.\<close>

definition snapshot_ok :: "snapshot \<Rightarrow> bool" where
  "snapshot_ok sn \<longleftrightarrow> distinct (map fst (sn_apps sn))"

definition admissible :: "supervisor \<Rightarrow> input \<Rightarrow> bool" where
  "admissible su input \<longleftrightarrow> (case input of
     Cancelled \<Rightarrow> su_done su
   | WatchEnded _ \<Rightarrow> su_watch su
   | Updated (Some sn) _ \<Rightarrow> snapshot_ok sn
   | Received msg \<Rightarrow> deliverable (su_store su) msg
   | _ \<Rightarrow> True)"

definition moment_ok :: "world \<times> time \<Rightarrow> bool" where
  "moment_ok m \<longleftrightarrow> world_ok (fst m) \<and> 0 < snd m"

inductive run_step :: "supervisor \<Rightarrow> supervisor \<Rightarrow> bool" where
  Iterate: "moment_ok before \<Longrightarrow> moment_ok after \<Longrightarrow>
    admissible (check_fatal (fst before) (snd before) su) input \<Longrightarrow>
    iteration before after input su = Inr su' \<Longrightarrow> run_step su su'"

text \<open>
  The supervisor before its first configuration.  Cells of the heaps that are not allocated hold
  objects nothing points to.
\<close>

definition default_trigger :: trigger where
  "default_trigger = \<lparr>tr_action = [], tr_scope = [], tr_wait = None, tr_interval = 0,
     tr_failure_threshold = 0, tr_on_failure = []\<rparr>"

definition empty_store :: "go_string \<Rightarrow> store" where
  "empty_store cgroup =
     \<lparr>st_procs = (\<lambda>_. new_process 0 default_app 0 0 0),
      st_cycles = (\<lambda>_. \<lparr>cy_members = [], cy_scope = 0, cy_retiring = False\<rparr>),
      st_scopes = (\<lambda>_. \<lparr>sc_config = default_app, sc_address = [], sc_worker = None, sc_cycle = None, sc_runs = []\<rparr>),
      st_runs = (\<lambda>_. new_run 0 [] default_trigger),
      st_servs = (\<lambda>_. new_service [] default_app None zero_schedule 0 []),
      st_lists = (\<lambda>_. \<lparr>l_address = [], l_rearm_at = 0\<rparr>),
      st_next_proc = 0, st_next_cycle = 0, st_next_scope = 0, st_next_run = 0, st_next_serv = 0,
      st_action_tasks = 0, st_cgroup = cgroup, st_services = [], st_workers = [], st_fatal = None,
      st_listeners = [], st_next_listener = 0,
      st_limits = \<lparr>max_cpu_percent = 0, min_available_memory_percent = 0\<rparr>,
      st_resources = \<lparr>sample_at = 0, sample_cpu = 0, sample_memory = 0, sample_failed = False\<rparr>,
      st_resource_block = [], st_effects = []\<rparr>"

definition initial :: "store \<Rightarrow> supervisor" where
  "initial st = \<lparr>su_store = st, su_stopping = False, su_result = None, su_pending = None, su_retry = 0,
     su_done = True, su_watch = True\<rparr>"

inductive started :: "supervisor \<Rightarrow> bool" where
  Started: "world_ok w \<Longrightarrow> snapshot_ok sn \<Longrightarrow>
    apply_snapshot w sn (empty_store (sn_cgroup sn)) = (st, None) \<Longrightarrow> started (initial st)"

definition reachable :: "supervisor \<Rightarrow> bool" where
  "reachable su \<longleftrightarrow> (\<exists>su0. started su0 \<and> run_step\<^sup>*\<^sup>* su0 su)"


subsection \<open>Systems of steps\<close>

text \<open>A system whose steps keep a property of its states.\<close>

locale guarded_system =
  fixes start :: "'s \<Rightarrow> bool" and step :: "'s \<Rightarrow> 's \<Rightarrow> bool" and good :: "'s \<Rightarrow> bool"
  assumes start_good: "start s \<Longrightarrow> good s"
    and step_good: "good s \<Longrightarrow> step s s' \<Longrightarrow> good s'"
begin

lemma run_good: "step\<^sup>*\<^sup>* s s' \<Longrightarrow> good s \<Longrightarrow> good s'"
  by (induction rule: rtranclp_induct) (auto intro: step_good)

lemma reached_good: "start s0 \<Longrightarrow> step\<^sup>*\<^sup>* s0 s \<Longrightarrow> good s"
  using run_good start_good by blast

end

text \<open>Whose steps moreover only go forward in an order on the states.\<close>

locale recording_system = guarded_system +
  fixes later :: "'s \<Rightarrow> 's \<Rightarrow> bool"
  assumes later_refl: "later s s"
    and later_trans: "later s s1 \<Longrightarrow> later s1 s2 \<Longrightarrow> later s s2"
    and step_later: "good s \<Longrightarrow> step s s' \<Longrightarrow> later s s'"
begin

lemma run_later: "step\<^sup>*\<^sup>* s s' \<Longrightarrow> good s \<Longrightarrow> later s s'"
proof (induction rule: rtranclp_induct)
  case (step s1 s2)
  from step_later [OF run_good [OF step.hyps(1) step.prems] step.hyps(2)] step
  show ?case by (blast intro: later_trans)
qed (rule later_refl)

lemma reached_later: "start s0 \<Longrightarrow> step\<^sup>*\<^sup>* s0 s \<Longrightarrow> step\<^sup>*\<^sup>* s s' \<Longrightarrow> later s s'"
  using run_later reached_good by blast

end

subsection \<open>The loop makes steps of the store\<close>

lemma inv_empty: "inv (empty_store cgroup)"
  by (auto simp: inv_def procs_ok_def new_process_ok effects_ok_def effects_match_def runs_ok_def
      running_runs_def new_run_def cycles_ok_def cycle_idle_def services_ok_def supervised_def
      empty_store_def graceful_def launches_def kills_def stop_writes_def stop_signals_def
      stop_requested_def new_service_def)

definition supervisor_ok :: "supervisor \<Rightarrow> bool" where
  "supervisor_ok su \<longleftrightarrow> inv (su_store su)
     \<and> (case su_pending su of None \<Rightarrow> True | Some sn \<Rightarrow> snapshot_ok sn)
     \<and> (su_result su \<noteq> None \<longrightarrow> su_stopping su)"

text \<open>Stopping, the result and the closed channels are final.\<close>

definition loop_later :: "supervisor \<Rightarrow> supervisor \<Rightarrow> bool" where
  "loop_later su su' \<longleftrightarrow> steps (su_store su) (su_store su')
     \<and> (su_stopping su \<longrightarrow> su_stopping su')
     \<and> (su_result su \<noteq> None \<longrightarrow> su_result su' = su_result su)
     \<and> (\<not> su_done su \<longrightarrow> \<not> su_done su') \<and> (\<not> su_watch su \<longrightarrow> \<not> su_watch su')"

lemma loop_later_refl: "loop_later su su"
  by (simp add: loop_later_def)

lemma loop_later_trans: "loop_later su su1 \<Longrightarrow> loop_later su1 su2 \<Longrightarrow> loop_later su su2"
  unfolding loop_later_def using steps_trans by metis

text \<open>A part of an iteration that is sound in this sense.\<close>

definition advances :: "supervisor \<Rightarrow> supervisor \<Rightarrow> bool" where
  "advances su su' \<longleftrightarrow> (supervisor_ok su \<longrightarrow> supervisor_ok su' \<and> loop_later su su')"

lemma advances_refl: "advances su su"
  by (simp add: advances_def loop_later_refl)

lemma advances_trans: "advances su su1 \<Longrightarrow> advances su1 su2 \<Longrightarrow> advances su su2"
  unfolding advances_def using loop_later_trans by blast

lemma advances_store:
  assumes "inv (su_store su) \<Longrightarrow> steps (su_store su) st"
  shows "advances su (su\<lparr>su_store := st\<rparr>)"
  using assms steps_inv by (auto simp: advances_def supervisor_ok_def loop_later_def)

lemma advances_shutdown:
  assumes "moment_ok (w, now)" and "\<not> su_stopping su \<or> result = su_result su"
  shows "advances su (su\<lparr>su_result := result, su_stopping := True, su_store := shutdown w now (su_store su)\<rparr>)"
proof -
  have "steps (su_store su) (shutdown w now (su_store su))" if "inv (su_store su)"
    using moves_steps [OF shutdown_moves [OF that]] assms(1) by (simp add: moment_ok_def)
  then show ?thesis
    using assms(2) steps_inv by (auto simp: advances_def supervisor_ok_def loop_later_def)
qed

lemma check_fatal_advances:
  assumes "moment_ok (w, now)"
  shows "advances su (check_fatal w now su)"
proof (cases "st_fatal (su_store su)")
  case None
  then show ?thesis by (simp add: check_fatal_def advances_refl)
next
  case (Some e)
  have "advances su (su\<lparr>su_result := Some (Fatal e)\<rparr>)" if "su_result su = None" "su_stopping su"
    using that by (auto simp: advances_def supervisor_ok_def loop_later_def)
  with Some advances_shutdown [OF assms, of su "su_result su"]
    advances_shutdown [OF assms, of su "Some (Fatal e)"] show ?thesis
    by (auto simp: check_fatal_def Let_def advances_refl)
qed

lemma restart_named_steps:
  assumes "inv st" and "world_ok w"
  shows "steps st (restart_named w entry st)"
proof -
  have "steps st (restart w s (w_clock w s) st)" for s
    using restart_moves [OF assms(1), of "w_clock w s"] assms(2) by (simp add: world_ok_def moves_steps)
  then show ?thesis by (auto simp: restart_named_def split: option.split prod.split)
qed

lemma restart_all_steps: "inv st \<Longrightarrow> world_ok w \<Longrightarrow> steps st (fold (restart_named w) entries st)"
proof (induction entries arbitrary: st)
  case (Cons e entries)
  note s = restart_named_steps [OF Cons.prems, of e]
  from steps_trans [OF s Cons.IH [OF steps_inv [OF s Cons.prems(1)] Cons.prems(2)]]
  show ?case unfolding fold_Cons comp_apply .
qed simp

lemma update_snapshot_advances:
  assumes "moment_ok (w, now)" and "case snapshot of None \<Rightarrow> True | Some sn \<Rightarrow> snapshot_ok sn"
  shows "advances su (update_snapshot w now snapshot su)"
proof (cases snapshot)
  case (Some sn)
  obtain st failure where a: "apply_snapshot w sn (su_store su) = (st, failure)" by fastforce
  have "steps (su_store su) st" if "inv (su_store su)"
    using apply_steps [OF that, of w sn] assms Some a by (simp add: moment_ok_def snapshot_ok_def)
  then show ?thesis
    using a Some assms(2) steps_inv [of "su_store su" st]
    by (cases failure) (auto simp: update_snapshot_def advances_def supervisor_ok_def loop_later_def)
qed (simp add: update_snapshot_def advances_refl)

lemma retry_pending_advances:
  assumes "moment_ok (w, now)"
  shows "advances su (retry_pending w now su)"
proof (cases "su_pending su")
  case (Some sn)
  obtain st failure where a: "apply_snapshot w sn (su_store su) = (st, failure)" by fastforce
  have "steps (su_store su) st" if "inv (su_store su)" "snapshot_ok sn"
    using apply_steps [OF that(1), of w sn] that(2) assms a by (simp add: moment_ok_def snapshot_ok_def)
  then show ?thesis
    using a Some steps_inv [of "su_store su" st]
    by (auto simp: retry_pending_def advances_def supervisor_ok_def loop_later_def)
qed (simp add: retry_pending_def advances_refl)

lemma react_advances:
  assumes m: "moment_ok (w, now)" and a: "admissible su input"
  shows "advances su (react w now input su)"
proof (cases input)
  case (Sampled sample)
  have "advances su (su\<lparr>su_store := (su_store su)\<lparr>st_resources := sample\<rparr>\<rparr>)"
    by (intro advances_store same_core_steps) (simp add: same_core_def)
  then show ?thesis by (simp add: react_def Sampled)
next
  case Cancelled
  have "advances su (su\<lparr>su_done := False\<rparr>)" by (simp add: advances_def supervisor_ok_def loop_later_def)
  from advances_trans [OF this advances_shutdown [OF m, of _ "su_result su"]]
  show ?thesis by (simp add: react_def Cancelled)
next
  case (WatchEnded running)
  let ?su = "su\<lparr>su_watch := False\<rparr>"
  have c: "advances su ?su" by (simp add: advances_def supervisor_ok_def loop_later_def)
  have "advances ?su (?su\<lparr>su_result := if running then Some WatcherFailed else su_result su,
      su_stopping := True, su_store := shutdown w now (su_store su)\<rparr>)" if "\<not> su_stopping su"
    using advances_shutdown [OF m, of ?su "if running then Some WatcherFailed else su_result su"] that by simp
  note d = this
  have "react w now input su = (if su_stopping su then ?su
      else ?su\<lparr>su_result := if running then Some WatcherFailed else su_result su,
        su_stopping := True, su_store := shutdown w now (su_store su)\<rparr>)"
    by (cases su) (simp add: react_def WatchEnded Let_def)
  with advances_trans [OF c d] c show ?thesis by (cases "su_stopping su") simp_all
next
  case (Updated snapshot restarts)
  let ?su = "update_snapshot w now snapshot su"
  have u: "advances su ?su"
    using a update_snapshot_advances [OF m] by (simp add: admissible_def Updated split: option.splits)
  have "advances ?su (?su\<lparr>su_store := fold (restart_named w) restarts (su_store ?su)\<rparr>)"
    using m by (intro advances_store restart_all_steps) (simp_all add: moment_ok_def)
  from advances_trans [OF u this] show ?thesis by (simp add: react_def Updated advances_refl Let_def)
next
  case (Received msg)
  have "advances su (su\<lparr>su_store := handle w msg now (su_store su)\<rparr>)"
    using m a by (intro advances_store moves_steps handle_moves)
      (simp_all add: moment_ok_def admissible_def Received)
  then show ?thesis by (simp add: react_def Received)
next
  case Ticked
  let ?su = "retry_pending w now su"
  have "advances ?su (?su\<lparr>su_store := tick w now (su_stopping ?su) (su_store ?su)\<rparr>)"
    using m by (intro advances_store moves_steps tick_moves) (simp_all add: moment_ok_def)
  from advances_trans [OF retry_pending_advances [OF m] this] show ?thesis
    by (simp add: react_def Ticked Let_def)
qed

lemma run_step_advances: "run_step su su' \<Longrightarrow> advances su su'"
proof (induction rule: run_step.induct)
  case (Iterate before after su input su')
  let ?su = "check_fatal (fst before) (snd before) su"
  have "su' = react (fst after) (snd after) input ?su"
    using Iterate(4) by (simp add: iteration_def Let_def split: if_splits)
  with advances_trans [OF check_fatal_advances react_advances] Iterate(1-3) show ?case
    by simp
qed

lemma started_ok: "started su \<Longrightarrow> supervisor_ok su"
proof (induction rule: started.induct)
  case (Started w sn st)
  have "steps (empty_store (sn_cgroup sn)) st"
    using apply_steps [OF inv_empty Started(1), of sn "sn_cgroup sn"] Started(2,3) by (simp add: snapshot_ok_def)
  then have "inv st" using steps_inv inv_empty by blast
  then show ?case by (simp add: supervisor_ok_def initial_def)
qed

interpretation loop: recording_system started run_step supervisor_ok loop_later
proof
  show "started su \<Longrightarrow> supervisor_ok su" for su by (rule started_ok)
  show "supervisor_ok su \<Longrightarrow> run_step su su' \<Longrightarrow> supervisor_ok su'" for su su'
    using run_step_advances by (auto simp: advances_def)
  show "loop_later su su" for su by (rule loop_later_refl)
  show "loop_later su su1 \<Longrightarrow> loop_later su1 su2 \<Longrightarrow> loop_later su su2" for su su1 su2
    by (rule loop_later_trans)
  show "supervisor_ok su \<Longrightarrow> run_step su su' \<Longrightarrow> loop_later su su'" for su su'
    using run_step_advances by (auto simp: advances_def)
qed

text \<open>What every reached state keeps, in the form the properties use.\<close>

lemma reachable_ok: "reachable su \<Longrightarrow> supervisor_ok su"
  unfolding reachable_def using loop.reached_good by blast

lemma reachable_inv: "reachable su \<Longrightarrow> inv (su_store su)"
  using reachable_ok by (simp add: supervisor_ok_def)

lemma reachable_later: "reachable su \<Longrightarrow> run_step\<^sup>*\<^sup>* su su' \<Longrightarrow> loop_later su su'"
  unfolding reachable_def using loop.reached_later by blast

lemma reachable_steps: "reachable su \<Longrightarrow> run_step\<^sup>*\<^sup>* su su' \<Longrightarrow> steps (su_store su) (su_store su')"
  using reachable_later by (simp only: loop_later_def)

end
