(* ===== verification/Frames.thy ===== *)
theory Frames
  imports Supervisor
begin

text \<open>
  What operations leave alone.  The locales state once which elementary updates a relation
  between stores must allow to be kept by the phases of actions, by the life cycle of one worker, by
  the messages of all workers and by the periodic tick.  The instances here are: an operation on one
  worker touches no other worker, and a supervisor that is stopping launches nothing; \<open>Listening\<close> has
  another.
\<close>

subsection \<open>Relations kept by operations\<close>

locale frame =
  fixes R :: "store \<Rightarrow> store \<Rightarrow> bool"
  assumes frame_refl: "R st st"
    and frame_trans: "R st st1 \<Longrightarrow> R st1 st2 \<Longrightarrow> R st st2"
begin

lemma frame_fold: "(\<And>x st. x \<in> set xs \<Longrightarrow> R st (f x st)) \<Longrightarrow> R st (fold f xs st)"
proof (induction xs arbitrary: st)
  case (Cons x xs)
  then have "R st (f x st)" "R (f x st) (fold f xs (f x st))" by simp_all
  then show ?case by (auto intro: frame_trans)
qed (simp add: frame_refl)

lemma frame_pair: "R st st1 \<Longrightarrow> f st1 = (st2, x) \<Longrightarrow> R st1 (fst (f st1)) \<Longrightarrow> R st st2"
  by (auto intro: frame_trans)

end

text \<open>Updates of the actions.\<close>

locale action_frame = frame +
  assumes frame_run: "R st (upd_run r f st)"
    and frame_alloc: "R st (alloc_run run st)"
    and frame_scope: "R st (upd_scope s g st)"
    and frame_tasks: "R st (st\<lparr>st_action_tasks := n\<rparr>)"
    and frame_action: "R st (emit (RunAction r v) st)"
    and frame_cancel: "R st (emit (CancelAction r) st)"
begin

lemma cancel_run_frame: "R st (cancel_run r st)"
  by (auto simp: cancel_run_def Let_def intro: frame_run frame_trans [OF frame_run frame_cancel])

lemma cancel_checks_frame: "R st (cancel_checks scope st)"
  by (auto simp: cancel_checks_def split: option.split
      intro!: frame_fold frame_refl cancel_run_frame)

lemma cancel_phase_frame: "R st (cancel_phase scope event st)"
  by (auto simp: cancel_phase_def split: option.split intro!: frame_fold frame_refl cancel_run_frame)

lemma start_run_frame: "R st (start_run r v st)"
  unfolding start_run_def by (rule frame_trans [OF frame_trans [OF frame_tasks frame_run] frame_action])

lemma phase_runs_frame: "R st (fst (phase_runs s event st))"
  by (auto simp: phase_runs_def Let_def split: option.split
      intro: frame_refl frame_trans [OF frame_fold frame_scope] frame_alloc)

lemma phase_loop_frame: "R st (fst (phase_loop s event now runs st ok))"
proof (induction runs arbitrary: st ok)
  case (Cons r runs)
  then show ?case
    by (auto simp: Let_def intro: frame_trans [OF start_run_frame Cons.IH])
qed (simp add: frame_refl)

lemma phase_frame: "R st (fst (phase scope event now st))"
proof (cases scope)
  case (Some s)
  obtain st1 runs where r: "phase_runs s event st = (st1, runs)" by fastforce
  have "R st st1" using phase_runs_frame [of st s event] r by simp
  then show ?thesis using Some r frame_trans [OF _ phase_loop_frame] by (simp add: phase_def)
qed (simp add: phase_def frame_refl)

lemma phase_frame_eq: "phase scope event now st = (st', ok) \<Longrightarrow> R st st'"
  using phase_frame [of st scope event now] by simp

end

text \<open>Updates an operation on the worker \<open>p\<close> makes.\<close>

locale worker_frame = action_frame +
  fixes p :: proc_id
  assumes frame_proc: "R st (upd_proc p f st)"
    and frame_cycle: "R st (upd_cycle c g st)"
    and frame_serv: "(\<And>x. s_listener (h x) = s_listener x) \<Longrightarrow> R st (upd_serv s h st)"
    and frame_workers: "R st (st\<lparr>st_workers := set_delete p (st_workers st)\<rparr>)"
    and frame_write: "R st (emit (WriteStop q now) st)"
    and frame_signal: "R st (emit (StopSignal q) st)"
    and frame_kill: "R st (emit (KillJob q now) st)"
    and frame_probe: "R st (emit (ProbeSocket q net addr) st)"
begin

lemma forget_frame: "R st (forget p c st)"
  unfolding forget_def
  by (rule frame_trans [OF frame_trans [OF frame_workers frame_serv] frame_cycle]) simp

lemma lifecycle_exited_frame: "R st (lifecycle_exited p c now st)"
proof -
  define st1 where "st1 = cancel_phase (p_scope (st_procs st p)) ''pre_stop'' st"
  obtain st2 a where st2: "phase (p_scope (st_procs st p)) ''post_stop'' now st1 = (st2, a)" by fastforce
  define app where "app = Some (cy_scope (st_cycles st2 c))"
  obtain st3 b where st3: "(if list_all (\<lambda>q. p_exited (st_procs st2 q)) (cy_members (st_cycles st2 c))
      then phase app ''post_stop'' now (cancel_phase app ''pre_stop'' st2) else (st2, True)) = (st3, b)"
    by fastforce
  have "R st2 st3"
    using st3 frame_refl frame_trans [OF cancel_phase_frame phase_frame_eq] by (auto split: if_splits)
  then have "R st st3"
    using frame_trans [OF frame_trans [OF cancel_phase_frame phase_frame_eq [OF st2 [unfolded st1_def]]]] by blast
  moreover have "lifecycle_exited p c now st = (if a \<and> b then forget p c st3 else st3)"
    by (simp only: lifecycle_exited_def Let_def st1_def [symmetric] st2 app_def [symmetric] st3 prod.case)
  ultimately show ?thesis using frame_trans [OF _ forget_frame] by auto
qed

lemma signal_stop_frame: "R st (signal_stop w p now st)"
  by (auto simp: signal_stop_def Let_def
      intro: frame_write frame_signal frame_trans [OF frame_write frame_signal])

lemma lifecycle_stopping_frame: "R st (lifecycle_stopping w p c now st)"
proof -
  obtain st1 a where st1: "phase (p_scope (st_procs st p)) ''pre_stop'' now st = (st1, a)" by fastforce
  obtain st2 b where st2: "(if cy_retiring (st_cycles st1 c)
      then phase (Some (cy_scope (st_cycles st1 c))) ''pre_stop'' now st1 else (st1, True)) = (st2, b)"
    by fastforce
  have "R st1 st2" using st2 frame_refl phase_frame_eq by (auto split: if_splits)
  then have "R st st2" using phase_frame_eq [OF st1] frame_trans by blast
  moreover have "R st2 (lifecycle_stopping w p c now st)"
    unfolding lifecycle_stopping_def Let_def st1 prod.case st2
    by (auto intro: frame_refl frame_trans [OF frame_proc frame_proc] frame_trans [OF frame_proc signal_stop_frame])
  ultimately show ?thesis by (rule frame_trans)
qed

lemma set_ready_frame: "R st (set_ready p b st)"
  unfolding set_ready_def by (rule frame_proc)

lemma lifecycle_running_frame: "R st (lifecycle_running p c now st)"
proof -
  let ?worker = "p_scope (st_procs st p)" and ?app = "Some (cy_scope (st_cycles st c))"
  obtain st1 a1 where st1: "phase ?worker ''post_start'' now st = (st1, a1)" by fastforce
  obtain st2 a2 where st2: "phase ?app ''post_start'' now st1 = (st2, a2)" by fastforce
  obtain st3 a3 where st3: "phase ?worker ''readiness'' now st2 = (st3, a3)" by fastforce
  obtain st4 a4 where st4: "phase ?app ''readiness'' now st3 = (st4, a4)" by fastforce
  obtain st5 a5 where st5: "phase ?worker ''health'' now st4 = (st5, a5)" by fastforce
  obtain st6 a6 where st6: "phase ?app ''health'' now st5 = (st6, a6)" by fastforce
  note f = phase_frame_eq [OF st1] phase_frame_eq [OF st2] phase_frame_eq [OF st3]
    phase_frame_eq [OF st4] phase_frame_eq [OF st5] phase_frame_eq [OF st6]
  have "R st st2" "R st st4" "R st st6" using f frame_trans by blast+
  then show ?thesis
    unfolding lifecycle_running_def Let_def st1 st2 st3 st4 st5 st6 prod.case
    by (auto intro: frame_trans set_ready_frame frame_proc)
qed

lemma lifecycle_frame: "R st (lifecycle w p now st)"
  by (auto simp: lifecycle_def split: option.split
      intro: frame_refl lifecycle_exited_frame lifecycle_stopping_frame lifecycle_running_frame)

lemma retire_if_idle_frame: "R st (retire_if_idle cycle st)"
  by (auto simp: retire_if_idle_def split: option.split
      intro: frame_refl frame_trans [OF frame_cycle cancel_checks_frame])

lemma observe_frame: "R st (observe_pressure s now st)"
  unfolding observe_pressure_def by (rule frame_serv) simp

lemma backoff_frame: "R st (backoff s now st)"
  unfolding backoff_def by (rule frame_serv) (simp add: Let_def)

lemma stop_body_frame: "R st (stop_body w p now st)"
proof (cases "p_stopping (st_procs st p) = 0")
  case True
  define st1 where "st1 = upd_proc p (\<lambda>child. child\<lparr>p_stopping := now, p_ready := False\<rparr>) st"
  define child where "child = st_procs st1 p"
  define st2 where "st2 = cancel_checks (p_scope child) st1"
  define st3 where "st3 = retire_if_idle (p_cycle child) st2"
  define st4 where "st4 = (if p_failed child \<and> app_schedule (p_config child) = []
    then backoff (p_service child) now (upd_serv (p_service child) (\<lambda>s. s\<lparr>s_demand := True\<rparr>) st3) else st3)"
  have "R st st1" unfolding st1_def by (rule frame_proc)
  moreover have "R st1 st2" unfolding st2_def by (rule cancel_checks_frame)
  moreover have "R st2 st3" unfolding st3_def by (rule retire_if_idle_frame)
  moreover have "R st3 st4"
    unfolding st4_def by (auto intro: frame_refl frame_trans [OF frame_serv backoff_frame])
  ultimately have "R st st4" using frame_trans by blast
  moreover have "stop_body w p now st = (if p_scope child \<noteq> None then lifecycle w p now st4 else signal_stop w p now st4)"
    using True by (simp only: stop_body_def Let_def if_False not_not
        st1_def [symmetric] child_def [symmetric] st2_def [symmetric] st3_def [symmetric] st4_def [symmetric])
      simp
  ultimately show ?thesis using frame_trans [OF _ lifecycle_frame] frame_trans [OF _ signal_stop_frame] by auto
qed (simp add: stop_body_def frame_refl)

lemma stop_frame: "R st (stop w p now st)"
  unfolding stop_def by (rule frame_trans [OF stop_body_frame observe_frame])

lemma fail_stop_frame: "R st (fail_stop w p now st)"
  unfolding fail_stop_def set_failed_def by (rule frame_trans [OF frame_proc stop_frame])

lemma kill_overdue_frame: "R st (kill_overdue now p st)"
  by (auto simp: kill_overdue_def Let_def intro: frame_refl frame_trans [OF frame_proc frame_kill])

lemma tick_worker_frame: "R st (tick_worker w now p st)"
proof -
  define st1 where "st1 = lifecycle w p now st"
  define child where "child = st_procs st1 p"
  define st2 where "st2 = (if \<not> p_was_ready child \<and> \<not> p_ready child
      \<and> app_start_timeout (p_config child) \<le> time_sub now (p_started child) then fail_stop w p now st1 else st1)"
  have u1: "R st st1" unfolding st1_def by (rule lifecycle_frame)
  have u2: "R st1 st2" unfolding st2_def by (auto intro: frame_refl fail_stop_frame)
  have u3: "R x (start_probe now p x)" for x
    by (auto simp: start_probe_def Let_def split: prod.split
        intro: frame_refl frame_trans [OF frame_proc frame_probe])
  have u4: "R x (time_out_requests w now p x)" for x
    by (auto simp: time_out_requests_def Let_def intro!: frame_fold intro: frame_refl fail_stop_frame)
  have u5: "R x (settle now p x)" for x
    using frame_serv frame_refl by (simp add: settle_def Let_def)
  have "R st1 (settle now p (time_out_requests w now p (start_probe now p st2)))"
    by (rule frame_trans [OF u2 frame_trans [OF u3 frame_trans [OF u4 u5]]])
  then have "R st1 (tick_worker w now p st)"
    unfolding tick_worker_def Let_def st1_def [symmetric] child_def [symmetric] st2_def [symmetric]
    using kill_overdue_frame frame_refl fail_stop_frame by simp
  with u1 show ?thesis by (rule frame_trans)
qed

end


subsection \<open>Messages of workers\<close>

text \<open>The same for all workers, and for a fatal error.\<close>

locale message_frame = action_frame +
  assumes frame_worker: "worker_frame R p"
    and frame_fatal: "R st (set_fatal e st)"

sublocale message_frame \<subseteq> each: worker_frame R p for p
  by (rule frame_worker)

context message_frame begin

lemma action_result_frame: "R st (action_result w r success now st)"
proof -
  define st1 where "st1 = upd_run r (\<lambda>run. run\<lparr>ru_running := False, ru_cancel := False\<rparr>)
      (st\<lparr>st_action_tasks := st_action_tasks st - 1\<rparr>)"
  define st2 where "st2 = upd_run r (run_result success now) st1"
  have u1: "R st st1"
    unfolding st1_def by (rule frame_trans [OF frame_tasks frame_run])
  have u2: "R st st2"
    unfolding st2_def by (rule frame_trans [OF u1 frame_run])
  have active: "R x (stop_active w now p x)" for x p
    by (auto simp: stop_active_def intro: frame_refl each.fail_stop_frame)
  have "R st2 (fold (stop_active w now) ps st2)" for ps
    by (intro frame_fold active)
  with active have "R st2 (case sc_worker (st_scopes st2 (ru_scope (st_runs st2 r))) of
      Some p \<Rightarrow> stop_active w now p st2
    | None \<Rightarrow> (case sc_cycle (st_scopes st2 (ru_scope (st_runs st2 r))) of None \<Rightarrow> st2
        | Some c \<Rightarrow> fold (stop_active w now) (w_order w LoopMembers (cy_members (st_cycles st2 c))) st2))"
    by (simp add: frame_refl split: option.split)
  from frame_trans [OF u2 this] u1 u2 show ?thesis
    by (simp only: action_result_def Let_def st1_def [symmetric] st2_def [symmetric] split: if_split) simp
qed

lemma handle_exited_frame: "R st (handle_exited w p code bad now st)"
proof -
  define st1 where "st1 = (if bad then set_fatal (CleanupFailed (p_pid (st_procs st p))) st else st)"
  define st2 where "st2 = upd_proc p (\<lambda>child. child\<lparr>p_exited := True, p_ready := False\<rparr>) st1"
  define st3 where "st3 = cancel_checks (p_scope (st_procs st2 p)) st2"
  define st4 where "st4 = (case code of None \<Rightarrow> st3 | Some c \<Rightarrow> upd_proc p (\<lambda>child. child\<lparr>p_exit_code := c\<rparr>) st3)"
  define service where "service = p_service (st_procs st p)"
  define child where "child = st_procs st4 p"
  define st5 where "st5 = (if p_stopping child = 0 \<and> app_schedule (p_config child) = []
    then backoff service now (upd_serv service (\<lambda>s. s\<lparr>s_demand := True\<rparr>) st4) else st4)"
  have "R st st1" by (simp add: st1_def frame_fatal frame_refl)
  moreover have "R st1 st2" unfolding st2_def by (rule each.frame_proc)
  moreover have "R st2 st3" unfolding st3_def by (rule cancel_checks_frame)
  moreover have "R st3 st4"
    unfolding st4_def by (auto split: option.split intro: frame_refl each.frame_proc)
  moreover have "R st4 st5" unfolding st5_def
    by (auto intro: frame_refl frame_trans [OF each.frame_serv each.backoff_frame])
  ultimately have u: "R st st5" using frame_trans by blast
  have "handle_exited w p code bad now st = (case p_cycle child of
      Some c \<Rightarrow> lifecycle w p now (retire_if_idle (Some c) st5)
    | None \<Rightarrow> upd_serv service (\<lambda>s. s\<lparr>s_workers := set_delete p (s_workers s)\<rparr>)
        (st5\<lparr>st_workers := set_delete p (st_workers st5)\<rparr>))"
    by (simp only: handle_exited_def Let_def service_def [symmetric] st1_def [symmetric] st2_def [symmetric]
        st3_def [symmetric] st4_def [symmetric] child_def [symmetric] st5_def [symmetric])
  moreover have "R st5 (lifecycle w p now (retire_if_idle (Some c) st5))" for c
    by (rule frame_trans [OF each.retire_if_idle_frame each.lifecycle_frame])
  moreover have "R st5 (upd_serv service (\<lambda>s. s\<lparr>s_workers := set_delete p (s_workers s)\<rparr>)
      (st5\<lparr>st_workers := set_delete p (st_workers st5)\<rparr>))"
    by (rule frame_trans [OF each.frame_workers each.frame_serv]) simp
  ultimately show ?thesis using frame_trans [OF u] by (simp split: option.split)
qed

lemma handle_worker_frame: "R st (handle_worker w msg now st)"
proof (cases msg)
  case (HandshakeSeen p ready)
  have "R st (fail_stop w p now (upd_proc p f st))" for f
    by (rule frame_trans [OF each.frame_proc each.fail_stop_frame])
  moreover have "R st (upd_proc p g (upd_proc p f st))" for f g
    by (rule frame_trans [OF each.frame_proc each.frame_proc])
  ultimately show ?thesis
    using HandshakeSeen each.frame_proc by (auto simp: handle_handshake_def Let_def)
next
  case (Probed p ready)
  then show ?thesis using each.frame_proc by (simp add: handle_probe_def)
next
  case (WorkerEvent p e)
  then show ?thesis using each.frame_proc each.fail_stop_frame frame_refl
    by (simp add: handle_event_def Let_def)
qed (use handle_exited_frame each.fail_stop_frame frame_refl in simp_all)

end

subsection \<open>Starting and shrinking\<close>

text \<open>Updates of the operations that start workers.\<close>

locale tick_frame = message_frame +
  assumes frame_alloc_scope: "R st (alloc_scope scope st)"
    and frame_alloc_cycle: "R st (alloc_cycle cycle st)"
    and frame_alloc_proc: "R st (alloc_proc child st)"
    and frame_table: "R st (st\<lparr>st_workers := ws\<rparr>)"
    and frame_launch: "R st (emit (Launch p values) st)"
    and frame_block: "R st (st\<lparr>st_resource_block := b\<rparr>)"
begin

lemma fresh_cycle_frame: "R st (fst (fresh_cycle s st))"
  unfolding fresh_cycle_def Let_def fst_conv
  by (rule frame_trans [OF frame_trans [OF frame_alloc_scope frame_alloc_cycle] each.frame_serv]) simp

lemma join_cycle_frame: "R st (fst (join_cycle s st))"
  by (simp add: join_cycle_def fresh_cycle_frame frame_refl split: option.split)

lemma reserve_frame: "R st (fst (reserve s c now st))"
  unfolding reserve_def Let_def fst_conv
  by (rule frame_trans [OF frame_trans [OF frame_trans [OF frame_trans [OF frame_alloc_scope frame_alloc_proc]
    each.frame_cycle] frame_table] each.frame_serv]) simp

lemma start_process_frame: "R st (fst (start_process w p now st))"
proof (cases "w_launch w p")
  case (Some r)
  then obtain pid executed where r: "w_launch w p = Some (pid, executed)" by (cases r) simp
  define s where "s = p_service (st_procs st p)"
  define st1 where "st1 = upd_proc p (launched (st_servs st s) pid executed now) st"
  define st2 where "st2 = st1\<lparr>st_workers := set_insert p (st_workers st1)\<rparr>"
  define st3 where "st3 = upd_serv s (\<lambda>service. service\<lparr>s_workers := set_insert p (s_workers service), s_demand := False\<rparr>) st2"
  have "R st st1" unfolding st1_def by (rule each.frame_proc)
  moreover have "R st1 st2" unfolding st2_def by (rule frame_table)
  moreover have "R st2 st3" unfolding st3_def by (rule each.frame_serv) simp
  moreover have "R st3 (fst (start_process w p now st))"
    by (simp only: start_process_def r option.case prod.case Let_def s_def [symmetric] st1_def [symmetric]
        st2_def [symmetric] st3_def [symmetric] fst_conv frame_launch)
  ultimately show ?thesis using frame_trans by blast
qed (simp add: start_process_def frame_refl)

lemma unreserve_frame: "R st (unreserve p s c st)"
proof -
  define st1 where "st1 = cancel_checks (p_scope (st_procs st p)) st"
  define st2 where "st2 = st1\<lparr>st_workers := set_delete p (st_workers st1)\<rparr>"
  define st3 where "st3 = upd_serv s (\<lambda>service. service\<lparr>s_workers := set_delete p (s_workers service)\<rparr>) st2"
  define st4 where "st4 = upd_cycle c (\<lambda>cy. cy\<lparr>cy_members := set_delete p (cy_members cy)\<rparr>) st3"
  have "R st st1" unfolding st1_def by (rule cancel_checks_frame)
  moreover have "R st1 st2" unfolding st2_def by (rule each.frame_workers)
  moreover have "R st2 st3" unfolding st3_def by (rule each.frame_serv) simp
  moreover have "R st3 st4" unfolding st4_def by (rule each.frame_cycle)
  moreover have "R st4 (unreserve p s c st)"
    unfolding unreserve_def Let_def st1_def [symmetric] st2_def [symmetric] st3_def [symmetric] st4_def [symmetric]
    using frame_refl frame_trans [OF each.frame_cycle cancel_checks_frame] by simp
  ultimately show ?thesis using frame_trans by blast
qed

lemma spawn_frame: "R st (fst (spawn w s now st))"
proof -
  obtain st1 c where st1: "join_cycle s st = (st1, c)" by fastforce
  obtain st2 p where st2: "reserve s c now st1 = (st2, p)" by fastforce
  obtain st3 a where st3: "phase (Some (cy_scope (st_cycles st2 c))) ''pre_start'' now st2 = (st3, a)" by fastforce
  obtain st4 b where st4: "phase (p_scope (st_procs st3 p)) ''pre_start'' now st3 = (st4, b)" by fastforce
  obtain st5 k where st5: "start_process w p now st4 = (st5, k)" by fastforce
  have "R st st1" using join_cycle_frame [of st s] st1 by simp
  moreover have "R st1 st2" using reserve_frame [of st1 s c now] st2 by simp
  ultimately have r4: "R st st4" using phase_frame_eq [OF st3] phase_frame_eq [OF st4] frame_trans by blast
  have "R st4 st5" using start_process_frame [of st4 w p now] st5 by simp
  with r4 have r5: "R st st5" by (rule frame_trans)
  have "fst (spawn w s now st) = (if a \<and> b then (if k then lifecycle w p now st5 else unreserve p s c st5) else st4)"
    by (simp add: spawn_def st1 st2 st3 st4 st5)
  then show ?thesis
    using r4 frame_trans [OF r5 each.lifecycle_frame] frame_trans [OF r5 unreserve_frame] by simp
qed

lemma schedule_due_frame: "R st (schedule_due w s now st)"
  unfolding schedule_due_def Let_def
  using frame_refl by (auto intro: each.frame_serv frame_trans [OF each.frame_serv each.frame_serv])

lemma activate_service_frame: "R (fst x) (fst (activate_service w now e x))"
  by (cases x; cases e) (simp add: activate_service_def Let_def schedule_due_frame frame_refl)

lemma start_pending_frame: "R st (start_pending w now p st)"
proof -
  let ?child = "st_procs st p"
  obtain st1 a where st1: "phase (map_option (\<lambda>c. cy_scope (st_cycles st c)) (p_cycle ?child)) ''pre_start'' now st = (st1, a)"
    by fastforce
  obtain st2 b where st2: "phase (p_scope ?child) ''pre_start'' now st1 = (st2, b)" by fastforce
  obtain st3 k where st3: "start_process w p now st2 = (st3, k)" by fastforce
  have r2: "R st st2" using frame_trans [OF phase_frame_eq [OF st1] phase_frame_eq [OF st2]] .
  have r3: "R st st3" using frame_trans [OF r2 start_process_frame [of st2 w p now]] st3 by simp
  have "start_pending w now p st = (if \<not> p_pending ?child \<or> p_stopping ?child \<noteq> 0 \<or> p_exited ?child then st
      else if a \<and> b then (if k then lifecycle w p now st3 else fail_stop w p now st3) else st2)"
    by (simp add: start_pending_def Let_def st1 st2 st3)
  then show ?thesis
    using frame_refl r2 frame_trans [OF r3 each.lifecycle_frame] frame_trans [OF r3 each.fail_stop_frame] by simp
qed

lemma shrink_frame: "R st (shrink w s minimum wanted now ps avail st)"
  by (induction w s minimum wanted now ps avail st rule: shrink.induct)
    (auto simp: frame_refl intro: frame_trans [OF each.stop_frame])

lemma tick_scheduled_frame: "R st (tick_scheduled w s now st)"
proof -
  have "R st (upd_serv s (\<lambda>service. service\<lparr>s_scheduled := False\<rparr>) st)" by (rule each.frame_serv) simp
  from frame_trans [OF this spawn_frame] show ?thesis by (simp add: tick_scheduled_def frame_refl)
qed

lemma tick_pool_frame: "R st (tick_pool w s wanted needed now st)"
proof -
  define app where "app = s_config (st_servs st s)"
  define st1 where "st1 = observe_pressure s now st"
  obtain window pressed where wp: "evaluate_window now (app_scale_window app) (app_scale_at app)
    (s_pressure (st_servs st1 s)) = (window, pressed)" by fastforce
  define st2 where "st2 = upd_serv s (\<lambda>service. service\<lparr>s_pressure := window\<rparr>) st1"
  define avail where "avail = available st2 s"
  define grow where "grow = should_grow (st_servs st2 s) avail (starting st2 s) needed
    (st_resource_block st2 = [] \<and> pressed) now"
  obtain st3 k where st3: "spawn w s now st2 = (st3, k)" by fastforce
  define st4 where "st4 = (if grow then observe_pressure s now (if k then st3 else backoff s now st3) else st2)"
  define st5 where "st5 = (if avail > 0 then upd_serv s (\<lambda>service. service\<lparr>s_demand := False\<rparr>) st4 else st4)"
  define st6 where "st6 = upd_serv s (note_wanted wanted now) st5"
  have "R st st1" unfolding st1_def by (rule each.observe_frame)
  moreover have "R st1 st2" unfolding st2_def by (rule each.frame_serv) simp
  moreover have "R st2 st4"
  proof -
    have "R st2 st3" using spawn_frame [of st2 w s now] st3 by simp
    then have "R st2 (if k then st3 else backoff s now st3)" using frame_trans [OF _ each.backoff_frame] by simp
    from frame_trans [OF this each.observe_frame] show ?thesis by (simp add: st4_def frame_refl)
  qed
  moreover have "R st4 st5" unfolding st5_def by (auto intro: frame_refl each.frame_serv)
  moreover have "R st5 st6" unfolding st6_def by (rule each.frame_serv) (simp add: note_wanted_def)
  ultimately have "R st st6" using frame_trans by blast
  moreover have "tick_pool w s wanted needed now st
      = shrink w s (if needed then max (app_min_workers app) 1 else app_min_workers app) wanted now
          (w_order w (LoopIdle s) (s_workers (st_servs st6 s))) avail st6"
    unfolding tick_pool_def Let_def app_def [symmetric] st1_def [symmetric] wp prod.case st2_def [symmetric]
      avail_def [symmetric] grow_def [symmetric] st3 st4_def [symmetric] st5_def [symmetric] st6_def [symmetric] ..
  ultimately show ?thesis using frame_trans [OF _ shrink_frame] by simp
qed

lemma tick_service_frame: "R st (tick_service w now marks s st)"
proof -
  have d: "R st (upd_serv s (\<lambda>service. service\<lparr>s_demand := True\<rparr>) st)" by (rule each.frame_serv) simp
  have stops: "R x (fold (\<lambda>p. stop w p now) ps x)" for ps x by (rule frame_fold [OF each.stop_frame])
  have starts: "R x (fold (start_pending w now) ps x)" for ps x by (rule frame_fold [OF start_pending_frame])
  show ?thesis
    unfolding tick_service_def Let_def
    using stops frame_trans [OF d stops] frame_trans [OF starts tick_scheduled_frame]
      frame_trans [OF starts tick_pool_frame] by simp
qed

lemma tick_services_frame: "R st (tick_services w now st)"
proof -
  have marks: "R (fst x) (fst (fold (activate_service w now) es x))" for es x
  proof (induction es arbitrary: x)
    case (Cons e es)
    show ?case unfolding fold_Cons comp_apply by (rule frame_trans [OF activate_service_frame Cons.IH])
  qed (simp add: frame_refl)
  define st1 where "st1 = st\<lparr>st_resource_block := blocked (st_limits st) (st_resources st) now\<rparr>"
  obtain st2 ms where st2: "fold (activate_service w now) (st_services st1) (st1, [], []) = (st2, ms)" by (rule prod.exhaust)
  have "R st st1" unfolding st1_def by (rule frame_block)
  moreover have "R st1 st2" using marks [of "(st1, [], [])" "st_services st1"] st2 by simp
  moreover have "R st2 (fold (tick_service w now ms) ss st2)" for ss by (rule frame_fold [OF tick_service_frame])
  ultimately show ?thesis
    unfolding tick_services_def Let_def st1_def [symmetric] st2 prod.case using frame_trans by blast
qed

lemma tick_workers_frame: "R st (fold (tick_worker w now) ps st)"
  by (rule frame_fold [OF each.tick_worker_frame])

lemma stopping_tick_frame: "R st (tick w now True st)"
proof -
  have "R x (fold (stop_unrequired w now) ps x)" for ps x
    by (rule frame_fold) (simp add: stop_unrequired_def frame_refl each.stop_frame)
  then show ?thesis unfolding tick_def Let_def if_True by (rule frame_trans [OF tick_workers_frame])
qed

lemma restart_frame: "R st (restart w s now st)"
proof -
  have one: "R (fst x) (fst (fold (restart_one w now) ps x))" for ps x
  proof (induction ps arbitrary: x)
    case (Cons p ps)
    have "R (fst x) (fst (restart_one w now p x))"
      by (cases x) (simp add: restart_one_def frame_refl each.stop_frame)
    then show ?case unfolding fold_Cons comp_apply using Cons.IH by (rule frame_trans)
  qed (simp add: frame_refl)
  obtain st1 active where st1: "fold (restart_one w now) (w_order w LoopRestart (s_workers (st_servs st s))) (st, False) = (st1, active)"
    by fastforce
  then have "R st st1" using one [of "(st, False)"] by (metis fst_conv)
  moreover have "R st1 (upd_serv s (\<lambda>service. service\<lparr>s_failures := 0, s_retry_at := 0\<rparr>) st1)"
    by (rule each.frame_serv) simp
  ultimately show ?thesis unfolding restart_def Let_def st1 prod.case using frame_trans by auto
qed

end

subsection \<open>One worker at a time\<close>

definition confined :: "proc_id \<Rightarrow> store \<Rightarrow> store \<Rightarrow> bool" where
  "confined p st st' \<longleftrightarrow> (\<forall>q. q \<noteq> p \<longrightarrow> st_procs st' q = st_procs st q)
     \<and> set (st_workers st') \<subseteq> set (st_workers st) \<and> set (st_workers st) - {p} \<subseteq> set (st_workers st')"

interpretation confined: worker_frame "confined p" p for p
  by unfold_locales (auto simp: confined_def start_run_def)

subsection \<open>Nothing is launched\<close>

definition unlaunched :: "store \<Rightarrow> store \<Rightarrow> bool" where
  "unlaunched st st' \<longleftrightarrow> st_next_proc st' = st_next_proc st
     \<and> (\<forall>q. launches (st_effects st') q = launches (st_effects st) q)"

interpretation unlaunched: message_frame unlaunched
  by unfold_locales (auto simp: unlaunched_def set_fatal_def)

lemma unlaunched_emit: "\<not> (\<exists>q v. e = Launch q v) \<Longrightarrow> unlaunched st (emit e st)"
  by (auto simp: unlaunched_def)

lemma handle_unlaunched: "unlaunched st (handle w msg now st)"
proof -
  have socket: "unlaunched st (handle_socket now e st)" for e st
    by (auto simp: handle_socket_def Let_def set_fatal_def unlaunched_def split: prod.split option.split)
  have "unlaunched st (fold (handle_socket now) es st)" for es by (intro unlaunched.frame_fold socket)
  moreover have "unlaunched st (observe_pressure s now (handle_worker w msg now st))" for s
    by (rule unlaunched.frame_trans [OF unlaunched.handle_worker_frame unlaunched.each.observe_frame])
  moreover have "unlaunched st (set_fatal e st)" for e by (simp add: set_fatal_def unlaunched_def)
  ultimately show ?thesis
    using unlaunched.action_result_frame unlaunched.frame_refl
    by (cases msg) (simp_all add: handle_def del: handle_worker.simps)
qed

lemma stopping_tick_unlaunched: "unlaunched st (tick w now True st)"
proof -
  have "unlaunched st (fold (tick_worker w now) ps st)" for ps st
    by (intro unlaunched.frame_fold unlaunched.each.tick_worker_frame)
  moreover have "unlaunched st (fold (stop_unrequired w now) ps st)" for ps st
    by (intro unlaunched.frame_fold) (simp add: stop_unrequired_def unlaunched.frame_refl unlaunched.each.stop_frame)
  ultimately show ?thesis
    unfolding tick_def Let_def if_True by (rule unlaunched.frame_trans)
qed

lemma shutdown_unlaunched: "unlaunched st (shutdown w now st)"
proof -
  have "unlaunched st (fold close_service ss st)" for ss st
    by (intro unlaunched.frame_fold)
      (auto simp: close_service_def close_listener_def unlaunched_def split: option.split)
  from unlaunched.frame_trans [OF this stopping_tick_unlaunched] show ?thesis by (simp add: shutdown_def)
qed

end
