(* ===== verification/Scenario.thy ===== *)
theory Scenario
  imports Supervisor
begin

text \<open>
  A run of the supervisor, for the concrete instances of the properties: one application that
  starts with the supervisor, whose worker is launched by the first tick, told to stop when the
  supervisor is, killed eleven seconds later and gone a second after that.  The states are written
  out, so each is computed from the one before it.
\<close>

subsection \<open>The outside world and the configuration\<close>

definition demo_world :: world where
  "demo_world = \<lparr>w_order = (\<lambda>_ xs. xs), w_launch = (\<lambda>p. Some (int p + 100, 1500)), w_stdin = (\<lambda>_. True),
     w_arm = (\<lambda>_. True),
     w_local = (\<lambda>_. \<lparr>cal_minute = 0, cal_hour = 0, cal_day = 1, cal_month = 1, cal_weekday = 1\<rparr>),
     w_clock = (\<lambda>_. 1000), w_open = (\<lambda>_. Some ''here''),
     w_chmod = (\<lambda>_. True), w_finish = (\<lambda>_. True)\<rparr>"

definition demo_app :: app where
  "demo_app = default_app\<lparr>app_name := ''web'', app_startup := True, app_ready := ''started'',
     app_command := [''serve'']\<rparr>"

definition demo_snapshot :: snapshot where
  "demo_snapshot = \<lparr>sn_apps = [(''web'', demo_app)], sn_roots = [], sn_cgroup = [],
     sn_resources = \<lparr>max_cpu_percent = 0, min_available_memory_percent = 0\<rparr>\<rparr>"

lemma demo_world_ok: "moment_ok (demo_world, now) \<longleftrightarrow> 0 < now"
  by (auto simp: moment_ok_def world_ok_def demo_world_def)

lemma demo_app_simps:
  "app_schedule demo_app = []" "app_listen demo_app = \<lparr>network = [], address = []\<rparr>" "app_triggers demo_app = []"
  "app_startup demo_app" "app_ready demo_app = ''started''" "dependencies demo_app = []" "app_min_workers demo_app = 0"
  "app_max_workers demo_app = 1" "app_concurrency demo_app = 1" "app_idle_timeout demo_app = minute"
  "app_start_timeout demo_app = 10 * second" "app_stop_timeout demo_app = 10 * second"
  "app_request_timeout demo_app = 0" "app_scale_window demo_app = 0" "app_scale_at demo_app = 80"
  "app_max_exec_time demo_app = 0" "app_socket_handoff demo_app = []"
  by (simp_all add: demo_app_def default_app_def dependencies_def)

lemma no_schedule: "parse_schedule [] = Inr zero_schedule" "schedule_next zero_schedule t = 0"
  by (simp add: parse_schedule_def) code_simp

subsection \<open>The states\<close>

definition web_store :: "process \<Rightarrow> cycle \<Rightarrow> service \<Rightarrow> proc_id list \<Rightarrow> go_string list \<Rightarrow> effect list \<Rightarrow> store" where
  "web_store child cycle service workers events effects = (empty_store [])
     \<lparr>st_procs := (st_procs (empty_store []))(0 := child),
      st_cycles := (st_cycles (empty_store []))(0 := cycle),
      st_scopes := (st_scopes (empty_store []))
        (0 := \<lparr>sc_config = demo_app, sc_address = [], sc_worker = None, sc_cycle = Some 0,
               sc_runs = map (\<lambda>e. (e, [])) events\<rparr>,
         1 := \<lparr>sc_config = demo_app, sc_address = [], sc_worker = Some 0, sc_cycle = None,
               sc_runs = map (\<lambda>e. (e, [])) events\<rparr>),
      st_servs := (st_servs (empty_store []))(0 := service),
      st_next_proc := 1, st_next_cycle := 1, st_next_scope := 2, st_next_serv := 1,
      st_services := [(''web'', 0)], st_workers := workers, st_effects := effects\<rparr>"

definition web_process :: process where
  "web_process = (new_process 0 demo_app 0 1 2000)\<lparr>p_pid := 100, p_control := True, p_pending := False,
     p_executed := 1500, p_base_ready := True, p_idle_since := 2000, p_ready := True, p_was_ready := True\<rparr>"

definition web_cycle :: cycle where
  "web_cycle = \<lparr>cy_members = [0], cy_scope = 0, cy_retiring = False\<rparr>"

definition web_service :: service where
  "web_service = (new_service ''web'' demo_app None zero_schedule 1000 [0])\<lparr>s_cycle := Some 0\<rparr>"

definition web_launch :: effect where
  "web_launch = Launch 0 (zero_runtime\<lparr>rt_event := ''launch'', rt_workers := 1\<rparr>)"

definition demo_start :: supervisor where
  "demo_start = initial (fst (apply_snapshot demo_world demo_snapshot (empty_store [])))"

definition demo_running :: supervisor where
  "demo_running = react demo_world 2000 Ticked demo_start"

definition demo_stopping :: supervisor where
  "demo_stopping = react demo_world 3000 Cancelled demo_running"

definition demo_killed :: supervisor where
  "demo_killed = react demo_world (11 * second) Ticked demo_stopping"

definition demo_gone :: supervisor where
  "demo_gone = react demo_world (12 * second) (Received (Exited 0 (Some 137) False)) demo_killed"

lemmas demo_eval = initial_def apply_snapshot_def demo_snapshot_def finish_apply_def
    needs_listener_def needs_permissions_def empty_store_def
    install_service_def current_service_def new_service_def alloc_serv_def demo_world_def Let_def 
    react_def retry_pending_def tick_def tick_services_def blocked_def activate_service_def demanded_def
    tick_service_def dependencies_ready_def tick_pool_def observe_pressure_def observe_window_def evaluate_window_def
    zero_window_def available_def running_workers_def starting_def should_grow_def spawn_def join_cycle_def
    fresh_cycle_def service_address_def reserve_def new_process_def alloc_scope_def alloc_cycle_def alloc_proc_def
    upd_proc_def upd_cycle_def upd_scope_def upd_run_def upd_serv_def upd_list_def emit_def
    set_insert_def set_delete_def phase_def phase_runs_def event_bindings_def scope_kind_def start_process_def launched_def stdin_handoff_def
    scope_launch_values_def scope_values_def worker_values_def cycle_values_def lifecycle_def lifecycle_running_def set_ready_def
    note_wanted_def is_idle_def unix_nano_def milliseconds_def worker_view_of_def zero_runtime_def lookup_or_def
    shutdown_def close_service_def tick_worker_def stop_unrequired_def still_required_def stop_def stop_body_def
    lifecycle_stopping_def signal_stop_def retire_if_idle_def cancel_checks_def cycle_idle_def kill_overdue_def
    start_probe_def time_out_requests_def settle_def handle_def handle_exited_def lifecycle_exited_def cancel_phase_def
    forget_def
    no_schedule demo_app_simps

lemmas demo_states = web_store_def web_process_def web_cycle_def web_service_def web_launch_def

lemmas demo_congs = let_weak_cong if_weak_cong option.case_cong_weak prod.case_cong_weak list.case_cong_weak

lemma demo_running_store:
  "su_store demo_running = web_store web_process web_cycle web_service [0]
     [''pre_start'', ''post_start'', ''readiness'', ''health''] [web_launch]"
  by (simp add: demo_running_def demo_start_def demo_eval demo_states cong: demo_congs) (simp add: fun_upd_twist)

text \<open>The variables of the loop.\<close>

lemma demo_loop:
  "\<not> su_stopping demo_start" "su_done demo_start" "su_pending demo_start = None" "su_result demo_start = None"
  "\<not> su_stopping demo_running" "su_done demo_running" "su_pending demo_running = None" "su_result demo_running = None"
  "su_stopping demo_stopping" "su_pending demo_stopping = None" "su_result demo_stopping = None"
  "su_stopping demo_killed" "su_pending demo_killed = None" "su_result demo_killed = None"
  "su_stopping demo_gone" "su_pending demo_gone = None" "su_result demo_gone = None"
  by (simp_all add: demo_start_def demo_running_def demo_stopping_def demo_killed_def demo_gone_def
      initial_def react_def retry_pending_def Let_def)

definition stopping_process :: process where
  "stopping_process = web_process\<lparr>p_ready := False, p_stopping := 3000, p_stop_sent := True\<rparr>"

lemma demo_stopping_store:
  "su_store demo_stopping = web_store stopping_process (web_cycle\<lparr>cy_retiring := True\<rparr>) web_service [0]
     [''pre_start'', ''post_start'', ''readiness'', ''health'', ''pre_stop''] [web_launch, StopSignal 0]"
  by (simp add: demo_stopping_def demo_running_store demo_loop demo_eval demo_states stopping_process_def cong: demo_congs)
    (simp add: fun_upd_twist)

lemma demo_killed_store:
  "su_store demo_killed = web_store (stopping_process\<lparr>p_killed := True\<rparr>) (web_cycle\<lparr>cy_retiring := True\<rparr>)
     web_service [0] [''pre_start'', ''post_start'', ''readiness'', ''health'', ''pre_stop'']
     [web_launch, StopSignal 0, KillJob 0 (11 * second)]"
  by (simp add: demo_killed_def demo_stopping_store demo_loop demo_eval demo_states stopping_process_def cong: demo_congs)

lemma demo_gone_store:
  "su_store demo_gone = web_store (stopping_process\<lparr>p_killed := True, p_exited := True, p_exit_code := 137\<rparr>)
     (web_cycle\<lparr>cy_retiring := True, cy_members := []\<rparr>) (web_service\<lparr>s_workers := []\<rparr>) []
     [''pre_start'', ''post_start'', ''readiness'', ''health'', ''pre_stop'', ''post_stop'']
     [web_launch, StopSignal 0, KillJob 0 (11 * second)]"
  by (simp add: demo_gone_def demo_killed_store demo_loop demo_eval demo_states stopping_process_def cong: demo_congs)
    (simp add: fun_upd_twist)

subsection \<open>They are reached\<close>

lemma web_store_fields [simp]:
  "st_procs (web_store child cycle service workers events effects) 0 = child"
  "st_cycles (web_store child cycle service workers events effects) 0 = cycle"
  "st_servs (web_store child cycle service workers events effects) 0 = service"
  "st_next_proc (web_store child cycle service workers events effects) = 1"
  "st_next_cycle (web_store child cycle service workers events effects) = 1"
  "st_services (web_store child cycle service workers events effects) = [(''web'', 0)]"
  "st_workers (web_store child cycle service workers events effects) = workers"
  "st_action_tasks (web_store child cycle service workers events effects) = 0"
  "st_fatal (web_store child cycle service workers events effects) = None"
  "st_effects (web_store child cycle service workers events effects) = effects"
  by (simp_all add: web_store_def empty_store_def)

lemma demo_start_store:
  "apply_snapshot demo_world demo_snapshot (empty_store []) = (su_store demo_start, None)"
  by (simp add: demo_start_def demo_eval cong: demo_congs)

lemma demo_start_fatal: "st_fatal (su_store demo_start) = None"
  by (simp add: demo_start_def demo_eval cong: demo_congs)

lemma demo_started: "started demo_start"
proof -
  have "snapshot_ok demo_snapshot" by (simp add: snapshot_ok_def demo_snapshot_def)
  moreover have "world_ok demo_world" using demo_world_ok [of 1] by (simp add: moment_ok_def)
  moreover have "apply_snapshot demo_world demo_snapshot (empty_store (sn_cgroup demo_snapshot))
      = (su_store demo_start, None)"
    using demo_start_store by (simp add: demo_snapshot_def)
  ultimately have "started (initial (su_store demo_start))" by (intro Started)
  then show ?thesis by (simp add: demo_start_def initial_def)
qed

lemma demo_step:
  assumes "st_fatal (su_store su) = None" and "\<not> su_stopping su \<or> st_workers (su_store su) \<noteq> []"
    and "admissible su input" and "0 < now"
  shows "run_step su (react demo_world now input su)"
  using assms demo_world_ok
  by (intro Iterate [of "(demo_world, now)" "(demo_world, now)" _ input])
    (auto simp add: iteration_def check_fatal_def run_finished_def)

lemma demo_steps:
  "run_step demo_start demo_running" "run_step demo_running demo_stopping"
  "run_step demo_stopping demo_killed" "run_step demo_killed demo_gone"
proof -
  show "run_step demo_start demo_running"
    unfolding demo_running_def by (intro demo_step) (simp_all add: demo_start_fatal demo_loop admissible_def)
  show "run_step demo_running demo_stopping"
    unfolding demo_stopping_def by (intro demo_step) (simp_all add: demo_running_store demo_loop admissible_def)
  show "run_step demo_stopping demo_killed"
    unfolding demo_killed_def by (intro demo_step) (simp_all add: demo_stopping_store demo_loop admissible_def)
  show "run_step demo_killed demo_gone"
    unfolding demo_gone_def
    by (intro demo_step) (simp_all add: demo_killed_store demo_loop admissible_def deliverable_def
        stopping_process_def web_process_def new_process_def)
qed

lemma demo_reachable: "reachable demo_running" "reachable demo_stopping" "reachable demo_killed" "reachable demo_gone"
  using demo_started demo_steps unfolding reachable_def by (meson rtranclp.rtrancl_into_rtrancl rtranclp.rtrancl_refl)+

lemma demo_later: "run_step\<^sup>*\<^sup>* demo_stopping demo_gone" "run_step\<^sup>*\<^sup>* demo_running demo_stopping"
  using demo_steps by (meson rtranclp.rtrancl_into_rtrancl rtranclp.rtrancl_refl)+

end
