(* ===== verification/Guarantees.thy ===== *)
theory Guarantees
  imports Frames Scenario
begin

text \<open>
  What holds of every state the supervisor reaches, and between any two of them.
\<close>

subsection \<open>Workers\<close>



text \<open>
  A worker that is ready is one the supervisor has and launched; it is neither told to stop
  nor gone.
\<close>

theorem ready_worker:
  assumes "reachable su" and "p_ready (st_procs (su_store su) p)"
  shows "p \<in> set (st_workers (su_store su)) \<and> launches (st_effects (su_store su)) p = 1
    \<and> p_stopping (st_procs (su_store su) p) = 0 \<and> \<not> p_exited (st_procs (su_store su) p)
    \<and> 0 < p_pid (st_procs (su_store su) p)"
proof -
  have i: "inv (su_store su)" by (rule reachable_inv [OF assms(1)])
  have "effects_match (st_procs (su_store su) p) (st_effects (su_store su)) p"
    using i effects_ok_at by (simp add: inv_def)
  with inv_procD [OF i, of p] assms(2) i show ?thesis
    by (auto simp: proc_ok_def effects_match_def inv_def supervised_def)
qed

lemma ready_worker_witness:
  "p_ready (st_procs (su_store demo_running) 0) \<and> 0 \<in> set (st_workers (su_store demo_running))
   \<and> launches (st_effects (su_store demo_running)) 0 = 1"
  using ready_worker [OF demo_reachable(1), of 0] by (simp add: demo_running_store web_process_def)

text \<open>
  C4: The running workers of a service never outnumber its limit: the maximum of its pool, or,
  for a scheduled application, one execution or with \<^verbatim>\<open>overlap\<close> the maximum.
\<close>

theorem workers_within_limit:
  assumes "reachable su" and "(name, s) \<in> set (st_services (su_store su))"
  defines "app \<equiv> s_config (st_servs (su_store su) s)"
  shows "available (su_store su) s \<le>
    max 0 (if app_schedule app = [] \<or> app_overlap app then app_max_workers app else 1)"
proof -
  have "service_ok (su_store su) name s"
    using reachable_inv [OF assms(1)] assms(2) services_okD(3) by (simp add: inv_def)
  then show ?thesis
    by (auto simp: service_ok_def worker_limit_def execution_limit_def app_def Let_def split: if_splits)
qed

lemma workers_within_limit_witness: "available (su_store demo_running) 0 = 1 \<and> (1::int) \<le> max 0 1"
  using workers_within_limit [OF demo_reachable(1), of "''web''" 0]
  by (simp add: demo_running_store available_def running_workers_def web_service_def new_service_def
      web_process_def new_process_def demo_app_simps)



text \<open>
  C23: Once a worker is told to stop it stays so, with the same stop time; a worker that exited or
  was killed stays so; a started worker keeps its pid; no worker changes its configuration or
  generation; and what was done outside is never revised.
\<close>

theorem never_taken_back:
  assumes "reachable su" and "run_step\<^sup>*\<^sup>* su su'" and "p < st_next_proc (su_store su)"
  defines "x \<equiv> st_procs (su_store su) p" and "y \<equiv> st_procs (su_store su') p"
  shows "(p_stopping x \<noteq> 0 \<longrightarrow> p_stopping y = p_stopping x) \<and> (p_exited x \<longrightarrow> p_exited y)
    \<and> (p_killed x \<longrightarrow> p_killed y) \<and> (\<not> p_pending x \<longrightarrow> p_pid y = p_pid x)
    \<and> p_config y = p_config x \<and> p_cycle y = p_cycle x
    \<and> prefix (st_effects (su_store su)) (st_effects (su_store su'))"
proof -
  have "evolves (su_store su) (su_store su')"
    by (rule steps_evolves [OF reachable_steps [OF assms(1,2)]])
  with assms(3) show ?thesis by (simp add: evolves_def x_def y_def Let_def)
qed

lemma never_taken_back_witness:
  "p_stopping (st_procs (su_store demo_gone) 0) = 3000 \<and> p_pid (st_procs (su_store demo_gone) 0) = 100"
  using never_taken_back [OF demo_reachable(2) demo_later(1), of 0]
  by (simp add: demo_stopping_store stopping_process_def web_process_def)

text \<open>
  C18: A worker that was told to stop before it was launched is never launched; a generation that
  is retiring never gets another member; and a cancelled action never runs again.
\<close>

theorem never_again:
  assumes "reachable su" and "run_step\<^sup>*\<^sup>* su su'"
  defines "st \<equiv> su_store su" and "st' \<equiv> su_store su'"
  shows "(\<forall>p < st_next_proc st. p_stopping (st_procs st p) \<noteq> 0 \<longrightarrow> launches (st_effects st') p = launches (st_effects st) p)
    \<and> (\<forall>c < st_next_cycle st. cy_retiring (st_cycles st c) \<longrightarrow>
        set (cy_members (st_cycles st' c)) \<subseteq> set (cy_members (st_cycles st c)))
    \<and> (\<forall>r < st_next_run st. ru_cancelled (st_runs st r) \<longrightarrow>
        runs_started (st_effects st') r = runs_started (st_effects st) r)"
proof -
  have "fenced st st'" unfolding st_def st'_def by (rule steps_fenced [OF reachable_steps [OF assms(1,2)]])
  then show ?thesis by (simp add: fenced_def)
qed

lemma never_again_witness:
  "launches (st_effects (su_store demo_gone)) 0 = launches (st_effects (su_store demo_stopping)) 0
   \<and> set (cy_members (st_cycles (su_store demo_gone) 0)) \<subseteq> {0}"
  using never_again [OF demo_reachable(2) demo_later(1)]
  by (simp add: demo_stopping_store stopping_process_def web_cycle_def)

lemma stopping_step:
  "run_step su su' \<Longrightarrow> su_stopping su \<Longrightarrow> unlaunched (su_store su) (su_store su') \<and> su_stopping su'"
proof (induction rule: run_step.induct)
  case (Iterate before after su input su')
  let ?su = "check_fatal (fst before) (snd before) su"
  from Iterate(5) have c: "su_store ?su = su_store su" "su_stopping ?su"
    by (simp_all add: check_fatal_def Let_def split: option.split)
  have "su' = react (fst after) (snd after) input ?su"
    using Iterate(4) by (simp add: iteration_def Let_def split: if_splits)
  moreover have "retry_pending w now ?su = ?su" for w now
    using c by (simp add: retry_pending_def split: option.split)
  moreover have "unlaunched x (x\<lparr>st_resources := r\<rparr>)" for x r by (simp add: unlaunched_def)
  ultimately show ?case
    using c unlaunched.frame_refl shutdown_unlaunched handle_unlaunched stopping_tick_unlaunched
    by (simp add: react_def Let_def split: input.split)
qed

lemma stopping_steps:
  "run_step\<^sup>*\<^sup>* su su' \<Longrightarrow> su_stopping su \<Longrightarrow> unlaunched (su_store su) (su_store su') \<and> su_stopping su'"
proof (induction rule: rtranclp_induct)
  case (step su1 su2)
  then show ?case using stopping_step [OF step.hyps(2)] unlaunched.frame_trans by blast
qed (simp add: unlaunched.frame_refl)

text \<open>
  C14: A supervisor that is stopping launches no process and admits no worker any more.
\<close>

theorem stopping_launches_nothing:
  assumes "su_stopping su" and "run_step\<^sup>*\<^sup>* su su'"
  shows "st_next_proc (su_store su') = st_next_proc (su_store su)
    \<and> (\<forall>p. launches (st_effects (su_store su')) p = launches (st_effects (su_store su)) p)"
  using stopping_steps [OF assms(2,1)] by (simp add: unlaunched_def)

lemma stopping_launches_nothing_witness:
  "st_next_proc (su_store demo_gone) = 1 \<and> launches (st_effects (su_store demo_gone)) 0 = 1"
  using stopping_launches_nothing [OF _ demo_later(1)]
  by (simp add: demo_loop demo_stopping_store launches_def web_launch_def)

text \<open>
  C20: Whatever an iteration of the loop does to the store is a sequence of the guarded moves of
  the abstract supervisor; once it is stopping it stays so, and the first error is final.
\<close>

theorem loop_refines_moves:
  assumes "reachable su" and "run_step su su'"
  shows "steps (su_store su) (su_store su')
    \<and> (su_stopping su \<longrightarrow> su_stopping su') \<and> (su_result su \<noteq> None \<longrightarrow> su_result su' = su_result su)"
  using reachable_later [OF assms(1) r_into_rtranclp [of run_step, OF assms(2)]] by (simp add: loop_later_def)

lemma loop_refines_moves_witness: "steps (su_store demo_killed) (su_store demo_gone) \<and> su_stopping demo_gone"
  using loop_refines_moves [OF demo_reachable(3) demo_steps(4)] demo_loop by blast

text \<open>
  The counter of action tasks, on which the end of \<^verbatim>\<open>run\<close> waits, is the number of actions that
  are running.
\<close>

theorem action_tasks_exact:
  assumes "reachable su"
  shows "st_action_tasks (su_store su) = int (card (running_runs (su_store su))) \<and> finite (running_runs (su_store su))"
proof -
  have "runs_ok (su_store su)" using reachable_inv [OF assms] by (simp add: inv_def)
  moreover from this have "finite (running_runs (su_store su))" by (rule finite_running)
  ultimately show ?thesis by (simp add: runs_ok_def)
qed

lemma action_tasks_exact_witness: "st_action_tasks (su_store demo_gone) = 0 \<and> card (running_runs (su_store demo_gone)) = 0"
  using action_tasks_exact [OF demo_reachable(4)] by (simp add: demo_gone_store)

end
