(* ===== verification/Supervision.thy ===== *)
theory Supervision
  imports Frames Scenario
begin

text \<open>
  How the supervisor ends workers: the order in which a stopping supervisor stops them, why it
  makes progress, and the kill of a worker that does not end in time.
\<close>

subsection \<open>The order of shutdown\<close>

text \<open>The configuration the services run.\<close>

definition apps_of :: "store \<Rightarrow> apps" where
  "apps_of st = map (\<lambda>(name, s). (name, s_config (st_servs st s))) (st_services st)"

definition service_name :: "store \<Rightarrow> proc_id \<Rightarrow> go_string" where
  "service_name st p = s_name (st_servs st (p_service (st_procs st p)))"

text \<open>Some worker still needs the service of \<open>p\<close>.\<close>

lemma still_required_iff:
  "still_required st p \<longleftrightarrow> (\<exists>q \<in> set (st_workers st). map_of (dependencies (p_config (st_procs st q))) (service_name st p) \<noteq> None)"
  by (simp add: still_required_def list_ex_iff service_name_def)

lemma stop_unrequired_confined: "confined p st (stop_unrequired w now p st)"
  using confined.frame_refl confined.stop_frame by (simp add: stop_unrequired_def)

text \<open>One turn of the loop over the workers of a stopping supervisor.\<close>

lemma stop_unrequired_turn:
  fixes w :: world
  assumes "inv st" and "0 < now" and "x < st_next_proc st"
  defines "st1 \<equiv> stop_unrequired w now x st"
  shows "inv st1" and "st_next_proc st \<le> st_next_proc st1" and "set (st_workers st1) \<subseteq> set (st_workers st)"
    and "p \<noteq> x \<Longrightarrow> st_procs st1 p = st_procs st p" and "p \<noteq> x \<Longrightarrow> service_name st1 p = service_name st p"
    and "q < st_next_proc st \<Longrightarrow> p_config (st_procs st1 q) = p_config (st_procs st q)"
    and "q < st_next_proc st \<Longrightarrow> p_stopping (st_procs st q) \<noteq> 0 \<Longrightarrow> p_stopping (st_procs st1 q) \<noteq> 0"
    and "q < st_next_proc st \<Longrightarrow> p_exited (st_procs st q) \<Longrightarrow> p_exited (st_procs st1 q)"
    and "\<not> still_required st x \<Longrightarrow> p_stopping (st_procs st1 x) \<noteq> 0"
proof -
  have m: "moves st st1" unfolding st1_def by (rule stop_unrequired_moves [OF assms(1,2)])
  have c: "confined x st st1" unfolding st1_def by (rule stop_unrequired_confined)
  show "inv st1" by (rule moves_inv [OF m assms(1)])
  show "st_next_proc st \<le> st_next_proc st1" using moves_evolves [OF m] by (simp add: evolves_def)
  show "set (st_workers st1) \<subseteq> set (st_workers st)" using c by (simp add: confined_def)
  show "st_procs st1 p = st_procs st p" if "p \<noteq> x" using c that by (simp add: confined_def)
  then show "service_name st1 p = service_name st p" if "p \<noteq> x"
    using moves_stable [OF m] that by (simp add: stable_def service_name_def)
  show "p_config (st_procs st1 q) = p_config (st_procs st q)" if "q < st_next_proc st"
    using moves_evolves [OF m] that by (simp add: evolves_def Let_def)
  show "p_stopping (st_procs st1 q) \<noteq> 0" if "q < st_next_proc st" "p_stopping (st_procs st q) \<noteq> 0"
    using moves_evolves [OF m] that by (simp add: evolves_def Let_def)
  show "p_exited (st_procs st1 q)" if "q < st_next_proc st" "p_exited (st_procs st q)"
    using moves_evolves [OF m] that by (simp add: evolves_def Let_def)
  show "p_stopping (st_procs st1 x) \<noteq> 0" if "\<not> still_required st x"
    using stop_stopping [OF assms(1-3)] that by (simp add: st1_def stop_unrequired_def)
qed

lemma stop_order_fold:
  assumes "inv st" and "0 < now" and "distinct ps" and "set ps \<subseteq> {..<st_next_proc st}"
    and "p_stopping (st_procs st p) = 0" and "p_stopping (st_procs (fold (stop_unrequired w now) ps st) p) \<noteq> 0"
    and "set (st_workers st) \<subseteq> {..<st_next_proc st}"
    and "q \<in> set (st_workers (fold (stop_unrequired w now) ps st))"
  shows "map_of (dependencies (p_config (st_procs st q))) (service_name st p) = None"
  using assms(1,3-8)
proof (induction ps arbitrary: st)
  case (Cons x ps)
  let ?st = "stop_unrequired w now x st"
  have x: "x < st_next_proc st" using Cons.prems(3) by simp
  note t = stop_unrequired_turn [OF Cons.prems(1) assms(2) x, where w = w]
  have below: "set ps \<subseteq> {..<st_next_proc ?st}" "set (st_workers ?st) \<subseteq> {..<st_next_proc ?st}"
    using t(2,3) Cons.prems(3,6) by auto
  have shrink: "set (st_workers (fold (stop_unrequired w now) ys s)) \<subseteq> set (st_workers s)" for ys s
  proof (induction ys arbitrary: s)
    case (Cons y ys)
    have "set (st_workers (stop_unrequired w now y s)) \<subseteq> set (st_workers s)"
      using stop_unrequired_confined [of y s w now] by (simp add: confined_def)
    with Cons.IH [of "stop_unrequired w now y s"] show ?case by auto
  qed simp
  have q: "q \<in> set (st_workers ?st)" using Cons.prems(7) shrink [of ps ?st] by auto
  with t(3) Cons.prems(6) have qn: "q < st_next_proc st" by auto
  show ?case
  proof (cases "x = p")
    case False
    have "map_of (dependencies (p_config (st_procs ?st q))) (service_name ?st p) = None"
      using False Cons.prems t(4) [of p] below by (intro Cons.IH t(1)) auto
    with t(5) [of p] t(6) [OF qn] False show ?thesis by simp
  next
    case True
    have keep: "st_procs (fold (stop_unrequired w now) ys s) p = st_procs s p" if "p \<notin> set ys" for ys s
      using that
    proof (induction ys arbitrary: s)
      case (Cons y ys)
      have "st_procs (stop_unrequired w now y s) p = st_procs s p"
        using stop_unrequired_confined [of y s w now] Cons.prems by (simp add: confined_def)
      with Cons show ?case by simp
    qed simp
    have "p \<notin> set ps" using Cons.prems(2) True by simp
    then have "p_stopping (st_procs ?st p) \<noteq> 0" using keep [of ps ?st] Cons.prems(5) by simp
    then have "\<not> still_required st p" using Cons.prems(4) True by (auto simp: stop_unrequired_def)
    with q t(3) show ?thesis by (auto simp: still_required_iff)
  qed
qed simp

text \<open>
  C19: The loop of a stopping supervisor tells a worker to stop only when none of the workers that
  are left depends on its service, in whatever order the workers are looped over.
\<close>

theorem dependents_stop_first:
  assumes "inv st" and "0 < now" and "world_ok w"
  defines "st' \<equiv> fold (stop_unrequired w now) (w_order w LoopStopping (st_workers st)) st"
  assumes "p_stopping (st_procs st p) = 0" and "p_stopping (st_procs st' p) \<noteq> 0" and "q \<in> set (st_workers st')"
  shows "map_of (dependencies (p_config (st_procs st q))) (s_name (st_servs st (p_service (st_procs st p)))) = None"
proof -
  have below: "set (st_workers st) \<subseteq> {..<st_next_proc st}" and d: "distinct (st_workers st)"
    using workers_below assms(1) services_okD(2) by (simp_all add: inv_def)
  have "distinct (w_order w LoopStopping (st_workers st))"
    using d assms(3) by (metis mset_eq_imp_distinct_iff world_ok_def)
  then show ?thesis
    using stop_order_fold [OF assms(1,2) _ _ assms(5) assms(6) [unfolded st'_def] below assms(7) [unfolded st'_def]]
      below world_order [OF assms(3)] by (simp add: service_name_def)
qed

lemma dependents_stop_first_witness:
  "p_stopping (st_procs (fold (stop_unrequired demo_world 5000) [0] (su_store demo_running)) 0) = 5000
   \<and> map_of (dependencies demo_app) ''web'' = None"
proof -
  let ?st = "su_store demo_running"
  have o: "w_order demo_world LoopStopping (st_workers ?st) = [0]"
    by (simp add: demo_world_def demo_running_store)
  have stopped: "p_stopping (st_procs (fold (stop_unrequired demo_world 5000) [0] ?st) 0) = 5000
      \<and> st_workers (fold (stop_unrequired demo_world 5000) [0] ?st) = [0]"
    by (simp add: demo_running_store demo_eval demo_states cong: demo_congs)
  have "world_ok demo_world" using demo_world_ok [of 1] by (simp add: moment_ok_def)
  from dependents_stop_first [OF reachable_inv [OF demo_reachable(1)] _ this, of 5000 0 0, unfolded o] stopped
  show ?thesis by (simp add: demo_running_store web_process_def new_process_def web_service_def new_service_def)
qed

lemma stop_unrequired_loop:
  assumes "inv st" and "0 < now" and "set ps \<subseteq> {..<st_next_proc st}" and "set (st_workers st) \<subseteq> {..<st_next_proc st}"
    and "q < st_next_proc st"
  shows "(p_stopping (st_procs st q) \<noteq> 0 \<longrightarrow> p_stopping (st_procs (fold (stop_unrequired w now) ps st) q) \<noteq> 0)
    \<and> (p_exited (st_procs st q) \<longrightarrow> p_exited (st_procs (fold (stop_unrequired w now) ps st) q))
    \<and> (q \<in> set ps \<and> (\<forall>r \<in> set (st_workers st). map_of (dependencies (p_config (st_procs st r))) (service_name st q) = None)
        \<longrightarrow> p_stopping (st_procs (fold (stop_unrequired w now) ps st) q) \<noteq> 0)"
  using assms(1,3-5)
proof (induction ps arbitrary: st)
  case (Cons x ps)
  let ?st = "stop_unrequired w now x st"
  have x: "x < st_next_proc st" using Cons.prems(2) by simp
  note t = stop_unrequired_turn [OF Cons.prems(1) assms(2) x, where w = w]
  have "set ps \<subseteq> {..<st_next_proc ?st}" "set (st_workers ?st) \<subseteq> {..<st_next_proc ?st}" "q < st_next_proc ?st"
    using t(2,3) Cons.prems(2-4) by auto
  note IH = Cons.IH [OF t(1) this]
  have "p_stopping (st_procs ?st q) \<noteq> 0 \<or> (q \<in> set ps \<and> (\<forall>r \<in> set (st_workers ?st).
      map_of (dependencies (p_config (st_procs ?st r))) (service_name ?st q) = None))"
    if "q \<in> set (x # ps)" "\<forall>r \<in> set (st_workers st). map_of (dependencies (p_config (st_procs st r))) (service_name st q) = None"
  proof (cases "x = q")
    case True
    then have "\<not> still_required st x" using that(2) by (auto simp: still_required_iff)
    with t(9) True show ?thesis by simp
  next
    case False
    have "p_config (st_procs ?st r) = p_config (st_procs st r)" if "r \<in> set (st_workers ?st)" for r
      using t(3,6) Cons.prems(3) that by auto
    with that False t(3) t(5) [of q] show ?thesis by auto
  qed
  with IH t(7,8) Cons.prems(4) show ?case unfolding fold_Cons comp_apply by blast
qed simp

text \<open>What a running worker needs is an edge of the dependency graph of the services.\<close>

lemma worker_edge:
  assumes i: "inv st" and "q \<in> set (st_workers st)" and "p_stopping (st_procs st q) = 0" and "\<not> p_exited (st_procs st q)"
    and "map_of (dependencies (p_config (st_procs st q))) d \<noteq> None"
  shows "(service_name st q, d) \<in> depends (apps_of st)"
proof -
  let ?s = "p_service (st_procs st q)"
  have "worker_ok st q" using i assms(2) services_okD(4) by (simp add: inv_def)
  with assms(3,4) have s: "?s \<in> snd ` set (st_services st)"
    and cfg: "p_config (st_procs st q) = s_config (st_servs st ?s)" by (auto simp: worker_ok_def Let_def)
  obtain n where n: "service_ok st n ?s" "(n, ?s) \<in> set (st_services st)" by (rule inv_service [OF i s])
  then have "service_name st q = n" by (simp add: service_name_def service_ok_def Let_def)
  moreover have "map_of (apps_of st) n = Some (s_config (st_servs st ?s))"
  proof (rule map_of_is_SomeI)
    show "distinct (map fst (apps_of st))"
      using inv_distinct [OF i] by (simp add: apps_of_def case_prod_beta comp_def)
    show "(n, s_config (st_servs st ?s)) \<in> set (apps_of st)" using n(2) by (force simp: apps_of_def)
  qed
  moreover have "d \<in> fst ` set (dependencies (p_config (st_procs st q)))"
    using assms(5) by (simp add: map_of_eq_None_iff)
  ultimately show ?thesis using cfg by (auto simp: depends_def)
qed

text \<open>
  C9: A stopping supervisor makes progress: when the dependencies of its services are as
  \<^verbatim>\<open>validateDependencies\<close> accepts them, then after each round some worker is stopping or gone.
\<close>

theorem shutdown_progress:
  assumes i: "inv st" and "0 < now" and w: "world_ok w" and ok: "dependencies_ok (apps_of st)"
    and some: "st_workers st \<noteq> []"
  defines "st' \<equiv> fold (stop_unrequired w now) (w_order w LoopStopping (st_workers st)) st"
  shows "\<exists>p \<in> set (st_workers st). p_stopping (st_procs st' p) \<noteq> 0 \<or> p_exited (st_procs st' p)"
proof -
  let ?W = "set (st_workers st)"
  have below: "?W \<subseteq> {..<st_next_proc st}" using workers_below i by (simp add: inv_def)
  then have "set (w_order w LoopStopping (st_workers st)) \<subseteq> {..<st_next_proc st}"
    using world_order [OF w] by simp
  note loop = stop_unrequired_loop [OF i assms(2) this below, where w = w, folded st'_def]
  show ?thesis
  proof (cases "\<exists>p \<in> ?W. p_stopping (st_procs st p) \<noteq> 0 \<or> p_exited (st_procs st p)")
    case True
    with loop below show ?thesis by blast
  next
    case False
    then have edge: "(service_name st q, d) \<in> depends (apps_of st)"
      if "q \<in> ?W" and "map_of (dependencies (p_config (st_procs st q))) d \<noteq> None" for q d
      using worker_edge [OF i that(1) _ _ that(2)] that(1) by blast
    have "finite (depends (apps_of st))"
    proof (rule finite_subset)
      show "depends (apps_of st) \<subseteq> {n. known (apps_of st) n} \<times> {n. known (apps_of st) n}"
        using ok depends_known by (auto simp: dependencies_ok_def)
    qed (simp add: finite_known)
    then have "wf (depends (apps_of st))" using ok by (intro finite_acyclic_wf) (simp_all add: dependencies_ok_def)
    moreover have "service_name st ` ?W \<noteq> {}" using some by simp
    ultimately obtain z where z: "z \<in> service_name st ` ?W"
      "\<And>y. (y, z) \<in> depends (apps_of st) \<Longrightarrow> y \<notin> service_name st ` ?W"
      by (metis wfE_min ex_in_conv)
    then obtain p where p: "p \<in> ?W" "z = service_name st p" by blast
    have "\<forall>r \<in> ?W. map_of (dependencies (p_config (st_procs st r))) (service_name st p) = None"
      using edge z(2) p by blast
    moreover have "p \<in> set (w_order w LoopStopping (st_workers st))" using p(1) world_order [OF w] by simp
    ultimately have "p_stopping (st_procs st' p) \<noteq> 0" using loop [of p] p(1) below by blast
    with p(1) show ?thesis by blast
  qed
qed

lemma shutdown_progress_witness:
  "\<not> (p_stopping (st_procs (fold (stop_unrequired demo_world 5000) [0] (su_store demo_running)) 0) = 0
   \<and> \<not> p_exited (st_procs (fold (stop_unrequired demo_world 5000) [0] (su_store demo_running)) 0))"
proof -
  let ?st = "su_store demo_running"
  have o: "w_order demo_world LoopStopping (st_workers ?st) = [0]" and some: "st_workers ?st = [0]"
    by (simp_all add: demo_world_def demo_running_store)
  have "depends (apps_of ?st) = {}"
    by (auto simp: depends_def apps_of_def demo_running_store web_service_def new_service_def demo_app_simps
        split: if_splits)
  then have ok: "dependencies_ok (apps_of ?st)" by (simp add: dependencies_ok_def acyclic_def)
  have "world_ok demo_world" using demo_world_ok [of 1] by (simp add: moment_ok_def)
  from shutdown_progress [OF reachable_inv [OF demo_reachable(1)] _ this ok, of 5000, unfolded o] some
  show ?thesis by simp
qed

subsection \<open>Overdue workers\<close>

lemma tick_worker_others: "p \<noteq> x \<Longrightarrow> st_procs (tick_worker w now x st) p = st_procs st p"
  using confined.tick_worker_frame [of x st w now] by (simp add: confined_def)

lemma tick_workers_others: "p \<notin> set ps \<Longrightarrow> st_procs (fold (tick_worker w now) ps st) p = st_procs st p"
  by (induction ps arbitrary: st) (auto simp: tick_worker_others)

text \<open>Its own turn kills an overdue worker, whether or not the stop has been sent.\<close>

lemma tick_worker_kills:
  assumes "inv st" and "\<not> p_pending (st_procs st p)" and "\<not> p_exited (st_procs st p)"
    and "p_stopping (st_procs st p) \<noteq> 0"
    and "app_stop_timeout (p_config (st_procs st p)) \<le> time_sub now (p_stopping (st_procs st p))"
  shows "p_killed (st_procs (tick_worker w now p st) p)"
proof -
  obtain c where c: "p_cycle (st_procs st p) = Some c" using inv_has_scope [OF assms(1)] by blast
  let ?x = "st_procs st p" and ?y = "st_procs (lifecycle w p now st) p"
  obtain st1 a where st1: "phase (p_scope ?x) ''pre_stop'' now st = (st1, a)" by fastforce
  obtain st2 b where st2: "(if cy_retiring (st_cycles st1 c)
      then phase (Some (cy_scope (st_cycles st1 c))) ''pre_stop'' now st1 else (st1, True)) = (st2, b)" by fastforce
  have p2: "st_procs st2 = st_procs st"
    using st2 phase_moves(2) [OF phase_inv [OF assms(1) st1]] phase_moves(2) [OF assms(1) st1]
    by (auto simp: same_workers_def split: if_splits)
  have signal: "st_procs (signal_stop w p now s) = st_procs s" for s by (simp add: signal_stop_def Let_def)
  have l: "lifecycle w p now st = lifecycle_stopping w p c now st"
    using assms(3,4) c by (simp add: lifecycle_def)
  have "p_config ?y = p_config ?x \<and> p_stopping ?y = p_stopping ?x \<and> p_exited ?y = p_exited ?x
      \<and> p_pending ?y = p_pending ?x"
    unfolding l lifecycle_stopping_def Let_def st1 prod.case st2 using assms(2) by (simp add: p2 signal)
  then show ?thesis
    using assms(2-5) by (simp add: tick_worker_def kill_overdue_def Let_def)
qed

text \<open>What the worker loop killed stays killed to the end of the tick.\<close>

lemma tick_after_workers:
  fixes stopping :: bool
  assumes "inv st" and "0 < now" and "world_ok w"
  defines "st1 \<equiv> (if stopping then st else fold (rearm_listener w now) (map snd (st_listeners st)) st)"
  defines "st2 \<equiv> fold (tick_worker w now) (w_order w LoopWorkers (st_workers st1)) st1"
  shows "inv st1" and "st_procs st1 = st_procs st" and "st_workers st1 = st_workers st"
    and "moves st2 (tick w now stopping st)" and "moves st1 st2"
    and "set (w_order w LoopWorkers (st_workers st1)) \<subseteq> {..<st_next_proc st1}"
    and "distinct (w_order w LoopWorkers (st_workers st1))"
proof -
  have "st_procs (fold (rearm_listener w now) ls s) = st_procs s
      \<and> st_workers (fold (rearm_listener w now) ls s) = st_workers s" for ls s
    by (induction ls arbitrary: s) (simp_all add: rearm_listener_def Let_def set_fatal_def split: option.split)
  then show "st_procs st1 = st_procs st" "st_workers st1 = st_workers st" by (simp_all add: st1_def)
  have "moves st st1" unfolding st1_def using assms(1) by (auto intro: moves_fold rearm_moves)
  then show i1: "inv st1" using moves_inv assms(1) by blast
  show order: "set (w_order w LoopWorkers (st_workers st1)) \<subseteq> {..<st_next_proc st1}"
    using i1 workers_below world_order [OF assms(3)] by (simp add: inv_def)
  have "distinct (st_workers st1)" using i1 services_okD(2) by (simp add: inv_def)
  then show "distinct (w_order w LoopWorkers (st_workers st1))"
    using assms(3) by (metis mset_eq_imp_distinct_iff world_ok_def)
  show m2: "moves st1 st2" unfolding st2_def by (rule tick_workers_moves [OF order i1 assms(2)])
  have "inv st2" using moves_inv [OF m2 i1] .
  then have "moves st2 (if stopping then fold (stop_unrequired w now) (w_order w LoopStopping (st_workers st2)) st2
      else tick_services w now st2)"
    using assms(2,3) by (auto intro: moves_fold stop_unrequired_moves tick_services_moves)
  then show "moves st2 (tick w now stopping st)"
    by (simp only: tick_def Let_def st1_def [symmetric] st2_def [symmetric])
qed

text \<open>
  C17: A worker that was told to stop and is still there when its stop timeout has passed is
  killed by the next tick, and no worker is killed twice.
\<close>

theorem overdue_killed:
  assumes i: "inv st" and now: "0 < now" and w: "world_ok w" and p: "p \<in> set (st_workers st)"
    and x: "\<not> p_pending (st_procs st p)" "\<not> p_exited (st_procs st p)" "p_stopping (st_procs st p) \<noteq> 0"
      "app_stop_timeout (p_config (st_procs st p)) \<le> time_sub now (p_stopping (st_procs st p))"
  shows "p_killed (st_procs (tick w now stopping st) p) \<and> kills (st_effects (tick w now stopping st)) p = 1"
proof -
  define st1 where "st1 = (if stopping then st else fold (rearm_listener w now) (map snd (st_listeners st)) st)"
  note t = tick_after_workers [OF i now w, of stopping, folded st1_def]
  let ?order = "w_order w LoopWorkers (st_workers st1)"
  have "p \<in> set ?order" using p t(3) world_order [OF w] by simp
  then obtain before after where ps: "?order = before @ p # after" by (meson split_list)
  then have fresh: "p \<notin> set before" using t(7) by auto
  define st2 where "st2 = fold (tick_worker w now) before st1"
  have "moves st1 st2" unfolding st2_def using t(1,6) now ps by (intro tick_workers_moves) auto
  then have i2: "inv st2" using moves_inv t(1) by blast
  have "st_procs st2 p = st_procs st p" unfolding st2_def using fresh t(2) by (simp add: tick_workers_others)
  then have k3: "p_killed (st_procs (tick_worker w now p st2) p)" using tick_worker_kills [OF i2] x by simp
  define st3 where "st3 = tick_worker w now p st2"
  have "p \<notin> set after" using t(7) ps by auto
  then have "st_procs (fold (tick_worker w now) after st3) p = st_procs st3 p" by (rule tick_workers_others)
  moreover have "fold (tick_worker w now) ?order st1 = fold (tick_worker w now) after st3"
    by (simp add: ps st2_def st3_def)
  ultimately have k: "p_killed (st_procs (fold (tick_worker w now) ?order st1) p)" using k3 by (simp add: st3_def)
  have "p < st_next_proc st1" using \<open>p \<in> set ?order\<close> t(6) by auto
  then have "p < st_next_proc (fold (tick_worker w now) ?order st1)"
    using moves_evolves [OF t(5)] by (simp add: evolves_def)
  with moves_evolves [OF t(4)] k have k': "p_killed (st_procs (tick w now stopping st) p)"
    by (simp add: evolves_def Let_def)
  have "inv (tick w now stopping st)" using moves_inv [OF t(4) moves_inv [OF t(5,1)]] .
  with k' effects_ok_at [of "tick w now stopping st" p] show ?thesis
    by (simp add: inv_def effects_match_def)
qed

lemma overdue_killed_witness:
  "p_killed (st_procs (tick demo_world (11 * second) True (su_store demo_stopping)) 0)
   \<and> kills (st_effects (tick demo_world (11 * second) True (su_store demo_stopping))) 0 = 1"
proof -
  have "world_ok demo_world" using demo_world_ok [of 1] by (simp add: moment_ok_def)
  from overdue_killed [OF reachable_inv [OF demo_reachable(2)] _ this, of "11 * second" 0 True]
  show ?thesis
    by (simp add: demo_stopping_store stopping_process_def web_process_def new_process_def demo_app_simps)
qed

end
