(* ===== verification/Reloading.thy ===== *)
theory Reloading
  imports Frames Scenario
begin

text \<open>
  What applying a configuration achieves: a rejected one is undone and leaves the services alone,
  an accepted one makes the services exactly its applications and does not touch the workers of an
  application that did not change.
\<close>

subsection \<open>A rejected configuration\<close>

text \<open>The effects of a stage: listeners and permissions only, and what of them is still open.\<close>

definition opens_only :: "effect list \<Rightarrow> listener_id list \<Rightarrow> bool" where
  "opens_only es ls \<longleftrightarrow> (\<forall>e \<in> set es. \<exists>l s. e = OpenListener l s \<or> e = CloseListener l)
     \<and> (\<forall>l s. OpenListener l s \<in> set es \<longrightarrow> l \<in> set ls \<or> CloseListener l \<in> set es)"

lemma opens_only_kinds:
  "opens_only es ls \<Longrightarrow> SetPermissions path m \<notin> set es"
  "opens_only es ls \<Longrightarrow> FinishPermissions path b \<notin> set es"
  unfolding opens_only_def by force+

definition staged_like :: "store \<Rightarrow> store \<Rightarrow> bool" where
  "staged_like st st' \<longleftrightarrow> st_listeners st' = st_listeners st \<and> st_limits st' = st_limits st \<and> st_fatal st' = st_fatal st"

lemma open_listeners_effects:
  assumes "open_listeners w apps st opened = (st', failure, opened')"
  shows "\<exists>es. st_effects st' = st_effects st @ es \<and> staged_like st st' \<and> set opened \<subseteq> set opened'
    \<and> opens_only es (map snd opened')"
  using assms
proof (induction w apps st opened arbitrary: st' rule: open_listeners.induct)
  case (2 w name app apps st opened)
  let ?l = "st_next_listener st + 1"
  consider (skip) "\<not> needs_listener st name app"
    | (stop) "needs_listener st name app" "w_open w name = None \<or> st_next_listener st = 2 ^ 31 - 1"
    | (bind) bound where "needs_listener st name app" "w_open w name = Some bound" "st_next_listener st \<noteq> 2 ^ 31 - 1"
    by (cases "w_open w name") auto
  then show ?case
  proof cases
    case skip
    with 2 show ?thesis by simp
  next
    case stop
    with 2(3) have "st' = st" "opened' = opened" by (auto split: option.splits)
    then show ?thesis by (auto simp: opens_only_def staged_like_def)
  next
    case bind
    define st1 where "st1 = upd_list ?l (\<lambda>_. \<lparr>l_address = bound, l_rearm_at = 0\<rparr>)
      (emit (OpenListener ?l (app_listen app)) (st\<lparr>st_next_listener := ?l\<rparr>))"
    have e1: "st_effects st1 = st_effects st @ [OpenListener ?l (app_listen app)]" "staged_like st st1"
      by (simp_all add: st1_def staged_like_def)
    have body: "(if w_arm w ?l then open_listeners w apps st1 (opened @ [(name, ?l)])
        else (emit (CloseListener ?l) st1, Some (RegisterFailed name), opened)) = (st', failure, opened')"
      unfolding st1_def using 2(3) bind by (simp add: Let_def split del: if_split)
    show ?thesis
    proof (cases "w_arm w ?l")
      case True
      have "open_listeners w apps st1 (opened @ [(name, ?l)]) = (st', failure, opened')"
        using body True by simp
      then obtain es where es: "st_effects st' = st_effects st1 @ es" "staged_like st1 st'"
        "set (opened @ [(name, ?l)]) \<subseteq> set opened'" "opens_only es (map snd opened')"
        using 2(2) bind True by (fastforce simp: st1_def)
      have "st_effects st' = st_effects st @ (OpenListener ?l (app_listen app) # es)" using es(1) e1(1) by simp
      moreover have "?l \<in> set (map snd opened')" using es(3) by force
      then have "opens_only (OpenListener ?l (app_listen app) # es) (map snd opened')"
        using es(4) by (auto simp: opens_only_def)
      ultimately show ?thesis using es(2,3) e1(2) by (auto simp: staged_like_def)
    next
      case False
      with body have "st' = emit (CloseListener ?l) st1" "opened' = opened" by auto
      then show ?thesis using e1 by (auto simp: opens_only_def staged_like_def)
    qed
  qed
qed (auto simp: opens_only_def staged_like_def)

definition permits_only :: "effect list \<Rightarrow> go_string list \<Rightarrow> bool" where
  "permits_only es paths \<longleftrightarrow> (\<forall>e \<in> set es. \<exists>path m. e = SetPermissions path m \<and> path \<in> set paths)"

lemma permits_only_kinds:
  "permits_only es paths \<Longrightarrow> OpenListener l s \<notin> set es"
  "permits_only es paths \<Longrightarrow> FinishPermissions path b \<notin> set es"
  unfolding permits_only_def by force+

lemma stage_permissions_effects:
  assumes "stage_permissions w apps st staged = (st', failure, staged')"
  shows "\<exists>es. st_effects st' = st_effects st @ es \<and> staged_like st st' \<and> set staged \<subseteq> set staged'
    \<and> permits_only es staged'"
  using assms
proof (induction w apps st staged arbitrary: st' rule: stage_permissions.induct)
  case (2 w name app apps st staged)
  consider (skip) "\<not> needs_permissions st name app" | (failed) "needs_permissions st name app" "\<not> w_chmod w name"
    | (set) "needs_permissions st name app" "w_chmod w name" by blast
  then show ?case
  proof cases
    case set
    let ?path = "address (app_listen app)" and ?e = "SetPermissions (address (app_listen app)) (socket_permissions app)"
    from 2(2) [of st'] set 2(3) obtain es where es: "st_effects st' = st_effects (emit ?e st) @ es"
      "staged_like (emit ?e st) st'" "set (staged @ [?path]) \<subseteq> set staged'" "permits_only es staged'" by auto
    then have "st_effects st' = st_effects st @ (?e # es)" by simp
    moreover have "permits_only (?e # es) staged'" using es(3,4) by (auto simp: permits_only_def)
    ultimately show ?thesis using es(2,3) by (auto simp: staged_like_def)
  qed (use 2 in \<open>auto simp: permits_only_def staged_like_def\<close>)
qed (auto simp: permits_only_def staged_like_def)

text \<open>The deferred function, when nothing was committed.\<close>

lemma finish_effects:
  "\<exists>es. st_effects (finish_apply w False staged opened st) = st_effects st @ es
     \<and> st_listeners (finish_apply w False staged opened st) = st_listeners st
     \<and> st_limits (finish_apply w False staged opened st) = st_limits st
     \<and> (st_fatal (finish_apply w False staged opened st) = st_fatal st
        \<or> (\<exists>path \<in> set staged. \<not> w_finish w path))
     \<and> set es = (\<lambda>path. FinishPermissions path False) ` set staged \<union> (\<lambda>(_, l). CloseListener l) ` set opened"
proof -
  have permissions: "\<exists>es. st_effects (fold (finish_permissions w False) paths s) = st_effects s @ es
      \<and> st_listeners (fold (finish_permissions w False) paths s) = st_listeners s
      \<and> st_limits (fold (finish_permissions w False) paths s) = st_limits s
      \<and> (st_fatal (fold (finish_permissions w False) paths s) = st_fatal s \<or> (\<exists>path \<in> set paths. \<not> w_finish w path))
      \<and> set es = (\<lambda>path. FinishPermissions path False) ` set paths" for paths s
  proof (induction paths arbitrary: s)
    case (Cons path paths)
    let ?s = "finish_permissions w False path s"
    have "st_effects ?s = st_effects s @ [FinishPermissions path False]" "st_listeners ?s = st_listeners s"
      "st_limits ?s = st_limits s" "w_finish w path \<Longrightarrow> st_fatal ?s = st_fatal s"
      by (simp_all add: finish_permissions_def Let_def set_fatal_def)
    with Cons.IH [of ?s] show ?case by auto
  qed simp
  have listeners: "st_effects (fold (\<lambda>(_, l). emit (CloseListener l)) ls s) = st_effects s @ map (\<lambda>(_, l). CloseListener l) ls
      \<and> st_listeners (fold (\<lambda>(_, l). emit (CloseListener l)) ls s) = st_listeners s
      \<and> st_limits (fold (\<lambda>(_, l). emit (CloseListener l)) ls s) = st_limits s
      \<and> st_fatal (fold (\<lambda>(_, l). emit (CloseListener l)) ls s) = st_fatal s" for ls :: "(go_string \<times> listener_id) list" and s
    by (induction ls arbitrary: s) (auto split: prod.split)
  from permissions [of "rev staged" st] listeners [of opened "fold (finish_permissions w False) (rev staged) st"]
  show ?thesis by (auto simp: finish_apply_def Let_def)
qed

lemma rejected_same:
  assumes "apply_snapshot w sn st = (st', Some e)"
  shows "same_core st st'"
proof (cases "sn_cgroup sn = st_cgroup st \<and> (\<exists>plans. plan_schedules (sn_apps sn) = Inr plans)")
  case False
  then have "st' = st"
    using assms by (cases "plan_schedules (sn_apps sn)") (auto simp: apply_snapshot_def split: if_splits)
  then show ?thesis by (simp add: same_core_refl)
next
  case True
  obtain st1 failure1 opened where st1: "open_listeners w (sn_apps sn) st [] = (st1, failure1, opened)"
    by (metis prod_cases3)
  obtain st2 failure2 staged where st2: "stage_permissions w (sn_apps sn) st1 [] = (st2, failure2, staged)"
    by (metis prod_cases3)
  have c1: "same_core st st1" using open_listeners_same [of st w "sn_apps sn" "[]"] st1 by simp
  have c2: "same_core st st2"
    using stage_permissions_same [of st1 w "sn_apps sn" "[]"] st2 same_core_trans [OF c1] by simp
  obtain staged' last_st where "st' = finish_apply w False staged' opened last_st" "last_st = st1 \<or> last_st = st2"
    using assms True st1 st2 by (auto simp: apply_snapshot_def Let_def split: option.splits)
  then show ?thesis using same_core_trans [OF _ finish_apply_same] c1 c2 by blast
qed

text \<open>
  C10: A rejected configuration changes nothing that runs: the services, workers, listeners and
  limits are as before, every listener it opened is closed again, every socket permission it set
  is undone, and the supervisor only fails when undoing one does.
\<close>

theorem rejected_configuration:
  assumes "apply_snapshot w sn st = (st', Some e)"
  shows "same_core st st' \<and> st_listeners st' = st_listeners st \<and> st_limits st' = st_limits st
    \<and> (\<exists>es. st_effects st' = st_effects st @ es
        \<and> (\<forall>l s. OpenListener l s \<in> set es \<longrightarrow> CloseListener l \<in> set es)
        \<and> (\<forall>path m. SetPermissions path m \<in> set es \<longrightarrow> FinishPermissions path False \<in> set es)
        \<and> (\<forall>path. FinishPermissions path True \<notin> set es))
    \<and> (st_fatal st' = st_fatal st \<or> (\<exists>path. \<not> w_finish w path))"
proof (cases "sn_cgroup sn = st_cgroup st \<and> (\<exists>plans. plan_schedules (sn_apps sn) = Inr plans)")
  case False
  then have "st' = st"
    using assms by (cases "plan_schedules (sn_apps sn)") (auto simp: apply_snapshot_def split: if_splits)
  then show ?thesis by (simp add: same_core_refl)
next
  case True
  obtain st1 failure1 opened where st1: "open_listeners w (sn_apps sn) st [] = (st1, failure1, opened)"
    by (metis prod_cases3)
  obtain st2 failure2 staged where st2: "stage_permissions w (sn_apps sn) st1 [] = (st2, failure2, staged)"
    by (metis prod_cases3)
  from open_listeners_effects [OF st1] obtain es1 where es1: "st_effects st1 = st_effects st @ es1"
    "staged_like st st1" "opens_only es1 (map snd opened)" by auto
  from stage_permissions_effects [OF st2] obtain es2 where es2: "st_effects st2 = st_effects st1 @ es2"
    "staged_like st1 st2" "permits_only es2 staged" by auto
  have c1: "same_core st st1" using open_listeners_same [of st w "sn_apps sn" "[]"] st1 by simp
  have c2: "same_core st st2"
    using stage_permissions_same [of st1 w "sn_apps sn" "[]"] st2 same_core_trans [OF c1] by simp
  define last_st where "last_st = (if failure1 \<noteq> None then st1 else st2)"
  define done_paths where "done_paths = (if failure1 \<noteq> None then [] else staged)"
  have st': "st' = finish_apply w False done_paths opened last_st"
    using assms True st1 st2
    by (auto simp: apply_snapshot_def last_st_def done_paths_def Let_def split: option.splits)
  have core: "same_core st st'"
    unfolding st' last_st_def using c1 c2 same_core_trans [OF _ finish_apply_same] by simp
  obtain es3 where es3: "st_effects st' = st_effects last_st @ es3" "st_listeners st' = st_listeners last_st"
    "st_limits st' = st_limits last_st"
    "st_fatal st' = st_fatal last_st \<or> (\<exists>path \<in> set done_paths. \<not> w_finish w path)"
    "set es3 = (\<lambda>path. FinishPermissions path False) ` set done_paths \<union> (\<lambda>(_, l). CloseListener l) ` set opened"
    using finish_effects [of w done_paths opened last_st] unfolding st' by blast
  let ?es = "es1 @ (if failure1 \<noteq> None then [] else es2) @ es3"
  have "st_effects st' = st_effects st @ ?es"
    using es1(1) es2(1) es3(1) by (simp add: last_st_def)
  moreover have only: "SetPermissions path m \<notin> set es1" "FinishPermissions path True \<notin> set es1"
    "OpenListener l s \<notin> set es2" "FinishPermissions path True \<notin> set es2"
    "OpenListener l s \<notin> set es3" "SetPermissions path m \<notin> set es3" "FinishPermissions path True \<notin> set es3"
    for path m l s
    using opens_only_kinds [OF es1(3)] permits_only_kinds [OF es2(3)] by (auto simp: es3(5))
  have "CloseListener l \<in> set ?es" if "OpenListener l s \<in> set ?es" for l s
  proof -
    from that only have "OpenListener l s \<in> set es1" by (auto split: if_splits)
    with es1(3) have "l \<in> set (map snd opened) \<or> CloseListener l \<in> set es1" unfolding opens_only_def by blast
    then show ?thesis unfolding set_append es3(5) by force
  qed
  moreover have "FinishPermissions path False \<in> set ?es" if "SetPermissions path m \<in> set ?es" for path m
  proof -
    from that only have "failure1 = None" "SetPermissions path m \<in> set es2" by (auto split: if_splits)
    with es2(3) have "path \<in> set done_paths" by (auto simp: permits_only_def done_paths_def)
    then show ?thesis unfolding set_append es3(5) by blast
  qed
  moreover have "FinishPermissions path True \<notin> set ?es" for path using only by simp
  ultimately have "\<exists>es. st_effects st' = st_effects st @ es
      \<and> (\<forall>l s. OpenListener l s \<in> set es \<longrightarrow> CloseListener l \<in> set es)
      \<and> (\<forall>path m. SetPermissions path m \<in> set es \<longrightarrow> FinishPermissions path False \<in> set es)
      \<and> (\<forall>path. FinishPermissions path True \<notin> set es)" by blast
  then show ?thesis
    using core es1(2) es2(2) es3(2-4) by (auto simp: last_st_def staged_like_def)
qed

definition unix_app :: "go_string \<Rightarrow> app" where
  "unix_app path = demo_app\<lparr>app_listen := \<lparr>network = ''unix'', address = path\<rparr>\<rparr>"

definition unix_snapshot :: snapshot where
  "unix_snapshot = demo_snapshot\<lparr>sn_apps := [(''a'', unix_app ''/a''), (''b'', unix_app ''/b'')]\<rparr>"

definition strict_world :: world where
  "strict_world = demo_world\<lparr>w_chmod := (\<lambda>name. name \<noteq> ''b'')\<rparr>"

lemma rejected_configuration_witness:
  "snd (apply_snapshot strict_world unix_snapshot (empty_store [])) = Some (PermissionsFailed ''b'')
   \<and> st_services (fst (apply_snapshot strict_world unix_snapshot (empty_store []))) = []
   \<and> (\<exists>l s. OpenListener l s \<in> set (st_effects (fst (apply_snapshot strict_world unix_snapshot (empty_store [])))))"
proof -
  let ?r = "apply_snapshot strict_world unix_snapshot (empty_store [])"
  have "snd ?r = Some (PermissionsFailed ''b'') \<and> list_ex (\<lambda>e. e = OpenListener 1 \<lparr>network = ''unix'', address = ''/a''\<rparr>)
      (st_effects (fst ?r))"
    by code_simp
  moreover then have "?r = (fst ?r, Some (PermissionsFailed ''b''))" by (simp add: prod_eq_iff)
  then have "st_services (fst ?r) = st_services (empty_store [])"
    using rejected_configuration [of strict_world unix_snapshot "empty_store []" "fst ?r"] by (simp add: same_core_def)
  ultimately show ?thesis by (auto simp: empty_store_def list_ex_iff)
qed

subsection \<open>An accepted configuration\<close>

text \<open>The configuration of each service.\<close>

definition config_of :: "store \<Rightarrow> go_string \<Rightarrow> app option" where
  "config_of st name = map_option s_config (current_service st name)"

lemma config_of_same: "same_core st st' \<Longrightarrow> config_of st' = config_of st"
  by (rule ext) (simp add: config_of_def current_service_def same_core_def)

text \<open>A service survives retiring when its socket does not change.\<close>

definition survives :: "apps \<Rightarrow> store \<Rightarrow> go_string \<times> service_id \<Rightarrow> bool" where
  "survives apps st = (\<lambda>(name, s). \<exists>app. map_of apps name = Some app
     \<and> app_listen (s_config (st_servs st s)) = app_listen app)"

text \<open>Retiring one service: the table loses it or not, and only its workers are touched.\<close>

lemma retire_service_table:
  fixes apps :: apps
  assumes i: "inv st" and w: "world_ok w" and e: "(name, s) \<in> set (st_services st)"
  defines "st' \<equiv> retire_service w apps (name, s) st"
  shows "st_services st' = (if survives apps st (name, s) then st_services st else AList.delete name (st_services st))"
    and "s_config (st_servs st' t) = s_config (st_servs st t)"
    and "map_of apps name = Some (s_config (st_servs st s)) \<Longrightarrow> st' = st"
    and "q \<notin> set (s_workers (st_servs st s)) \<Longrightarrow> st_procs st' q = st_procs st q"
proof -
  have s: "s \<in> snd ` set (st_services st)" using e by force
  define st1 where "st1 = stopped_all w s st"
  have m1: "moves st st1" using stopped_all [OF i w s] by (simp add: st1_def)
  have sv1: "st_services st1 = st_services st" "s_config (st_servs st1 t) = s_config (st_servs st t)" for t
    using moves_stable [OF m1] by (simp_all add: stable_def)
  have "st_procs (fold (\<lambda>p. stop w p (w_clock w p)) ps x) q = st_procs x q" if "q \<notin> set ps" for ps x
    using that
  proof (induction ps arbitrary: x)
    case (Cons p ps)
    have "st_procs (stop w p (w_clock w p) x) q = st_procs x q"
      using confined.stop_frame [of p x w] Cons.prems by (simp add: confined_def)
    with Cons show ?case by simp
  qed simp
  then have p1: "st_procs st1 q = st_procs st q" if "q \<notin> set (s_workers (st_servs st s))"
    using that world_order [OF w] by (simp add: st1_def stopped_all_def)
  define st2 where "st2 = (case s_listener (st_servs st1 s) of None \<Rightarrow> st1 | Some l \<Rightarrow> close_listener l st1)"
  have c: "same_core st1 st2"
    unfolding st2_def by (auto split: option.split intro: close_listener_same same_core_refl)
  show keep: "map_of apps name = Some (s_config (st_servs st s)) \<Longrightarrow> st' = st"
    by (simp add: st'_def retire_service_def)
  have eq: "st' = (if survives apps st (name, s) then st1 else st2\<lparr>st_services := AList.delete name (st_services st2)\<rparr>)"
    if "map_of apps name \<noteq> Some (s_config (st_servs st s))"
    using that unfolding st'_def survives_def
    by (simp add: retire_service_def Let_def st1_def [unfolded stopped_all_def, symmetric] st2_def [symmetric]
        split: option.split)
  have same2: "st_services st2 = st_services st1" "st_servs st2 = st_servs st1" "st_procs st2 = st_procs st1"
    using c by (simp_all add: same_core_def)
  have "survives apps st (name, s)" if "map_of apps name = Some (s_config (st_servs st s))"
    using that by (simp add: survives_def)
  with keep eq sv1 same2 show
    "st_services st' = (if survives apps st (name, s) then st_services st else AList.delete name (st_services st))"
    by (cases "map_of apps name = Some (s_config (st_servs st s))") simp_all
  show "s_config (st_servs st' t) = s_config (st_servs st t)"
    using keep eq sv1 same2 by (cases "map_of apps name = Some (s_config (st_servs st s))") simp_all
  show "st_procs st' q = st_procs st q" if "q \<notin> set (s_workers (st_servs st s))"
    using keep eq p1 [OF that] same2 by (cases "map_of apps name = Some (s_config (st_servs st s))") simp_all
qed

lemma service_of_worker:
  "inv st \<Longrightarrow> (n, s) \<in> set (st_services st) \<Longrightarrow> q \<in> set (s_workers (st_servs st s)) \<Longrightarrow> p_service (st_procs st q) = s"
  using services_okD(3) [of st n s] by (auto simp: inv_def service_ok_def Let_def)

lemma retire_all_table:
  assumes "inv st" and w: "world_ok w" and "distinct es" and "set es \<subseteq> set (st_services st)"
  shows "set (st_services (fold (retire_service w apps) es st)) = {e \<in> set (st_services st). e \<notin> set es \<or> survives apps st e}
    \<and> (\<forall>t. s_config (st_servs (fold (retire_service w apps) es st) t) = s_config (st_servs st t))
    \<and> (\<forall>n s q. (n, s) \<in> set (st_services st) \<longrightarrow> map_of apps n = Some (s_config (st_servs st s)) \<longrightarrow>
        p_service (st_procs st q) = s \<longrightarrow> st_procs (fold (retire_service w apps) es st) q = st_procs st q)"
  using assms(1,3,4)
proof (induction es arbitrary: st)
  case (Cons e es)
  obtain name s where e: "e = (name, s)" by fastforce
  let ?st = "retire_service w apps e st" and ?fin = "fold (retire_service w apps) es (retire_service w apps e st)"
  have es: "(name, s) \<in> set (st_services st)" using Cons.prems(3) e by simp
  note t = retire_service_table [OF Cons.prems(1) w es, where apps = apps, folded e]
  have d: "distinct (map fst (st_services st))" by (rule inv_distinct [OF Cons.prems(1)])
  have del: "set (AList.delete name (st_services st)) = set (st_services st) - {(name, s)}"
    using es d by (auto simp: AList.delete_eq eq_key_imp_eq_value)
  have i: "inv ?st"
    using retire_service_retires [OF Cons.prems(1) w es, of apps] steps_inv Cons.prems(1) e by blast
  have table: "set (st_services ?st) = {x \<in> set (st_services st). x \<noteq> e \<or> survives apps st x}"
    using t(1) del es e by (auto split: if_splits)
  have sub: "set es \<subseteq> set (st_services ?st)" using Cons.prems(2,3) table by auto
  have sv: "survives apps ?st x = survives apps st x" for x
    using t(2) by (simp add: survives_def split: prod.split)
  note IH = Cons.IH [OF i _ sub]
  have "st_procs ?fin q = st_procs st q"
    if "(n, r) \<in> set (st_services st)" "map_of apps n = Some (s_config (st_servs st r))" "p_service (st_procs st q) = r" for n r q
  proof -
    have "survives apps st (n, r)" using that(2) by (simp add: survives_def)
    then have "(n, r) \<in> set (st_services ?st)" using table that(1) by blast
    moreover have q: "st_procs ?st q = st_procs st q"
    proof (cases "s = r")
      case True
      then have "n = name" using that(1) es Cons.prems(1) service_name_unique by (auto simp: inv_def)
      then show ?thesis using t(3) that(2) True by simp
    next
      case False
      then show ?thesis using t(4) that(3) service_of_worker [OF Cons.prems(1) es] by auto
    qed
    ultimately show ?thesis using IH Cons.prems(2) that(2,3) t(2) by simp
  qed
  with IH table sv t(2) Cons.prems(2) show ?case by auto
qed auto

text \<open>Installing one application makes its configuration the one that runs.\<close>

lemma install_service_config:
  fixes w :: world and plans :: "(go_string \<times> schedule) list" and opened :: "(go_string \<times> listener_id) list"
    and name :: go_string and app :: app
  assumes "inv st"
  defines "st' \<equiv> install_service w plans opened (name, app) st"
  shows "config_of st' n = (if n = name then Some app else config_of st n)"
    and "n \<noteq> name \<or> config_of st n = Some app \<Longrightarrow> map_of (st_services st') n = map_of (st_services st) n"
    and "(\<And>s. map_of (st_services st) name = Some s \<Longrightarrow> s_config (st_servs st s) \<noteq> app \<Longrightarrow> q \<notin> set (s_workers (st_servs st s)))
      \<Longrightarrow> st_procs st' q = st_procs st q"
    and "(m, t) \<in> set (st_services st) \<Longrightarrow> s_config (st_servs st' t) = s_config (st_servs st t)"
proof -
  consider (same) "st' = st" "config_of st name = Some app"
    | (new) sv where "same_core (installed name sv st) st'" "s_config sv = app" "config_of st name \<noteq> Some app"
        "s_workers sv = (case map_of (st_services st) name of None \<Rightarrow> [] | Some s \<Rightarrow> s_workers (st_servs st s))"
  proof (cases "config_of st name = Some app")
    case True
    then show thesis using same by (simp add: st'_def install_service_def config_of_def)
  next
    case False
    then have "map_option s_config (current_service st name) \<noteq> Some app" by (simp add: config_of_def)
    from install_service_installed [OF this, of w plans opened] show thesis
      using new False unfolding st'_def by metis
  qed
  note cases = this
  have fresh: "t \<noteq> st_next_serv st" if "(m, t) \<in> set (st_services st)" for m t
    using that assms(1) services_okD(3) by (fastforce simp: inv_def service_ok_def Let_def)
  have map_fresh: "map_of (st_services st) m = Some t \<Longrightarrow> t \<noteq> st_next_serv st" for m t
    using fresh map_of_SomeD by metis
  show "config_of st' n = (if n = name then Some app else config_of st n)"
    using cases
  proof cases
    case (new sv)
    have "config_of (installed name sv st) n = (if n = name then Some app else config_of st n)"
      using new(2) map_fresh [of n]
      by (cases "map_of (st_services st) n") (auto simp: config_of_def current_service_def update_conv')
    then show ?thesis using config_of_same [OF new(1)] by simp
  qed auto
  show "map_of (st_services st') n = map_of (st_services st) n" if "n \<noteq> name \<or> config_of st n = Some app"
    using cases
  proof cases
    case (new sv)
    then have "st_services st' = AList.update name (st_next_serv st) (st_services st)" by (simp add: same_core_def)
    then show ?thesis using that new(3) by (auto simp: update_conv')
  qed auto
  show "st_procs st' q = st_procs st q"
    if "\<And>s. map_of (st_services st) name = Some s \<Longrightarrow> s_config (st_servs st s) \<noteq> app \<Longrightarrow> q \<notin> set (s_workers (st_servs st s))"
    using cases
  proof cases
    case (new sv)
    then have "q \<notin> set (s_workers sv)"
      using that by (auto simp: config_of_def current_service_def split: option.splits)
    then show ?thesis using new(1) by (simp add: same_core_def installed_procs)
  qed auto
  show "s_config (st_servs st' t) = s_config (st_servs st t)" if "(m, t) \<in> set (st_services st)"
    using cases
  proof cases
    case (new sv)
    then show ?thesis using fresh [OF that] by (simp add: same_core_def)
  qed auto
qed

lemma install_all_config:
  fixes w :: world and plans :: "(go_string \<times> schedule) list" and opened :: "(go_string \<times> listener_id) list"
  assumes "inv st" and "distinct (map fst apps)" and "distinct (map fst entries)" and "set entries \<subseteq> set apps"
    and "\<forall>e \<in> set (st_services st). settled apps st e"
  defines "st' \<equiv> fold (install_service w plans opened) entries st"
  shows "config_of st' n = (case map_of entries n of None \<Rightarrow> config_of st n | Some app \<Rightarrow> Some app)"
    and "map_of (st_services st) n = Some s \<Longrightarrow> map_of apps n = Some (s_config (st_servs st s)) \<Longrightarrow>
      map_of (st_services st') n = Some s \<and> (p_service (st_procs st q) = s \<longrightarrow> st_procs st' q = st_procs st q)"
proof -
  have "config_of (fold (install_service w plans opened) entries st) n =
        (case map_of entries n of None \<Rightarrow> config_of st n | Some app \<Rightarrow> Some app)
    \<and> (map_of (st_services st) n = Some s \<longrightarrow> map_of apps n = Some (s_config (st_servs st s)) \<longrightarrow>
        map_of (st_services (fold (install_service w plans opened) entries st)) n = Some s
        \<and> (p_service (st_procs st q) = s \<longrightarrow>
            st_procs (fold (install_service w plans opened) entries st) q = st_procs st q))"
    using assms(1,3-5)
  proof (induction entries arbitrary: st)
    case (Cons e entries)
    obtain name app where e: "e = (name, app)" by fastforce
    let ?st = "install_service w plans opened e st" and ?fin = "fold (install_service w plans opened) entries (install_service w plans opened e st)"
    note c = install_service_config [OF Cons.prems(1), where w = w and plans = plans and opened = opened and name = name and app = app, folded e]
    have app: "map_of apps name = Some app" using Cons.prems(3) assms(2) e by simp
    from install_service_steps [OF Cons.prems(1) app Cons.prems(4), of w plans opened]
    have r: "steps st ?st" "\<forall>x \<in> set (st_services ?st). settled apps ?st x" by (simp_all add: e)
    have IH: "config_of ?fin n = (case map_of entries n of None \<Rightarrow> config_of ?st n | Some app \<Rightarrow> Some app)
      \<and> (map_of (st_services ?st) n = Some s \<longrightarrow> map_of apps n = Some (s_config (st_servs ?st s)) \<longrightarrow>
        map_of (st_services ?fin) n = Some s \<and> (p_service (st_procs ?st q) = s \<longrightarrow> st_procs ?fin q = st_procs ?st q))"
      using Cons.prems(2,3) by (intro Cons.IH steps_inv [OF r(1) Cons.prems(1)] r(2)) auto
    have "name \<notin> fst ` set entries" using Cons.prems(2) e by simp
    then have "map_of entries name = None" by (simp add: map_of_eq_None_iff)
    then have config: "config_of ?fin n = (case map_of (e # entries) n of None \<Rightarrow> config_of st n | Some app \<Rightarrow> Some app)"
      using IH c(1) [of n] e by (auto split: option.split)
    have "map_of (st_services ?fin) n = Some s \<and> (p_service (st_procs st q) = s \<longrightarrow> st_procs ?fin q = st_procs st q)"
      if n: "map_of (st_services st) n = Some s" and cfg: "map_of apps n = Some (s_config (st_servs st s))"
    proof -
      have "n \<noteq> name \<or> config_of st n = Some app"
        using n cfg app by (auto simp: config_of_def current_service_def)
      then have n1: "map_of (st_services ?st) n = Some s" using c(2) n by simp
      have q1: "st_procs ?st q = st_procs st q" if "p_service (st_procs st q) = s"
      proof (rule c(3))
        fix t assume t: "map_of (st_services st) name = Some t" "s_config (st_servs st t) \<noteq> app"
        then have "n \<noteq> name" using n cfg app by auto
        then have "t \<noteq> s"
          using t(1) n map_of_SomeD Cons.prems(1) service_name_unique unfolding inv_def by metis
        then show "q \<notin> set (s_workers (st_servs st t))"
          using service_of_worker [OF Cons.prems(1) map_of_SomeD [OF t(1)]] that by auto
      qed
      have "s_config (st_servs ?st s) = s_config (st_servs st s)" by (rule c(4) [OF map_of_SomeD [OF n]])
      with IH n1 cfg q1 show ?thesis by auto
    qed
    with config show ?case unfolding fold_Cons comp_apply by blast
  qed simp
  then show "config_of st' n = (case map_of entries n of None \<Rightarrow> config_of st n | Some app \<Rightarrow> Some app)"
    and "map_of (st_services st) n = Some s \<Longrightarrow> map_of apps n = Some (s_config (st_servs st s)) \<Longrightarrow>
      map_of (st_services st') n = Some s \<and> (p_service (st_procs st q) = s \<longrightarrow> st_procs st' q = st_procs st q)"
    unfolding st'_def by blast+
qed

lemma apply_installs:
  assumes i: "inv st" and w: "world_ok w" and d: "distinct (map fst (sn_apps sn))"
    and a: "apply_snapshot w sn st = (st', None)"
  shows "map_option s_config (current_service st' name) = map_of (sn_apps sn) name
    \<and> (map_of (st_services st) name = Some s \<and> map_of (sn_apps sn) name = Some (s_config (st_servs st s)) \<longrightarrow>
        map_of (st_services st') name = Some s
        \<and> (p_service (st_procs st p) = s \<longrightarrow> st_procs st' p = st_procs st p))"
proof -
  obtain plans where cg: "sn_cgroup sn = st_cgroup st" and plans: "plan_schedules (sn_apps sn) = Inr plans"
    using a by (auto simp: apply_snapshot_def split: if_splits sum.splits)
  obtain st1 failure1 opened where st1: "open_listeners w (sn_apps sn) st [] = (st1, failure1, opened)"
    by (metis prod_cases3)
  obtain st2 failure2 staged where st2: "stage_permissions w (sn_apps sn) st1 [] = (st2, failure2, staged)"
    by (metis prod_cases3)
  have c1: "same_core st st1" using open_listeners_same [of st w "sn_apps sn" "[]"] st1 by simp
  have c2: "same_core st st2"
    using stage_permissions_same [of st1 w "sn_apps sn" "[]"] st2 same_core_trans [OF c1] by simp
  have i2: "inv st2" using steps_inv [OF same_core_steps [OF c2] i] .
  have eq2: "st_services st2 = st_services st" "st_servs st2 = st_servs st" "st_procs st2 = st_procs st"
    using c2 by (simp_all add: same_core_def)
  define st3 where "st3 = fold (retire_service w (sn_apps sn)) (st_services st2) st2"
  define st4 where "st4 = fold (install_service w plans opened) (sn_apps sn) st3"
  have "st' = finish_apply w True staged opened (st4\<lparr>st_limits := sn_resources sn\<rparr>)"
    using a cg plans st1 st2 by (auto simp: apply_snapshot_def Let_def st3_def st4_def split: option.splits)
  then have c5: "same_core st4 st'" using same_core_trans [OF same_core_limits finish_apply_same] by simp
  have dist: "distinct (st_services st2)" using inv_distinct [OF i2] by (simp add: distinct_map)
  have r3: "steps st2 st3" "\<forall>e \<in> set (st_services st3). settled (sn_apps sn) st3 e"
    unfolding st3_def using retire_all [OF i2 w dist subset_refl, of "sn_apps sn"] by simp_all
  have i3: "inv st3" by (rule steps_inv [OF r3(1) i2])
  note t3 = retire_all_table [OF i2 w dist subset_refl, of "sn_apps sn", folded st3_def]
  note c4 = install_all_config [OF i3 d d subset_refl r3(2), where w = w and plans = plans and opened = opened, folded st4_def]
  have "config_of st3 name = None" if none: "map_of (sn_apps sn) name = None"
  proof (rule ccontr)
    assume "config_of st3 name \<noteq> None"
    then obtain t where "map_of (st_services st3) name = Some t" by (auto simp: config_of_def current_service_def)
    from map_of_SomeD [OF this] t3 have "survives (sn_apps sn) st2 (name, t)" by auto
    with none show False by (simp add: survives_def)
  qed
  then have "config_of st4 name = map_of (sn_apps sn) name" using c4(1) [where n = name] by (simp split: option.splits)
  then have "map_option s_config (current_service st' name) = map_of (sn_apps sn) name"
    using fun_cong [OF config_of_same [OF c5], of name] by (simp add: config_of_def)
  moreover have "map_of (st_services st') name = Some s \<and> (p_service (st_procs st p) = s \<longrightarrow> st_procs st' p = st_procs st p)"
    if n: "map_of (st_services st) name = Some s" and cfg: "map_of (sn_apps sn) name = Some (s_config (st_servs st s))"
  proof -
    have mem: "(name, s) \<in> set (st_services st2)" using map_of_SomeD [OF n] eq2 by simp
    moreover have "survives (sn_apps sn) st2 (name, s)" using cfg eq2 by (simp add: survives_def)
    ultimately have "(name, s) \<in> set (st_services st3)" using t3 by blast
    then have n3: "map_of (st_services st3) name = Some s" using inv_distinct [OF i3] by simp
    have cfg3: "map_of (sn_apps sn) name = Some (s_config (st_servs st3 s))" using t3 cfg eq2 by simp
    have p3: "st_procs st3 p = st_procs st p" if "p_service (st_procs st p) = s"
      using t3 mem cfg that by (auto simp: eq2)
    from c4(2) [OF n3 cfg3, where q = p] p3 show ?thesis using c5 by (auto simp: same_core_def)
  qed
  ultimately show ?thesis by blast
qed

text \<open>
  C2: After a configuration is accepted the services are exactly its applications, each with its
  configuration; a service whose application did not change is the same service, and none of its
  workers is touched.
\<close>

theorem accepted_configuration:
  assumes i: "inv st" and w: "world_ok w" and d: "distinct (map fst (sn_apps sn))"
    and a: "apply_snapshot w sn st = (st', None)"
  shows "map_option s_config (current_service st' name) = map_of (sn_apps sn) name
    \<and> (map_of (st_services st) name = Some s \<and> map_of (sn_apps sn) name = Some (s_config (st_servs st s)) \<longrightarrow>
        map_of (st_services st') name = Some s
        \<and> (p_service (st_procs st p) = s \<longrightarrow> st_procs st' p = st_procs st p))"
  by (rule apply_installs [OF i w d a])

lemma accepted_configuration_witness:
  "map_option s_config (current_service (su_store demo_start) ''web'') = Some demo_app
   \<and> map_option s_config (current_service (su_store demo_start) ''db'') = None"
proof -
  have "world_ok demo_world" using demo_world_ok [of 1] by (simp add: moment_ok_def)
  from accepted_configuration [OF inv_empty this _ demo_start_store, of _ 0 0] show ?thesis
    by (simp add: demo_snapshot_def)
qed

end
