(* ===== verification/Activation.thy ===== *)
theory Activation
  imports Supervision
begin

text \<open>
  Which services run and when: the activation of demanded services and of everything they depend
  on, and the times and limits of scheduled executions.
\<close>

subsection \<open>Activation\<close>

lemma map_of_apps: "map_of (apps_of st) n = map_option (\<lambda>s. s_config (st_servs st s)) (map_of (st_services st) n)"
proof -
  have "map_of (map (\<lambda>(name, s). (name, f s)) xs) n = map_option f (map_of xs n)" for f :: "service_id \<Rightarrow> app" and xs
    by (induction xs) auto
  then show ?thesis by (simp add: apps_of_def)
qed

lemma known_apps: "known (apps_of st) n \<longleftrightarrow> map_of (st_services st) n \<noteq> None"
  by (simp add: known_map_of map_of_apps)

lemma depends_apps:
  "(n, d) \<in> depends (apps_of st) \<longleftrightarrow>
     (\<exists>s. map_of (st_services st) n = Some s \<and> d \<in> fst ` set (dependencies (s_config (st_servs st s))))"
  by (auto simp: depends_def map_of_apps)

text \<open>
  What a call does to the marks: it wants every known name of \<open>from\<close>, only names that can be
  reached from there, and requires exactly the dependencies of the newly wanted ones (and \<open>from\<close>
  itself, when those are the dependencies of a name just wanted).
\<close>

definition marked :: "store \<Rightarrow> go_string set \<Rightarrow> go_string set \<Rightarrow> go_string list \<times> go_string list
    \<Rightarrow> go_string list \<times> go_string list \<Rightarrow> bool" where
  "marked st from extra marks marks' \<longleftrightarrow>
     set (fst marks) \<subseteq> set (fst marks')
     \<and> set (fst marks') \<subseteq> set (fst marks) \<union> {n. known (apps_of st) n \<and> (\<exists>m \<in> from. (m, n) \<in> (depends (apps_of st))\<^sup>*)}
     \<and> (\<forall>m \<in> from. known (apps_of st) m \<longrightarrow> m \<in> set (fst marks'))
     \<and> (\<forall>n \<in> set (fst marks') - set (fst marks). \<forall>d. (n, d) \<in> depends (apps_of st) \<longrightarrow>
          known (apps_of st) d \<longrightarrow> d \<in> set (fst marks'))
     \<and> set (snd marks') = set (snd marks) \<union> extra
          \<union> {d. \<exists>n \<in> set (fst marks') - set (fst marks). (n, d) \<in> depends (apps_of st)}"

lemma marked_refl: "\<forall>m \<in> from. known (apps_of st) m \<longrightarrow> m \<in> set (fst marks) \<Longrightarrow> marked st from {} marks marks"
  by (auto simp: marked_def)

lemma markedD:
  assumes "marked st from extra marks marks'"
  shows "set (fst marks) \<subseteq> set (fst marks')"
    and "set (fst marks') \<subseteq> set (fst marks) \<union> {n. known (apps_of st) n \<and> (\<exists>m \<in> from. (m, n) \<in> (depends (apps_of st))\<^sup>*)}"
    and "m \<in> from \<Longrightarrow> known (apps_of st) m \<Longrightarrow> m \<in> set (fst marks')"
    and "n \<in> set (fst marks') \<Longrightarrow> n \<notin> set (fst marks) \<Longrightarrow> (n, d) \<in> depends (apps_of st) \<Longrightarrow> known (apps_of st) d
      \<Longrightarrow> d \<in> set (fst marks')"
    and "set (snd marks') = set (snd marks) \<union> extra
          \<union> {d. \<exists>n \<in> set (fst marks') - set (fst marks). (n, d) \<in> depends (apps_of st)}"
  using assms unfolding marked_def by (blast | simp)+

lemma marked_then:
  assumes "marked st from extra marks marks1" and "marked st from' extra' marks1 marks2"
  shows "marked st (from \<union> from') (extra \<union> extra') marks marks2"
  unfolding marked_def
proof (intro conjI ballI allI impI)
  note a = markedD [OF assms(1)] and b = markedD [OF assms(2)]
  show "set (fst marks) \<subseteq> set (fst marks2)" using a(1) b(1) by (rule subset_trans)
  show "set (fst marks2) \<subseteq> set (fst marks)
      \<union> {n. known (apps_of st) n \<and> (\<exists>m \<in> from \<union> from'. (m, n) \<in> (depends (apps_of st))\<^sup>*)}"
    using a(2) b(2) by blast
  show "m \<in> set (fst marks2)" if "m \<in> from \<union> from'" "known (apps_of st) m" for m
    using that a(3) b(1,3) by blast
  show "d \<in> set (fst marks2)" if "n \<in> set (fst marks2) - set (fst marks)"
    "(n, d) \<in> depends (apps_of st)" "known (apps_of st) d" for n d
    using that a(4) [of n d] b(4) [of n d] b(1) by blast
  show "set (snd marks2) = set (snd marks) \<union> (extra \<union> extra')
      \<union> {d. \<exists>n \<in> set (fst marks2) - set (fst marks). (n, d) \<in> depends (apps_of st)}"
    unfolding b(5) a(5) using a(1) b(1) by blast
qed

definition unmarked :: "store \<Rightarrow> go_string list \<Rightarrow> nat" where
  "unmarked st wanted = card ({n. known (apps_of st) n} - set wanted)"

lemma unmarked_mono: "set a \<subseteq> set b \<Longrightarrow> unmarked st b \<le> unmarked st a"
  unfolding unmarked_def by (intro card_mono finite_Diff finite_known) auto

lemma activate_marked:
  "unmarked st (fst marks) \<le> fuel \<Longrightarrow> marked st {name} {} marks (activate fuel st name marks)"
  "unmarked st (fst marks) \<le> fuel \<Longrightarrow> marked st (set ds) (set ds) marks (activate_all fuel st ds marks)"
proof (induction fuel st name marks and fuel st ds marks rule: activate_activate_all.induct)
  case (1 st name marks)
  then have "{n. known (apps_of st) n} - set (fst marks) = {}"
    by (simp add: unmarked_def finite_known)
  then show ?case by (auto intro: marked_refl)
next
  case (2 fuel st name marks)
  show ?case
  proof (cases "name \<in> set (fst marks) \<or> map_of (st_services st) name = None")
    case True
    then show ?thesis by (auto simp: known_apps intro!: marked_refl)
  next
    case False
    then obtain s where new: "name \<notin> set (fst marks)" and s: "map_of (st_services st) name = Some s" by auto
    let ?ds = "map fst (dependencies (s_config (st_servs st s)))"
    let ?marks = "(name # fst marks, snd marks)"
    have known: "known (apps_of st) name" using s by (simp add: known_apps)
    have edges: "(name, d) \<in> depends (apps_of st) \<longleftrightarrow> d \<in> set ?ds" for d using s by (simp add: depends_apps)
    have "{n. known (apps_of st) n} - set (fst ?marks) = ({n. known (apps_of st) n} - set (fst marks)) - {name}"
      by auto
    moreover have "name \<in> {n. known (apps_of st) n} - set (fst marks)" using known new by simp
    ultimately have "Suc (unmarked st (fst ?marks)) = unmarked st (fst marks)"
      unfolding unmarked_def by (metis card_Suc_Diff1 finite_Diff finite_known)
    then have "unmarked st (fst ?marks) \<le> fuel" using 2(2) by simp
    then have all: "marked st (set ?ds) (set ?ds) ?marks (activate_all fuel st ?ds ?marks)"
      using 2(1) new s by simp
    define fin where "fin = activate_all fuel st ?ds ?marks"
    note all = all [folded fin_def]
    have "activate (Suc fuel) st name marks = fin" using new s by (simp add: fin_def)
    moreover have "marked st {name} {} marks fin"
    proof -
      have reach: "(name, n) \<in> (depends (apps_of st))\<^sup>*" if "d \<in> set ?ds" "(d, n) \<in> (depends (apps_of st))\<^sup>*" for d n
        using that edges by (meson converse_rtrancl_into_rtrancl)
      note a = markedD [OF all, unfolded fst_conv snd_conv]
      have name: "name \<in> set (fst fin)" using a(1) by simp
      then have w: "set (fst fin) - set (fst marks) = insert name (set (fst fin) - set (name # fst marks))"
        using new by auto
      show ?thesis
        unfolding marked_def
      proof (intro conjI ballI allI impI)
        show "set (fst marks) \<subseteq> set (fst fin)" using a(1) by simp
        show "set (fst fin) \<subseteq> set (fst marks) \<union> {n. known (apps_of st) n \<and> (\<exists>m \<in> {name}. (m, n) \<in> (depends (apps_of st))\<^sup>*)}"
        proof
          fix n assume "n \<in> set (fst fin)"
          with a(2) have "n = name \<or> n \<in> set (fst marks)
              \<or> known (apps_of st) n \<and> (\<exists>m \<in> set ?ds. (m, n) \<in> (depends (apps_of st))\<^sup>*)"
            unfolding list.set by blast
          with known reach show "n \<in> set (fst marks)
              \<union> {n. known (apps_of st) n \<and> (\<exists>m \<in> {name}. (m, n) \<in> (depends (apps_of st))\<^sup>*)}" by blast
        qed
        show "m \<in> set (fst fin)" if "m \<in> {name}" for m using that name by simp
        show "d \<in> set (fst fin)" if "n \<in> set (fst fin) - set (fst marks)" "(n, d) \<in> depends (apps_of st)"
          "known (apps_of st) d" for n d
        proof (cases "n = name")
          case True
          with that(2) edges have "d \<in> set ?ds" by simp
          then show ?thesis using that(3) by (rule a(3))
        next
          case False
          then have "n \<notin> set (name # fst marks)" using that(1) by simp
          then show ?thesis using that by (intro a(4) [of n d]) simp_all
        qed
        have "{d. \<exists>n \<in> set (fst fin) - set (fst marks). (n, d) \<in> depends (apps_of st)}
            = set ?ds \<union> {d. \<exists>n \<in> set (fst fin) - set (name # fst marks). (n, d) \<in> depends (apps_of st)}"
          unfolding w using edges by blast
        then show "set (snd fin) = set (snd marks) \<union> {}
            \<union> {d. \<exists>n \<in> set (fst fin) - set (fst marks). (n, d) \<in> depends (apps_of st)}"
          using a(5) by blast
      qed
    qed
    ultimately show ?thesis by simp
  qed
next
  case (3 fuel st marks)
  then show ?case by (simp add: marked_refl)
next
  case (4 fuel st d rest marks)
  let ?marks = "(fst marks, set_insert d (snd marks))"
  let ?mid = "activate fuel st d ?marks"
  have m1: "marked st {d} {} ?marks ?mid" using 4 by simp
  then have "set (fst marks) \<subseteq> set (fst ?mid)" by (simp add: marked_def)
  then have "unmarked st (fst ?mid) \<le> fuel" using unmarked_mono 4(3) le_trans by blast
  then have m2: "marked st (set rest) (set rest) ?mid (activate_all fuel st rest ?mid)" using 4(2) by simp
  have m0: "marked st {} {d} marks ?marks" by (auto simp: marked_def)
  from marked_then [OF marked_then [OF m0 m1] m2] show ?case by simp
qed

text \<open>
  Activating some services wants exactly the services they reach in the dependency graph, and
  requires exactly the dependencies of those.
\<close>

lemma activation_marks:
  fixes st :: store and names :: "go_string list"
  defines "marks \<equiv> fold (activate (Suc (length (st_services st))) st) names ([], [])"
  shows "set (fst marks) = {n. known (apps_of st) n \<and> (\<exists>m \<in> set names. (m, n) \<in> (depends (apps_of st))\<^sup>*)}
    \<and> set (snd marks) = {d. \<exists>n \<in> set (fst marks). (n, d) \<in> depends (apps_of st)}"
proof -
  let ?fuel = "Suc (length (st_services st))"
  have fuel: "unmarked st wanted \<le> ?fuel" for wanted
  proof -
    have "unmarked st wanted \<le> card {n. known (apps_of st) n}"
      unfolding unmarked_def by (intro card_mono finite_known) auto
    also have "\<dots> \<le> length (apps_of st)"
      unfolding known_def using card_length [of "map fst (apps_of st)"] by simp
    finally show ?thesis by (simp add: apps_of_def)
  qed
  have "marked st (set names) {} ms (fold (activate ?fuel st) names ms)" for ms
  proof (induction names arbitrary: ms)
    case (Cons name names)
    from marked_then [OF activate_marked(1) [OF fuel] Cons.IH] show ?case by simp
  qed (simp add: marked_refl)
  then have "marked st (set names) {} ([], []) marks" by (simp add: marks_def)
  note a = markedD [OF this]
  have closed: "n \<in> set (fst marks)" if "m \<in> set names" "(m, n) \<in> (depends (apps_of st))\<^sup>*" "known (apps_of st) n" for m n
    using that(2,1,3)
  proof (induction rule: rtrancl_induct)
    case (step b c)
    then have "b \<in> set (fst marks)" using depends_known by blast
    with step.hyps(2) step.prems(2) show ?case by (intro a(4) [of b c]) simp_all
  qed (use a(3) in blast)
  show ?thesis
  proof
    show "set (fst marks) = {n. known (apps_of st) n \<and> (\<exists>m \<in> set names. (m, n) \<in> (depends (apps_of st))\<^sup>*)}"
      using a(2) closed by auto
    show "set (snd marks) = {d. \<exists>n \<in> set (fst marks). (n, d) \<in> depends (apps_of st)}" using a(5) by simp
  qed
qed

text \<open>The loop of the tick, which checks the schedules between the activations.\<close>

lemma activate_stable:
  "stable st st' \<Longrightarrow> activate fuel st' name marks = activate fuel st name marks"
  "stable st st' \<Longrightarrow> activate_all fuel st' ds marks = activate_all fuel st ds marks"
proof (induction fuel st name marks and fuel st ds marks rule: activate_activate_all.induct)
  case (2 fuel st name marks)
  then show ?case by (simp add: stable_def split: option.split)
qed simp_all

lemma schedule_due_stable: "stable st (schedule_due w s now st)"
  by (simp add: schedule_due_def Let_def stable_def)

lemma schedule_due_others: "t \<noteq> s \<Longrightarrow> st_servs (schedule_due w s now st) t = st_servs st t"
  by (simp add: schedule_due_def Let_def)

text \<open>The store after the turn of one service.\<close>

definition checked :: "world \<Rightarrow> time \<Rightarrow> service_id \<Rightarrow> store \<Rightarrow> store" where
  "checked w now s st = (if app_schedule (s_config (st_servs st s)) \<noteq> [] then schedule_due w s now st else st)"

lemma activate_service_checked:
  "activate_service w now (m, s) (st, marks) = (checked w now s st,
     if demanded (st_servs (checked w now s st) s)
     then activate (Suc (length (st_services (checked w now s st)))) (checked w now s st) m marks else marks)"
  by (simp add: activate_service_def checked_def Let_def)

lemma checked_stable: "stable st (checked w now s st)"
  using schedule_due_stable stable_refl by (simp add: checked_def)

lemma checked_others: "t \<noteq> s \<Longrightarrow> st_servs (checked w now s st) t = st_servs st t"
  by (simp add: checked_def schedule_due_others)

lemma activate_services:
  assumes "stable st x" and "distinct (map snd es)" and "fold (activate_service w now) es (x, marks) = (x', marks')"
  shows "stable st x' \<and> (\<forall>t. t \<notin> snd ` set es \<longrightarrow> st_servs x' t = st_servs x t)
    \<and> marks' = fold (activate (Suc (length (st_services st))) st)
        (map fst (filter (\<lambda>(m, s). demanded (st_servs x' s)) es)) marks"
  using assms
proof (induction es arbitrary: x marks)
  case (Cons e es)
  obtain m s where e: "e = (m, s)" by fastforce
  define y where "y = checked w now s x"
  define marks1 where "marks1 = (if demanded (st_servs y s) then activate (Suc (length (st_services st))) st m marks else marks)"
  have st: "stable st y" using Cons.prems(1) checked_stable stable_trans by (auto simp: y_def)
  have "st_services y = st_services st" using st by (simp add: stable_def)
  then have "activate (Suc (length (st_services y))) y m marks = activate (Suc (length (st_services st))) st m marks"
    using activate_stable(1) [OF st] by (simp only:)
  then have "activate_service w now e (x, marks) = (y, marks1)"
    by (simp add: e activate_service_checked y_def marks1_def)
  then have rest: "fold (activate_service w now) es (y, marks1) = (x', marks')" using Cons.prems(3) by simp
  note IH = Cons.IH [OF st _ rest]
  have "s \<notin> snd ` set es" using Cons.prems(2) e by simp
  then have "st_servs x' s = st_servs y s" using IH Cons.prems(2) by simp
  moreover have "st_servs x' t = st_servs x t" if "t \<notin> snd ` set (e # es)" for t
    using that IH Cons.prems(2) checked_others [of t s w now x] by (simp add: e y_def)
  ultimately show ?case using IH Cons.prems(2) by (simp add: e marks1_def)
qed simp

text \<open>
  C5: A tick wants exactly the demanded services and all they depend on, directly or not, and
  requires exactly what a wanted service depends on; the recursion that finds them always ends.
\<close>

theorem tick_activation:
  assumes i: "inv st" and run: "fold (activate_service w now) (st_services st) (st, [], []) = (st', wanted, required)"
  shows "set wanted = {n. known (apps_of st) n \<and> (\<exists>m s. (m, s) \<in> set (st_services st)
      \<and> demanded (st_servs st' s) \<and> (m, n) \<in> (depends (apps_of st))\<^sup>*)}
    \<and> set required = {d. \<exists>n \<in> set wanted. (n, d) \<in> depends (apps_of st)}"
proof -
  have "distinct (map snd (st_services st))"
    unfolding distinct_map
  proof
    show "distinct (st_services st)" using inv_distinct [OF i] by (simp add: distinct_map)
    show "inj_on snd (set (st_services st))"
      using i service_name_unique unfolding inv_def by (fastforce simp: inj_on_def)
  qed
  note a = activate_services [OF stable_refl this run]
  define names where "names = map fst (filter (\<lambda>(m, s). demanded (st_servs st' s)) (st_services st))"
  have names: "m \<in> set names \<longleftrightarrow> (\<exists>s. (m, s) \<in> set (st_services st) \<and> demanded (st_servs st' s))" for m
    by (force simp: names_def)
  have eq: "fold (activate (Suc (length (st_services st))) st) names ([], []) = (wanted, required)"
    using a by (simp add: names_def)
  from activation_marks [where st = st and names = names, unfolded eq fst_conv snd_conv] show ?thesis
    unfolding Bex_def names by blast
qed

definition pair_snapshot :: snapshot where
  "pair_snapshot = demo_snapshot\<lparr>sn_apps :=
     [(''db'', demo_app\<lparr>app_startup := False\<rparr>), (''log'', demo_app\<lparr>app_startup := False\<rparr>),
      (''web'', demo_app\<lparr>app_requires := [''db'']\<rparr>)]\<rparr>"

definition pair_store :: store where
  "pair_store = fst (apply_snapshot demo_world pair_snapshot (empty_store []))"

lemma pair_inv: "inv pair_store"
proof -
  have "world_ok demo_world" using demo_world_ok [of 1] by (simp add: moment_ok_def)
  from apply_steps [OF inv_empty this, of pair_snapshot "[]"] show ?thesis
    unfolding pair_store_def using steps_inv inv_empty by (simp add: pair_snapshot_def)
qed

lemma tick_activation_witness:
  "\<exists>st'. fold (activate_service demo_world 5000) (st_services pair_store) (pair_store, [], []) = (st', [''db'', ''web''], [''db''])
     \<and> (''db'' :: go_string) \<in> {n. known (apps_of pair_store) n \<and> (\<exists>m s. (m, s) \<in> set (st_services pair_store)
      \<and> demanded (st_servs st' s) \<and> (m, n) \<in> (depends (apps_of pair_store))\<^sup>*)}"
proof -
  have "snd (fold (activate_service demo_world 5000) (st_services pair_store) (pair_store, [], [])) = ([''db'', ''web''], [''db''])"
    by code_simp
  then obtain st' where r: "fold (activate_service demo_world 5000) (st_services pair_store) (pair_store, [], [])
      = (st', [''db'', ''web''], [''db''])" by (metis prod.collapse)
  have "(''db'' :: go_string) \<in> set [''db'', ''web'']" by simp
  with r show ?thesis unfolding conjunct1 [OF tick_activation [OF pair_inv r]] by blast
qed

subsection \<open>Scheduled executions\<close>

text \<open>
  C22: An interval that is due is next due at the first later moment of its original cadence,
  whatever ticks were missed, and an execution is scheduled exactly when none is waiting and fewer
  than the limit are there, those that still drain included.
\<close>

theorem interval_cadence:
  fixes w :: world
  assumes "s_next_run (st_servs st s) \<noteq> 0" and "s_next_run (st_servs st s) \<le> now"
    and "0 < interval (s_schedule (st_servs st s))" and "now - s_next_run (st_servs st s) < 2 ^ 63"
  defines "service \<equiv> st_servs st s" and "service' \<equiv> st_servs (schedule_due w s now st) s"
  shows "now < s_next_run service' \<and> s_next_run service' \<le> now + interval (s_schedule service)
    \<and> (s_next_run service' - s_next_run service) mod interval (s_schedule service) = 0
    \<and> (s_scheduled service' \<longleftrightarrow> s_scheduled service
        \<or> executions st (s_name service) < (if app_overlap (s_config service) then app_max_workers (s_config service) else 1))"
proof -
  let ?i = "interval (s_schedule service)" and ?late = "now - s_next_run service"
  have sub: "time_sub now (s_next_run service) = ?late" using assms by (intro time_sub_exact) auto
  have next_run: "s_next_run service' = next_cadence (s_schedule service) (s_next_run service) now"
    using assms(1-3) by (simp add: service_def service'_def schedule_due_def Let_def)
  then have n: "s_next_run service' = now + (?i - ?late mod ?i)" by (simp add: next_cadence_def sub)
  have "0 \<le> ?late mod ?i" "?late mod ?i < ?i" using assms(3) by (simp_all add: service_def)
  moreover have "s_next_run service' - s_next_run service = ?i * (?late div ?i + 1)"
    unfolding n by (simp add: minus_mod_eq_mult_div [symmetric] algebra_simps)
  moreover have "executions (upd_serv s (\<lambda>x. x\<lparr>s_next_run := t\<rparr>) st) m = executions st m" for t m
    by (simp add: executions_def) (auto intro!: arg_cong [where f = length] filter_cong)
  then have "s_scheduled service' \<longleftrightarrow> s_scheduled service
      \<or> executions st (s_name service) < (if app_overlap (s_config service) then app_max_workers (s_config service) else 1)"
    using assms(1-3) by (auto simp: service_def service'_def schedule_due_def execution_limit_def Let_def)
  ultimately show ?thesis using n by simp
qed

text \<open>Due at 100 and every 10 since, looked at only at 125.\<close>

definition late_store :: store where
  "late_store = web_store web_process web_cycle
     (web_service\<lparr>s_schedule := zero_schedule\<lparr>interval := 10\<rparr>, s_next_run := 100\<rparr>) [] [] []"

lemma interval_cadence_witness:
  "s_next_run (st_servs (schedule_due demo_world 0 125 late_store) 0) = 130
   \<and> s_scheduled (st_servs (schedule_due demo_world 0 125 late_store) 0)"
proof -
  let ?n = "s_next_run (st_servs (schedule_due demo_world 0 125 late_store) 0)"
  have "executions late_store (s_name (st_servs late_store 0)) = 0" by (simp add: late_store_def executions_def)
  with interval_cadence [of late_store 0 125 demo_world]
  have "125 < ?n" "?n \<le> 135" "(?n - 100) mod 10 = 0" "s_scheduled (st_servs (schedule_due demo_world 0 125 late_store) 0)"
    by (simp_all add: late_store_def web_service_def new_service_def demo_app_def default_app_def)
  moreover from this have "?n = 130" by presburger
  ultimately show ?thesis by simp
qed

subsection \<open>Restarts after failures\<close>

text \<open>
  Failures of a service that follow each other delay the next start by a quarter of a second,
  twice as long after each failure, and never by more than 32 seconds.
\<close>

theorem restart_delays:
  fixes n :: nat and now :: time
  assumes "s_failures (st_servs st s) = 0"
  defines "service \<equiv> st_servs ((backoff s now ^^ Suc n) st) s"
  shows "s_failures service = int n + 1 \<and> s_retry_at service = now + 250 * millisecond * 2 ^ min n 7"
proof -
  have "s_failures (st_servs ((backoff s now ^^ k) st) s) = int k" for k
    using assms(1) by (induction k) (simp_all add: backoff_def)
  moreover have "min (int n) 7 = int (min n 7)" by simp
  ultimately show ?thesis by (simp add: service_def backoff_def backoff_delay_def)
qed

lemma restart_delays_witness:
  "s_retry_at (st_servs ((backoff 0 1000 ^^ Suc 9) late_store) 0) = 1000 + 32 * second"
  using restart_delays [of late_store 0 9 1000] by (simp add: late_store_def web_service_def new_service_def)

end
