(* ===== verification/Paths.thy ===== *)
theory Paths
  imports GoText
begin

text \<open>
  The functions of Go's package \<^verbatim>\<open>path/filepath\<close> that the supervisor calls, on the slash-separated
  paths of Linux: \<^verbatim>\<open>Clean\<close>, \<^verbatim>\<open>Join\<close>, \<^verbatim>\<open>Dir\<close>, \<^verbatim>\<open>Base\<close>, \<^verbatim>\<open>IsAbs\<close> and \<^verbatim>\<open>Rel\<close>, and \<^verbatim>\<open>resolve\<close> of
  \<^verbatim>\<open>src/main.go\<close>.  The lemmas relate them to the list of the components of a clean absolute
  path.
\<close>

abbreviation slash :: char where "slash \<equiv> CHR ''/''"

fun joined :: "go_string list \<Rightarrow> go_string" where
  "joined [] = []"
| "joined [w] = w"
| "joined (w # v # ws) = w @ slash # joined (v # ws)"

text \<open>
  One component of a path against the components kept so far, the innermost first.
\<close>

definition clean_step :: "bool \<Rightarrow> go_string \<Rightarrow> go_string list \<Rightarrow> go_string list" where
  "clean_step rooted c kept =
     (if c = [] \<or> c = ''.'' then kept
      else if c = ''..''
        then (case kept of
                [] \<Rightarrow> if rooted then [] else [c]
              | k # ks \<Rightarrow> if k = ''..'' then c # kept else ks)
      else c # kept)"

definition is_abs :: "go_string \<Rightarrow> bool" where
  "is_abs p \<longleftrightarrow> prefix [slash] p"

definition clean_parts :: "go_string \<Rightarrow> go_string list" where
  "clean_parts p = rev (fold (clean_step (is_abs p)) (split_on slash p) [])"

definition clean :: "go_string \<Rightarrow> go_string" where
  "clean p =
     (if is_abs p then slash # joined (clean_parts p)
      else if clean_parts p = [] then ''.'' else joined (clean_parts p))"

definition join_path :: "go_string \<Rightarrow> go_string \<Rightarrow> go_string" where
  "join_path d p = (if d \<noteq> [] then clean (d @ slash # p) else if p \<noteq> [] then clean p else [])"

definition dir :: "go_string \<Rightarrow> go_string" where
  "dir p = clean (rev (dropWhile (\<lambda>c. c \<noteq> slash) (rev p)))"

definition base :: "go_string \<Rightarrow> go_string" where
  "base p =
     (if p = [] then ''.''
      else let w = rev (takeWhile (\<lambda>c. c \<noteq> slash) (dropWhile (\<lambda>c. c = slash) (rev p)))
           in if w = [] then [slash] else w)"

text \<open>The components of both paths after their longest common beginning.\<close>

fun strip_common :: "'a list \<Rightarrow> 'a list \<Rightarrow> 'a list \<times> 'a list" where
  "strip_common (x # xs) (y # ys) = (if x = y then strip_common xs ys else (x # xs, y # ys))"
| "strip_common xs ys = (xs, ys)"

text \<open>\<^verbatim>\<open>filepath.Rel\<close>; \<open>None\<close> is its error.\<close>

definition rel_path :: "go_string \<Rightarrow> go_string \<Rightarrow> go_string option" where
  "rel_path b t =
     (if is_abs b \<noteq> is_abs t then None
      else case strip_common (clean_parts b) (clean_parts t) of
        (up, down) \<Rightarrow>
          if up \<noteq> [] \<and> hd up = ''..'' then None
          else if up = [] \<and> down = [] then Some ''.''
          else Some (joined (map (\<lambda>_. ''..'') up @ down)))"

text \<open>\<^verbatim>\<open>relative != ".." && !strings.HasPrefix(relative, "../")\<close>: the path does not leave its base.\<close>

definition inside :: "go_string \<Rightarrow> bool" where
  "inside relative \<longleftrightarrow> relative \<noteq> ''..'' \<and> \<not> prefix ''../'' relative"

definition resolve :: "go_string \<Rightarrow> go_string \<Rightarrow> go_string" where
  "resolve directory p = (if is_abs p then clean p else join_path directory p)"

subsection \<open>Components\<close>

text \<open>A component of a clean absolute path.\<close>

definition plain :: "go_string \<Rightarrow> bool" where
  "plain w \<longleftrightarrow> w \<noteq> [] \<and> w \<noteq> ''.'' \<and> w \<noteq> ''..'' \<and> slash \<notin> set w"

definition abs_path :: "go_string list \<Rightarrow> go_string" where
  "abs_path ws = slash # joined ws"

lemma is_abs_path [simp]: "is_abs (abs_path ws)"
  by (simp add: is_abs_def abs_path_def)

lemma joined_snoc: "ws \<noteq> [] \<Longrightarrow> joined (ws @ [w]) = joined ws @ slash # w"
  by (induction ws rule: joined.induct) simp_all

lemma joined_Cons: "ws \<noteq> [] \<Longrightarrow> joined (w # ws) = w @ slash # joined ws"
  by (cases ws) simp_all

lemma split_joined: "\<forall>w \<in> set ws. slash \<notin> set w \<Longrightarrow> ws \<noteq> [] \<Longrightarrow> split_on slash (joined ws) = ws"
  by (induction ws rule: joined.induct) (simp_all add: split_on_absent split_on_first)

lemma joined_split: "joined (split_on slash s) = s"
proof (induction s)
  case (Cons c s)
  obtain w ws where s: "split_on slash s = w # ws" by (cases "split_on slash s") simp_all
  show ?case using Cons.IH by (cases ws) (auto simp: s)
qed simp

lemma split_Cons_slash: "split_on slash (slash # s) = [] # split_on slash s"
  by simp

lemma split_abs_path: "\<forall>w \<in> set ws. slash \<notin> set w \<Longrightarrow>
    split_on slash (abs_path ws) = [] # (if ws = [] then [[]] else ws)"
  by (simp add: abs_path_def split_joined)

lemma abs_path_inj:
  assumes "abs_path ws = abs_path vs" and "\<forall>w \<in> set ws. plain w" and "\<forall>w \<in> set vs. plain w"
  shows "ws = vs"
proof -
  have ns: "\<forall>w \<in> set ws. slash \<notin> set w" "\<forall>w \<in> set vs. slash \<notin> set w" and ne: "[] \<notin> set ws" "[] \<notin> set vs"
    using assms(2,3) by (auto simp: plain_def)
  have "split_on slash (abs_path ws) = split_on slash (abs_path vs)" using assms(1) by simp
  then have "(if ws = [] then [[]] else ws) = (if vs = [] then [[]] else vs)"
    unfolding split_abs_path [OF ns(1)] split_abs_path [OF ns(2)] by (rule list.inject [THEN iffD1, THEN conjunct2])
  then show ?thesis using ne by (cases "ws = []"; cases "vs = []") auto
qed

lemma clean_step_plain: "plain c \<Longrightarrow> clean_step rooted c kept = c # kept"
  by (simp add: clean_step_def plain_def)

lemma fold_clean_plain: "\<forall>c \<in> set cs. plain c \<Longrightarrow> fold (clean_step rooted) cs kept = rev cs @ kept"
  by (induction cs arbitrary: kept) (simp_all add: clean_step_plain)

lemma clean_step_keeps:
  "\<forall>k \<in> set kept. plain k \<Longrightarrow> slash \<notin> set c \<Longrightarrow> \<forall>k \<in> set (clean_step True c kept). plain k"
  unfolding clean_step_def by (cases kept) (simp_all add: plain_def)

lemma fold_clean_keeps:
  assumes "\<forall>k \<in> set kept. plain k" and "\<forall>c \<in> set cs. slash \<notin> set c"
  shows "\<forall>k \<in> set (fold (clean_step True) cs kept). plain k"
  using assms
proof (induction cs arbitrary: kept)
  case (Cons c cs)
  show ?case using Cons.IH [of "clean_step True c kept"] clean_step_keeps [of kept c] Cons.prems by simp
qed simp

lemma clean_parts_plain: "is_abs p \<Longrightarrow> \<forall>w \<in> set (clean_parts p). plain w"
  using fold_clean_keeps [of "[]" "split_on slash p"] split_on_no_sep [of _ slash p]
  by (auto simp: clean_parts_def)

lemma clean_abs: "is_abs p \<Longrightarrow> clean p = abs_path (clean_parts p)"
  by (simp add: clean_def abs_path_def)

lemma is_abs_clean: "is_abs p \<Longrightarrow> is_abs (clean p)"
  by (simp add: clean_abs)

lemma clean_parts_abs_path [simp]: "\<forall>w \<in> set ws. plain w \<Longrightarrow> clean_parts (abs_path ws) = ws"
proof -
  assume plain: "\<forall>w \<in> set ws. plain w"
  then have "split_on slash (abs_path ws) = [] # (if ws = [] then [[]] else ws)"
    by (intro split_abs_path) (simp add: plain_def)
  then show ?thesis
    using fold_clean_plain [OF plain, of True "[]"] by (simp add: clean_parts_def clean_step_def [of _ "[]"])
qed

lemma clean_abs_path [simp]: "\<forall>w \<in> set ws. plain w \<Longrightarrow> clean (abs_path ws) = abs_path ws"
  by (simp add: clean_abs)

lemma clean_idem: "is_abs p \<Longrightarrow> clean (clean p) = clean p"
  using clean_parts_plain by (simp add: clean_abs)

lemma dir_abs_path_snoc:
  assumes "\<forall>w \<in> set ws. plain w" and "plain w"
  shows "dir (abs_path (ws @ [w])) = abs_path ws"
proof -
  have "dropWhile (\<lambda>c. c \<noteq> slash) (rev w @ slash # t) = slash # t" for t
    using assms(2) by (intro dropWhile_append_stop) (auto simp: plain_def)
  then have "rev (dropWhile (\<lambda>c. c \<noteq> slash) (rev (abs_path (ws @ [w]))))
      = (if ws = [] then [slash] else abs_path ws @ [slash])"
    by (auto simp: abs_path_def joined_snoc)
  moreover have "clean (abs_path ws @ [slash]) = abs_path ws" if "ws \<noteq> []"
  proof -
    have "abs_path ws @ [slash] = abs_path (ws @ [[]])"
      using that by (simp add: abs_path_def joined_snoc)
    moreover have "clean_parts (abs_path (ws @ [[]])) = ws"
    proof -
      have "split_on slash (abs_path (ws @ [[]])) = [] # ws @ [[]]"
        using assms(1) by (subst split_abs_path) (auto simp: plain_def)
      then show ?thesis
        using fold_clean_plain [OF assms(1)] by (simp add: clean_parts_def clean_step_def [of _ "[]"])
    qed
    ultimately show ?thesis by (simp add: clean_abs)
  qed
  moreover have "clean [slash] = abs_path []"
    by (simp add: clean_def is_abs_def clean_parts_def clean_step_def abs_path_def)
  ultimately show ?thesis by (auto simp: dir_def)
qed

lemma dir_root: "dir (abs_path []) = abs_path []"
  by (simp add: dir_def clean_def is_abs_def clean_parts_def clean_step_def abs_path_def)

lemma dir_abs_path: "\<forall>w \<in> set ws. plain w \<Longrightarrow> dir (abs_path ws) = abs_path (butlast ws)"
  by (cases ws rule: rev_cases) (simp_all add: dir_root dir_abs_path_snoc)

lemma dir_fixed: "\<forall>w \<in> set ws. plain w \<Longrightarrow> dir (abs_path ws) = abs_path ws \<longleftrightarrow> ws = []"
  using abs_path_inj [of "butlast ws" ws] by (cases ws rule: rev_cases) (auto simp: dir_root dir_abs_path)

lemma resolve_abs: "is_abs p \<Longrightarrow> resolve d p = clean p"
  by (simp add: resolve_def)

lemma is_abs_resolve: "is_abs d \<Longrightarrow> is_abs (resolve d p)"
  using is_abs_clean [of p] is_abs_clean [of "d @ slash # p"]
  by (auto simp: resolve_def join_path_def is_abs_def prefix_def)

lemma resolve_clean: "is_abs d \<Longrightarrow> clean (resolve d p) = resolve d p"
  using clean_idem [of p] clean_idem [of "d @ slash # p"]
  by (auto simp: resolve_def join_path_def is_abs_def prefix_def)

lemma fold_clean_nonempty: "\<forall>k \<in> set kept. k \<noteq> [] \<Longrightarrow> \<forall>k \<in> set (fold (clean_step rooted) cs kept). k \<noteq> []"
proof (induction cs arbitrary: kept)
  case (Cons c cs)
  have "\<forall>k \<in> set (clean_step rooted c kept). k \<noteq> []"
    using Cons.prems unfolding clean_step_def by (cases kept) simp_all
  then show ?case using Cons.IH by simp
qed simp

lemma clean_nonempty [simp]: "clean p \<noteq> []"
proof -
  have "\<forall>k \<in> set (clean_parts p). k \<noteq> []"
    using fold_clean_nonempty [of "[]"] by (simp add: clean_parts_def)
  then have "clean_parts p \<noteq> [] \<Longrightarrow> joined (clean_parts p) \<noteq> []"
    by (cases "clean_parts p" rule: joined.cases) simp_all
  then show ?thesis by (simp add: clean_def)
qed

lemma resolve_nonempty: "p \<noteq> [] \<Longrightarrow> resolve d p \<noteq> []"
  by (simp add: resolve_def join_path_def)

subsection \<open>Paths inside others\<close>

lemma strip_common_split:
  "strip_common xs ys = (us, vs) \<Longrightarrow>
     \<exists>cs. xs = cs @ us \<and> ys = cs @ vs \<and> (us = [] \<or> vs = [] \<or> hd us \<noteq> hd vs)"
proof (induction xs ys rule: strip_common.induct)
  case (1 x xs y ys)
  then show ?case by (cases "x = y") (auto intro: exI [of _ "y # _"])
qed auto

lemma strip_common_prefix: "strip_common xs (xs @ ys) = ([], ys)"
  by (induction xs) simp_all

lemma inside_joined:
  assumes "\<forall>w \<in> set ws. plain w" and "ws \<noteq> []"
  shows "inside (joined ws)"
proof -
  obtain w vs where ws: "ws = w # vs" using assms(2) by (cases ws) simp_all
  have "split_on slash (joined ws) = ws" using assms by (intro split_joined) (simp_all add: plain_def)
  moreover have "split_on slash ''..'' = [''..'']" by code_simp
  moreover have "hd (split_on slash (''../'' @ t)) = ''..''" for t by simp
  moreover have "w \<noteq> ''..''" using assms(1) ws by (simp add: plain_def)
  ultimately have "joined ws \<noteq> ''..''" and "joined ws \<noteq> ''../'' @ t" for t
    unfolding ws by (metis list.sel(1))+
  then show ?thesis by (simp add: inside_def prefix_def)
qed

lemma not_inside_up: "inside (joined (map (\<lambda>_. ''..'') (u # us) @ down)) \<Longrightarrow> False"
  by (cases "map (\<lambda>_. ''..'') us @ down") (auto simp: inside_def)

text \<open>
  \<^verbatim>\<open>filepath.Rel\<close> with the test behind it decides whether one absolute path lies below another.
\<close>

lemma rel_path_inside:
  assumes "is_abs b" and "is_abs t"
  shows "(\<exists>r. rel_path b t = Some r \<and> inside r) \<longleftrightarrow> prefix (clean_parts b) (clean_parts t)"
proof
  assume "prefix (clean_parts b) (clean_parts t)"
  then obtain down where d: "clean_parts t = clean_parts b @ down" by (auto simp: prefix_def)
  have "\<forall>w \<in> set down. plain w" using clean_parts_plain [OF assms(2)] d by simp
  then show "\<exists>r. rel_path b t = Some r \<and> inside r"
    using assms inside_joined [of down] by (auto simp: rel_path_def d strip_common_prefix inside_def)
next
  assume "\<exists>r. rel_path b t = Some r \<and> inside r"
  then obtain r where r: "rel_path b t = Some r" "inside r" by blast
  obtain us vs where s: "strip_common (clean_parts b) (clean_parts t) = (us, vs)"
    by (cases "strip_common (clean_parts b) (clean_parts t)")
  have "us = []"
  proof (cases us)
    case (Cons u us')
    then have "r = joined (map (\<lambda>_. ''..'') (u # us') @ vs)" using r(1) s assms by (auto simp: rel_path_def split: if_splits)
    then show ?thesis using not_inside_up [of u us' vs] r(2) by simp
  qed
  then show "prefix (clean_parts b) (clean_parts t)" using strip_common_split [OF s] by (auto simp: prefix_def)
qed

text \<open>The relative path of a path below another, and where it leads from a directory.\<close>

lemma rel_path_down:
  assumes "is_abs b" and "is_abs t" and "rel_path b t = Some r" and "inside r"
  shows "\<exists>down. clean_parts t = clean_parts b @ down \<and> (\<forall>w \<in> set down. plain w)
    \<and> r = (if down = [] then ''.'' else joined down)"
proof -
  obtain down where d: "clean_parts t = clean_parts b @ down"
    using rel_path_inside [OF assms(1,2)] assms(3,4) by (auto simp: prefix_def)
  moreover have "\<forall>w \<in> set down. plain w" using clean_parts_plain [OF assms(2)] d by simp
  moreover have "r = (if down = [] then ''.'' else joined down)"
    using assms(1-3) by (auto simp: rel_path_def d strip_common_prefix split: if_splits)
  ultimately show ?thesis by blast
qed

lemma split_slash: "split_on slash (x @ slash # y) = split_on slash x @ split_on slash y"
proof (induction x)
  case (Cons c x)
  obtain w ws where "split_on slash x = w # ws" by (cases "split_on slash x") simp_all
  with Cons show ?case by simp
qed simp

lemma join_down:
  assumes "is_abs b" and "\<forall>w \<in> set down. plain w"
  shows "join_path b (if down = [] then ''.'' else joined down) = abs_path (clean_parts b @ down)" (is "join_path b ?r = _")
proof -
  have abs: "is_abs (b @ slash # ?r)" using assms(1) by (auto simp: is_abs_def prefix_def)
  then have "clean_parts (b @ slash # ?r) = rev (fold (clean_step True) (split_on slash ?r) (rev (clean_parts b)))"
    using assms(1) by (simp add: clean_parts_def split_slash)
  moreover have "fold (clean_step True) (split_on slash ?r) kept = rev down @ kept" for kept
  proof (cases "down = []")
    case True
    then show ?thesis by (simp add: clean_step_def)
  next
    case False
    then have "split_on slash ?r = down" using assms(2) by (simp add: split_joined plain_def)
    then show ?thesis using fold_clean_plain [OF assms(2)] by simp
  qed
  ultimately have "clean_parts (b @ slash # ?r) = clean_parts b @ down" by simp
  moreover have "b \<noteq> []" using assms(1) by (auto simp: is_abs_def)
  ultimately show ?thesis using abs by (simp add: join_path_def clean_abs)
qed

subsection \<open>Absolute clean paths\<close>

definition absolute :: "go_string \<Rightarrow> bool" where
  "absolute p \<longleftrightarrow> is_abs p \<and> clean p = p"

lemma absolute_parts: "absolute p \<Longrightarrow> p = abs_path (clean_parts p)"
  using clean_abs [of p] by (simp add: absolute_def)

lemma absolute_eq: "absolute p \<Longrightarrow> absolute q \<Longrightarrow> clean_parts p = clean_parts q \<Longrightarrow> p = q"
  using absolute_parts by metis

lemma absolute_clean: "is_abs p \<Longrightarrow> absolute (clean p)"
  by (simp add: absolute_def is_abs_clean clean_idem)

lemma absolute_abs_path: "\<forall>w \<in> set ws. plain w \<Longrightarrow> absolute (abs_path ws)"
  by (simp add: absolute_def)

lemma absolute_parts_plain: "absolute p \<Longrightarrow> \<exists>ws. p = abs_path ws \<and> (\<forall>w \<in> set ws. plain w)"
  using absolute_parts clean_parts_plain by (auto simp: absolute_def)

end
