(* ===== verification/Globs.thy ===== *)
theory Globs
  imports Paths Config
begin

text \<open>
  Globs and the file events of \<^verbatim>\<open>restart_on\<close> rules in \<^verbatim>\<open>src/main.go\<close>: the model of Go's
  \<^verbatim>\<open>filepath.Match\<close>, then \<^verbatim>\<open>matchGlob\<close>, \<^verbatim>\<open>watchRoot\<close> and \<^verbatim>\<open>RestartRule.matches\<close>.
\<close>

subsection \<open>filepath.Match\<close>

text \<open>
  \<^verbatim>\<open>utf8.DecodeRuneInString\<close>: the rune a string starts with and its width; the width is 1 and
  the rune U+FFFD where the bytes are no UTF-8.
\<close>

definition rune_error :: nat where "rune_error = 0xFFFD"

definition continuation :: "nat \<Rightarrow> bool" where
  "continuation b \<longleftrightarrow> 0x80 \<le> b \<and> b \<le> 0xBF"

definition second_ok :: "nat \<Rightarrow> nat \<Rightarrow> bool" where
  "second_ok a b \<longleftrightarrow> continuation b \<and> (a = 0xE0 \<longrightarrow> 0xA0 \<le> b) \<and> (a = 0xED \<longrightarrow> b \<le> 0x9F)
     \<and> (a = 0xF0 \<longrightarrow> 0x90 \<le> b) \<and> (a = 0xF4 \<longrightarrow> b \<le> 0x8F)"

definition decode_rune :: "go_string \<Rightarrow> nat \<times> nat" where
  "decode_rune s = (case map of_char (take 4 s) of
     [] \<Rightarrow> (rune_error, 0)
   | a # r \<Rightarrow>
       if a < 0x80 then (a, 1)
       else if 0xC2 \<le> a \<and> a \<le> 0xDF \<and> r \<noteq> [] \<and> continuation (r ! 0)
         then ((a - 0xC0) * 64 + (r ! 0 - 0x80), 2)
       else if 0xE0 \<le> a \<and> a \<le> 0xEF \<and> 2 \<le> length r \<and> second_ok a (r ! 0) \<and> continuation (r ! 1)
         then ((a - 0xE0) * 4096 + (r ! 0 - 0x80) * 64 + (r ! 1 - 0x80), 3)
       else if 0xF0 \<le> a \<and> a \<le> 0xF4 \<and> 3 \<le> length r \<and> second_ok a (r ! 0) \<and> continuation (r ! 1)
           \<and> continuation (r ! 2)
         then ((a - 0xF0) * 262144 + (r ! 0 - 0x80) * 4096 + (r ! 1 - 0x80) * 64 + (r ! 2 - 0x80), 4)
       else (rune_error, 1))"

lemma decode_rune_width: "s \<noteq> [] \<Longrightarrow> 0 < snd (decode_rune s)"
  by (cases s) (simp_all add: decode_rune_def Let_def)

text \<open>
  \<^verbatim>\<open>getEsc\<close>: the next, possibly escaped, character of a class and the rest of the chunk, which
  is not empty; \<open>None\<close> is \<^verbatim>\<open>ErrBadPattern\<close>.
\<close>

definition get_esc :: "go_string \<Rightarrow> (nat \<times> go_string) option" where
  "get_esc chunk =
     (if chunk = [] \<or> hd chunk = CHR ''-'' \<or> hd chunk = CHR '']'' then None
      else
        (let chunk = (if hd chunk = CHR 0x5C then tl chunk else chunk); (r, n) = decode_rune chunk
         in if chunk = [] \<or> (r = rune_error \<and> n = 1) \<or> drop n chunk = [] then None
            else Some (r, drop n chunk)))"

lemma get_esc_shorter: "get_esc chunk = Some (r, rest) \<Longrightarrow> rest \<noteq> [] \<and> length rest < length chunk"
proof -
  assume e: "get_esc chunk = Some (r, rest)"
  define c where "c = (if hd chunk = CHR 0x5C then tl chunk else chunk)"
  obtain r' n where d: "decode_rune c = (r', n)" by (cases "decode_rune c")
  from e have "chunk \<noteq> []" and "c \<noteq> []" and "rest = drop n c" and "rest \<noteq> []"
    unfolding get_esc_def Let_def c_def [symmetric] d by (auto split: if_splits)
  moreover have "0 < n" using decode_rune_width [of c] \<open>c \<noteq> []\<close> d by simp
  ultimately show ?thesis by (cases chunk) (auto simp: c_def split: if_splits)
qed

text \<open>The ranges of a character class, up to the closing bracket, for the rune \<open>r\<close>.\<close>

function class_ranges :: "nat \<Rightarrow> go_string \<Rightarrow> bool \<Rightarrow> bool \<Rightarrow> (bool \<times> go_string) option" where
  "class_ranges r chunk some matched =
     (if chunk \<noteq> [] \<and> hd chunk = CHR '']'' \<and> some then Some (matched, tl chunk)
      else case get_esc chunk of
        None \<Rightarrow> None
      | Some (lo, rest) \<Rightarrow>
          if hd rest = CHR ''-''
            then (case get_esc (tl rest) of
                    None \<Rightarrow> None
                  | Some (hi, rest') \<Rightarrow> class_ranges r rest' True (matched \<or> (lo \<le> r \<and> r \<le> hi)))
            else class_ranges r rest True (matched \<or> r = lo))"
  by pat_completeness auto
termination
proof (relation "measure (\<lambda>(r, chunk, some, matched). length chunk)", goal_cases)
  case (2 r chunk some matched x lo rest y hi rest')
  then have "length rest < length chunk" and "length rest' < length (tl rest)"
    using get_esc_shorter by blast+
  then show ?case by simp
next
  case (3 r chunk some matched x lo rest)
  then show ?case using get_esc_shorter [of chunk lo rest] by simp
qed simp

declare class_ranges.simps [simp del]

lemma class_ranges_shorter: "class_ranges r chunk some matched = Some (m, rest) \<Longrightarrow> length rest < length chunk"
proof (induction r chunk some matched rule: class_ranges.induct)
  case (1 r chunk some matched)
  show ?case
  proof (cases "chunk \<noteq> [] \<and> hd chunk = CHR '']'' \<and> some")
    case True
    have "rest = tl chunk" using "1.prems" [unfolded class_ranges.simps [of r chunk] if_P [OF True]] by simp
    then show ?thesis using True by (cases chunk) simp_all
  next
    case False
    note step = "1.prems" [unfolded class_ranges.simps [of r chunk] if_not_P [OF False]]
    then obtain lo r1 where e: "get_esc chunk = Some (lo, r1)" by (auto split: option.splits)
    have l: "r1 \<noteq> []" "length r1 < length chunk" using get_esc_shorter [OF e] by auto
    show ?thesis
    proof (cases "hd r1 = CHR ''-''")
      case True
      with step e obtain hi r2 where e2: "get_esc (tl r1) = Some (hi, r2)" by (auto split: option.splits)
      have "length rest < length r2"
        using "1.IH" (1) [OF False e refl True e2 refl] step e e2 True by simp
      moreover have "length r2 < length (tl r1)" using get_esc_shorter [OF e2] by simp
      ultimately show ?thesis using l by simp
    next
      case False': False
      have "length rest < length r1" using "1.IH" (2) [OF False e refl False'] step e False' by simp
      then show ?thesis using l by simp
    qed
  qed
qed

text \<open>
  \<^verbatim>\<open>matchChunk\<close>: the chunk, without stars outside classes, against the beginning of a string;
  the outer \<open>None\<close> is \<^verbatim>\<open>ErrBadPattern\<close>, which is found also after the match has failed, the
  inner one a failed match.
\<close>

function match_chunk :: "bool \<Rightarrow> go_string \<Rightarrow> go_string \<Rightarrow> go_string option option" where
  "match_chunk failed [] s = Some (if failed then None else Some s)"
| "match_chunk failed (c # chunk) s =
     (let failed = (failed \<or> s = [])
      in if c = CHR ''['' then
           (let (r, n) = (if failed then (0, 0) else decode_rune s);
                negated = (chunk \<noteq> [] \<and> hd chunk = CHR ''^'');
                body = (if negated then tl chunk else chunk)
            in case class_ranges r body False False of
                 None \<Rightarrow> None
               | Some (matched, rest) \<Rightarrow>
                   match_chunk (failed \<or> matched = negated) rest (drop n s))
         else if c = CHR ''?'' then
           (if failed then match_chunk True chunk s
            else match_chunk (hd s = slash) chunk (drop (snd (decode_rune s)) s))
         else if c = CHR 0x5C then
           (case chunk of
              [] \<Rightarrow> None
            | d # rest \<Rightarrow> if failed then match_chunk True rest s
                          else match_chunk (d \<noteq> hd s) rest (tl s))
         else if failed then match_chunk True chunk s
         else match_chunk (c \<noteq> hd s) chunk (tl s))"
  by pat_completeness auto
termination
proof (relation "measure (\<lambda>(failed, chunk, s). length chunk)", goal_cases)
  case (2 failed c chunk s failed' x r n negated body y matched rest)
  then have "length rest < length body" by (auto dest: class_ranges_shorter)
  moreover have "length body \<le> length chunk" using 2 by simp
  ultimately show ?case by simp
qed auto

declare match_chunk.simps (2) [simp del]

text \<open>\<^verbatim>\<open>scanChunk\<close>: whether there are leading stars, the chunk after them, the rest.\<close>

fun chunk_length :: "bool \<Rightarrow> go_string \<Rightarrow> nat" where
  "chunk_length inrange [] = 0"
| "chunk_length inrange (c # p) =
     (if c = CHR 0x5C then (case p of [] \<Rightarrow> 1 | d # q \<Rightarrow> 2 + chunk_length inrange q)
      else if c = CHR ''['' then 1 + chunk_length True p
      else if c = CHR '']'' then 1 + chunk_length False p
      else if c = CHR ''*'' \<and> \<not> inrange then 0
      else 1 + chunk_length inrange p)"

definition scan_chunk :: "go_string \<Rightarrow> bool \<times> go_string \<times> go_string" where
  "scan_chunk p =
     (let q = dropWhile (\<lambda>c. c = CHR ''*'') p; n = chunk_length False q
      in (q \<noteq> p, take n q, drop n q))"

lemma chunk_length_pos: "q \<noteq> [] \<Longrightarrow> hd q \<noteq> CHR ''*'' \<Longrightarrow> 0 < chunk_length False q"
  by (cases q) (auto split: list.splits)

lemma scan_chunk_shorter:
  assumes "scan_chunk p = (star, chunk, rest)" and "p \<noteq> []"
  shows "length rest < length p"
proof -
  define q where "q = dropWhile (\<lambda>c. c = CHR ''*'') p"
  have rest: "rest = drop (chunk_length False q) q" using assms(1) by (simp add: scan_chunk_def q_def Let_def)
  have "length q \<le> length p" by (simp add: q_def length_dropWhile_le)
  moreover have "q \<noteq> [] \<Longrightarrow> 0 < chunk_length False q"
    unfolding q_def by (rule chunk_length_pos) (use hd_dropWhile in blast)+
  ultimately show ?thesis unfolding rest length_drop using assms(2)
    by (cases "q = []") (simp, metis diff_less length_greater_0_conv less_le_trans)
qed

text \<open>
  The search behind a star: the first number of skipped bytes, none of them a slash, at which
  the chunk matches.  The result is again \<open>None\<close> for a bad pattern.
\<close>

fun match_star :: "go_string \<Rightarrow> bool \<Rightarrow> go_string \<Rightarrow> go_string option option" where
  "match_star chunk final [] = Some None"
| "match_star chunk final (c # s) =
     (if c = slash then Some None
      else case match_chunk False chunk s of
        None \<Rightarrow> None
      | Some (Some t) \<Rightarrow> if final \<and> t \<noteq> [] then match_star chunk final s else Some (Some t)
      | Some None \<Rightarrow> match_star chunk final s)"

text \<open>The check that the rest of a pattern is well-formed, once the match has failed.\<close>

function rest_ok :: "go_string \<Rightarrow> bool" where
  "rest_ok p = (if p = [] then True
     else (let (star, chunk, rest) = scan_chunk p in match_chunk False chunk [] \<noteq> None \<and> rest_ok rest))"
  by pat_completeness auto
termination by (relation "measure length") (auto dest: scan_chunk_shorter [OF sym])

declare rest_ok.simps [simp del]

text \<open>
  One round of the loop of \<^verbatim>\<open>filepath.Match\<close>: what remains of the name behind the chunk, which
  matches here or, behind a star, further on.
\<close>

definition match_part :: "bool \<Rightarrow> go_string \<Rightarrow> bool \<Rightarrow> go_string \<Rightarrow> go_string option option" where
  "match_part star chunk final name =
     (case match_chunk False chunk name of
        None \<Rightarrow> None
      | Some here \<Rightarrow>
          if here \<noteq> None \<and> (the here = [] \<or> \<not> final) then Some here
          else if star then match_star chunk final name
          else Some None)"

text \<open>\<^verbatim>\<open>filepath.Match\<close>; \<open>None\<close> is \<^verbatim>\<open>ErrBadPattern\<close>.\<close>

function file_match :: "go_string \<Rightarrow> go_string \<Rightarrow> bool option" where
  "file_match p name =
     (if p = [] then Some (name = [])
      else
        (let (star, chunk, rest) = scan_chunk p
         in if star \<and> chunk = [] then Some (slash \<notin> set name)
            else case match_part star chunk (rest = []) name of
              None \<Rightarrow> None
            | Some (Some t) \<Rightarrow> file_match rest t
            | Some None \<Rightarrow> if rest_ok rest then Some False else None))"
  by pat_completeness auto
termination by (relation "measure (\<lambda>(p, name). length p)") (auto dest: scan_chunk_shorter [OF sym])

declare file_match.simps [simp del]

subsection \<open>matchGlob\<close>

abbreviation any_depth :: go_string where "any_depth \<equiv> ''**''"

text \<open>
  The components of a pattern against those of a path: a complete \<open>**\<close> component stands for any
  number of them, another for one that it matches; a malformed one matches nothing.
\<close>

fun match_parts :: "go_string list \<Rightarrow> go_string list \<Rightarrow> bool" where
  "match_parts [] path = (path = [])"
| "match_parts (p # pattern) path =
     (if p = any_depth then list_ex (\<lambda>index. match_parts pattern (drop index path)) [0..<Suc (length path)]
      else case path of
        [] \<Rightarrow> False
      | c # rest \<Rightarrow> file_match p c = Some True \<and> match_parts pattern rest)"

definition match_glob :: "go_string \<Rightarrow> go_string \<Rightarrow> bool" where
  "match_glob pattern path = match_parts (split_on slash (clean pattern)) (split_on slash (clean path))"

text \<open>What one component of a pattern stands for.\<close>

definition covers :: "go_string \<Rightarrow> go_string list \<Rightarrow> bool" where
  "covers p segment \<longleftrightarrow> p = any_depth \<or> (\<exists>c. segment = [c] \<and> file_match p c = Some True)"

definition spelt :: "go_string list \<Rightarrow> go_string list \<Rightarrow> bool" where
  "spelt pattern path \<longleftrightarrow> (\<exists>segments. list_all2 covers pattern segments \<and> concat segments = path)"

lemma spelt_Nil [simp]: "spelt [] path \<longleftrightarrow> path = []"
  by (auto simp: spelt_def)

lemma spelt_Cons: "spelt (p # pattern) path \<longleftrightarrow> (\<exists>segment rest. covers p segment \<and> spelt pattern rest \<and> path = segment @ rest)"
proof
  assume "spelt (p # pattern) path"
  then show "\<exists>segment rest. covers p segment \<and> spelt pattern rest \<and> path = segment @ rest"
    by (fastforce simp: spelt_def list_all2_Cons1)
next
  assume "\<exists>segment rest. covers p segment \<and> spelt pattern rest \<and> path = segment @ rest"
  then obtain segment segments where "covers p segment" "list_all2 covers pattern segments"
    "path = segment @ concat segments"
    by (auto simp: spelt_def)
  then show "spelt (p # pattern) path" unfolding spelt_def by (intro exI [of _ "segment # segments"]) simp
qed

lemma match_parts_iff: "match_parts pattern path \<longleftrightarrow> spelt pattern path"
proof (induction pattern arbitrary: path)
  case (Cons p pattern)
  show ?case
  proof (cases "p = any_depth")
    case True
    have "match_parts (p # pattern) path \<longleftrightarrow> (\<exists>i \<le> length path. match_parts pattern (drop i path))"
      using True by (auto simp: list_ex_iff less_Suc_eq_le Bex_def simp del: upt_Suc)
    also have "\<dots> \<longleftrightarrow> (\<exists>segment rest. spelt pattern rest \<and> path = segment @ rest)"
    proof
      assume "\<exists>i \<le> length path. match_parts pattern (drop i path)"
      then obtain i where "spelt pattern (drop i path)" using Cons.IH by blast
      then show "\<exists>segment rest. spelt pattern rest \<and> path = segment @ rest"
        by (intro exI [of _ "take i path"] exI [of _ "drop i path"]) simp
    next
      assume "\<exists>segment rest. spelt pattern rest \<and> path = segment @ rest"
      then obtain segment rest where "spelt pattern rest" and p: "path = segment @ rest" by blast
      then show "\<exists>i \<le> length path. match_parts pattern (drop i path)"
        using Cons.IH by (intro exI [of _ "length segment"]) simp
    qed
    finally show ?thesis using True by (simp add: spelt_Cons covers_def)
  next
    case False
    then have c: "covers p segment \<longleftrightarrow> (\<exists>c. segment = [c] \<and> file_match p c = Some True)" for segment
      by (simp add: covers_def)
    show ?thesis
    proof (cases path)
      case Nil
      then show ?thesis using False by (simp add: spelt_Cons c)
    next
      case (Cons c rest)
      have "spelt (p # pattern) (c # rest) \<longleftrightarrow> file_match p c = Some True \<and> spelt pattern rest"
        unfolding spelt_Cons c by auto
      then show ?thesis using Cons False Cons.IH by simp
    qed
  qed
qed simp

subsection \<open>Rules\<close>

text \<open>The kinds of file events, the constants of the file watcher the code names.\<close>

datatype event_type = EventCreate | EventMod | EventRemove | EventRename | EventChmod | EventOverflow

definition file_events :: "(go_string \<times> event_type) list" where
  "file_events = [(''create'', EventCreate), (''write'', EventMod), (''remove'', EventRemove),
     (''rename'', EventRename), (''chmod'', EventChmod)]"

record watch_event =
  we_path :: go_string
  we_types :: "event_type list"

text \<open>
  The loop over the directories above a glob, up to the root; \<open>None\<close> would be a loop that never
  ends.
\<close>

partial_function (option) parent_matches :: "go_string \<Rightarrow> go_string \<Rightarrow> bool option" where
  "parent_matches parent path =
     (if dir parent = parent then Some False
      else if match_glob parent path then Some True
      else parent_matches (dir parent) path)"

text \<open>\<^verbatim>\<open>RestartRule.matches\<close>; an unknown event name reads the zero value of the watcher's type.\<close>

definition rule_matches :: "event_type \<Rightarrow> restart_rule \<Rightarrow> watch_event \<Rightarrow> bool option" where
  "rule_matches zero_type rule event =
     (let path = clean (we_path event); direct = match_glob (rule_glob rule) path;
          replaced = (EventCreate \<in> set (we_types event) \<or> EventRemove \<in> set (we_types event)
            \<or> EventRename \<in> set (we_types event))
      in case (if replaced \<and> \<not> direct then parent_matches (dir (rule_glob rule)) path else Some direct) of
           None \<Rightarrow> None
         | Some matched \<Rightarrow> Some (matched
             \<and> list_ex (\<lambda>name. lookup_or zero_type file_events name \<in> set (we_types event)) (rule_events rule)))"

subsection \<open>The directory a glob is watched from\<close>

datatype stat = IsDir | OtherFile | NotExist | StatError

datatype root_error = BadGlob | CannotStat | CannotWatch

text \<open>The search upwards from a directory; \<open>None\<close> would be a search that never ends.\<close>

partial_function (option) nearest_dir :: "(go_string \<Rightarrow> stat) \<Rightarrow> go_string \<Rightarrow> (root_error + go_string) option" where
  "nearest_dir stat folder =
     (if stat folder = IsDir then Some (Inr folder)
      else if stat folder = StatError then Some (Inl CannotStat)
      else if dir folder = folder then Some (Inl CannotWatch)
      else nearest_dir stat (dir folder))"

definition watch_root :: "(go_string \<Rightarrow> stat) \<Rightarrow> go_string \<Rightarrow> (root_error + go_string) option" where
  "watch_root stat pattern =
     (case file_match pattern [] of
        None \<Rightarrow> Some (Inl BadGlob)
      | Some _ \<Rightarrow>
          nearest_dir stat (dir (case index_any pattern ''*?['' of None \<Rightarrow> pattern | Some i \<Rightarrow> take i pattern)))"

subsection \<open>Absolute globs\<close>

lemma file_match_Nil [simp]: "file_match [] name = Some (name = [])"
  by (simp add: file_match.simps)

lemma spelt_root: "spelt ([] # ps) ([] # qs) \<longleftrightarrow> spelt ps qs"
  by (auto simp: spelt_Cons covers_def)

lemma match_abs_path:
  assumes "\<forall>w \<in> set ps. plain w" and "\<forall>w \<in> set qs. plain w" and "ps \<noteq> []" and "qs \<noteq> []"
  shows "match_glob (abs_path ps) (abs_path qs) \<longleftrightarrow> spelt ps qs"
proof -
  have "\<forall>w \<in> set ps. slash \<notin> set w" and "\<forall>w \<in> set qs. slash \<notin> set w" using assms by (simp_all add: plain_def)
  then show ?thesis using assms by (simp add: match_glob_def match_parts_iff split_abs_path spelt_root)
qed

lemma plain_take: "\<forall>w \<in> set ws. plain w \<Longrightarrow> \<forall>w \<in> set (take n ws). plain w"
  by (meson in_set_takeD)

text \<open>The loop over the parents of an absolute glob ends and tries every proper ancestor.\<close>

lemma parent_matches_iff:
  assumes "\<forall>w \<in> set ps. plain w" and "\<forall>w \<in> set qs. plain w" and "qs \<noteq> []"
  shows "parent_matches (abs_path ps) (abs_path qs) = Some (\<exists>n. 0 < n \<and> n \<le> length ps \<and> spelt (take n ps) qs)"
  using assms(1)
proof (induction ps rule: rev_induct)
  case Nil
  then show ?case by (subst parent_matches.simps) (simp add: dir_root)
next
  case (snoc p ps)
  have IH: "parent_matches (abs_path ps) (abs_path qs) = Some (\<exists>n. 0 < n \<and> n \<le> length ps \<and> spelt (take n ps) qs)"
    using snoc by simp
  have d: "dir (abs_path (ps @ [p])) = abs_path ps" and ne: "dir (abs_path (ps @ [p])) \<noteq> abs_path (ps @ [p])"
    using dir_abs_path_snoc dir_fixed [OF snoc.prems] snoc.prems by auto
  have m: "match_glob (abs_path (ps @ [p])) (abs_path qs) \<longleftrightarrow> spelt (ps @ [p]) qs"
    using match_abs_path [OF snoc.prems assms(2)] assms(3) by simp
  have "(\<exists>n. 0 < n \<and> n \<le> length (ps @ [p]) \<and> spelt (take n (ps @ [p])) qs) \<longleftrightarrow>
      spelt (ps @ [p]) qs \<or> (\<exists>n. 0 < n \<and> n \<le> length ps \<and> spelt (take n ps) qs)" (is "?l \<longleftrightarrow> ?r")
  proof
    assume ?l
    then obtain n where n: "0 < n" "n \<le> length (ps @ [p])" "spelt (take n (ps @ [p])) qs" by blast
    then show ?r by (cases "n = length (ps @ [p])") auto
  next
    assume ?r
    then show ?l
    proof
      assume "spelt (ps @ [p]) qs"
      then show ?l by (intro exI [of _ "length (ps @ [p])"]) simp
    next
      assume "\<exists>n. 0 < n \<and> n \<le> length ps \<and> spelt (take n ps) qs"
      then obtain n where "0 < n" "n \<le> length ps" "spelt (take n ps) qs" by blast
      then show ?l by (intro exI [of _ n]) simp
    qed
  qed
  note last_step = this
  show ?case
    unfolding parent_matches.simps [of "abs_path (ps @ [p])"] if_not_P [OF ne] m d IH last_step
    using ne [unfolded d] by simp
qed

lemma parent_matches_ends:
  "\<forall>w \<in> set ps. plain w \<Longrightarrow> parent_matches (abs_path ps) path \<noteq> None"
proof (induction ps rule: rev_induct)
  case Nil
  then show ?case by (subst parent_matches.simps) (simp add: dir_root)
next
  case (snoc p ps)
  then show ?case
    by (subst parent_matches.simps) (auto simp: dir_abs_path_snoc)
qed

text \<open>A front part of a path that a pattern covers is covered by a front part of the pattern.\<close>

lemma spelt_front:
  assumes "spelt ps (qs @ below)" and "qs \<noteq> []"
  shows "\<exists>n. 0 < n \<and> n \<le> length ps \<and> spelt (take n ps) qs"
  using assms
proof (induction ps arbitrary: qs)
  case (Cons p ps)
  obtain segment rest where s: "covers p segment" "spelt ps rest" "qs @ below = segment @ rest"
    using Cons.prems(1) by (auto simp: spelt_Cons)
  show ?case
  proof (cases "length qs \<le> length segment")
    case True
    then have q: "qs = take (length qs) segment" using s(3) by (metis append_eq_append_conv_if)
    have "covers p qs"
      using s(1) q Cons.prems(2) by (auto simp: covers_def take_Cons' split: if_splits)
    then have "spelt (take 1 (p # ps)) qs" by (auto simp: spelt_Cons)
    then show ?thesis by (intro exI [of _ 1]) simp
  next
    case False
    define qs' where "qs' = drop (length segment) qs"
    have q: "qs = segment @ qs'" and r: "rest = qs' @ below" and ne: "qs' \<noteq> []"
      using s(3) False append_take_drop_id [of "length segment" qs]
      by (auto simp: qs'_def append_eq_append_conv_if split: if_splits)
    obtain n where n: "n \<le> length ps" "spelt (take n ps) qs'"
      using Cons.IH [of qs'] s(2) r ne by blast
    then have "spelt (take (Suc n) (p # ps)) qs" using s(1) q by (auto simp: spelt_Cons)
    then show ?thesis using n(1) by (intro exI [of _ "Suc n"]) simp
  qed
qed simp

lemma clean_parts_path: "is_abs p \<Longrightarrow> clean p = abs_path (clean_parts p) \<and> (\<forall>w \<in> set (clean_parts p). plain w)"
  using clean_abs clean_parts_plain by blast

lemma match_glob_clean: "match_glob (clean p) q = match_glob p q" if "is_abs p"
  using clean_idem [OF that] by (simp add: match_glob_def)

text \<open>
  C29: A rule fires for a listed event on a path its glob matches, and also when an ancestor of a
  matching path, however far above it, is created, removed or renamed; the search ends.
\<close>

theorem replaced_ancestor_fires:
  assumes glob: "is_abs (rule_glob rule)" "clean (rule_glob rule) = rule_glob rule" "clean_parts (rule_glob rule) \<noteq> []"
    and event: "is_abs (we_path event)" "clean_parts (we_path event) \<noteq> []"
    and below: "list_all plain below" "match_glob (rule_glob rule) (abs_path (clean_parts (we_path event) @ below))"
    and kind: "below = [] \<or> EventCreate \<in> set (we_types event) \<or> EventRemove \<in> set (we_types event)
      \<or> EventRename \<in> set (we_types event)"
    and listed: "name \<in> set (rule_events rule)" "map_of file_events name = Some k" "k \<in> set (we_types event)"
  shows "rule_matches zero_type rule event = Some True"
proof -
  define ps qs where "ps = clean_parts (rule_glob rule)" and "qs = clean_parts (we_path event)"
  have g: "rule_glob rule = abs_path ps" and pp: "\<forall>w \<in> set ps. plain w"
    using clean_parts_path [OF glob(1)] glob(2) by (simp_all add: ps_def)
  have e: "clean (we_path event) = abs_path qs" and pq: "\<forall>w \<in> set qs. plain w"
    using clean_parts_path [OF event(1)] by (simp_all add: qs_def)
  have ne: "ps \<noteq> []" "qs \<noteq> []" using glob(3) event(2) by (simp_all add: ps_def qs_def)
  have "\<forall>w \<in> set (qs @ below). plain w" using pq below(1) by (auto simp: list_all_iff)
  then have s: "spelt ps (qs @ below)"
    using below(2) match_abs_path [OF pp, of "qs @ below"] ne g by (simp add: qs_def)
  obtain n where n: "0 < n" "n \<le> length ps" "spelt (take n ps) qs" using spelt_front [OF s ne(2)] by blast
  have direct: "match_glob (rule_glob rule) (abs_path qs) \<longleftrightarrow> spelt ps qs"
    using match_abs_path [OF pp pq ne] g by simp
  have parents: "parent_matches (dir (rule_glob rule)) (abs_path qs) = Some True" if "\<not> spelt ps qs"
  proof -
    have "n \<noteq> length ps" using that n(3) by auto
    then have "n \<le> length (butlast ps)" and "take n (butlast ps) = take n ps"
      using n(2) by (auto simp: take_butlast)
    moreover have "\<forall>w \<in> set (butlast ps). plain w" using pp by (auto dest: in_set_butlastD)
    ultimately show ?thesis
      using parent_matches_iff [of "butlast ps" qs] pq ne n unfolding g dir_abs_path [OF pp] by auto
  qed
  have "list_ex (\<lambda>name. lookup_or zero_type file_events name \<in> set (we_types event)) (rule_events rule)"
    using listed lookup_or_Some [of file_events name k zero_type] by (auto simp: list_ex_iff)
  then show ?thesis
    using direct parents kind s by (cases "spelt ps qs") (auto simp: rule_matches_def Let_def e)
qed

lemma replaced_ancestor_fires_witness:
  "rule_matches EventOverflow \<lparr>rule_glob = ''/srv/**/*.php'', rule_events = [''rename'']\<rparr>
     \<lparr>we_path = ''/srv/a/./b'', we_types = [EventRename]\<rparr> = Some True"
  by (rule replaced_ancestor_fires [where below = "[''c'', ''x.php'']" and name = "''rename''" and k = EventRename])
    code_simp+

subsection \<open>Watching where files may appear\<close>

lemma prefix_to_slash:
  assumes "prefix y (joined ws)" and "y \<noteq> []" and "hd (rev y) = slash" and "\<forall>w \<in> set ws. slash \<notin> set w"
  shows "\<exists>m. 0 < m \<and> m < length ws \<and> y = joined (take m ws) @ [slash]"
  using assms
proof (induction ws arbitrary: y rule: joined.induct)
  case (2 w)
  then have "slash \<in> set w" by (metis hd_in_set joined.simps(2) rev_is_Nil_conv set_mono_prefix set_rev subsetD)
  then show ?case using 2 by simp
next
  case (3 w v ws)
  have "hd (rev y) \<in> set y" using "3.prems"(2) by (metis hd_in_set rev_is_Nil_conv set_rev)
  then have "\<not> prefix y w" using "3.prems"(3,4) set_mono_prefix by fastforce
  then obtain z where y: "y = w @ slash # z" and z: "prefix z (joined (v # ws))"
    using "3.prems"(1) by (auto simp: prefix_append prefix_Cons)
  show ?case
  proof (cases "z = []")
    case True
    then show ?thesis using y by (intro exI [of _ 1]) simp
  next
    case False
    then have "hd (rev z) = slash" using "3.prems"(3) y by (cases z rule: rev_cases) simp_all
    then obtain m where m: "0 < m" "m < length (v # ws)" "z = joined (take m (v # ws)) @ [slash]"
      using "3.IH" [OF z False] "3.prems"(4) by auto
    moreover have "take m (v # ws) \<noteq> []" using m(1) by simp
    ultimately show ?thesis using y by (intro exI [of _ "Suc m"]) (simp add: joined_Cons)
  qed
qed simp

text \<open>A component without any of the special characters matches itself only.\<close>

definition literal :: "go_string \<Rightarrow> bool" where
  "literal p \<longleftrightarrow> (\<forall>c \<in> set p. c \<noteq> CHR ''*'' \<and> c \<noteq> CHR ''?'' \<and> c \<noteq> CHR ''['' \<and> c \<noteq> CHR 0x5C)"

lemma not_literal_any: "\<not> literal any_depth"
  by (simp add: literal_def)

lemma match_chunk_literal:
  "literal p \<Longrightarrow> match_chunk failed p s = Some (if failed \<or> \<not> prefix p s then None else Some (drop (length p) s))"
proof (induction p arbitrary: failed s)
  case (Cons c p)
  then have "c \<noteq> CHR ''?''" "c \<noteq> CHR ''[''" "c \<noteq> CHR 0x5C" "literal p" by (simp_all add: literal_def)
  then show ?case using Cons.IH by (cases s) (auto simp: match_chunk.simps (2) Let_def)
qed simp

lemma chunk_length_literal: "literal p \<Longrightarrow> chunk_length False p = length p"
  by (induction p) (simp_all add: literal_def)

lemma file_match_literal: "literal p \<Longrightarrow> file_match p c = Some (c = p)"
proof (cases "p = []")
  case False
  assume l: "literal p"
  then have "dropWhile (\<lambda>c. c = CHR ''*'') p = p" using False by (cases p) (simp_all add: literal_def)
  then have "scan_chunk p = (False, p, [])" using chunk_length_literal [OF l] by (simp add: scan_chunk_def Let_def)
  then show ?thesis
    using False match_chunk_literal [OF l, of False c]
    by (auto simp: file_match.simps [of p] match_part_def rest_ok.simps prefix_def)
qed simp

lemma spelt_literal:
  assumes "spelt (ls @ ps) path" and "\<forall>l \<in> set ls. literal l"
  shows "\<exists>rest. path = ls @ rest"
  using assms
proof (induction ls arbitrary: path)
  case (Cons l ls)
  have l: "literal l" using Cons.prems(2) by simp
  then have "l \<noteq> any_depth" using not_literal_any by metis
  then obtain rest where "path = l # rest" "spelt (ls @ ps) rest"
    using Cons.prems(1) unfolding append_Cons spelt_Cons covers_def file_match_literal [OF l] by auto
  then show ?case using Cons.IH Cons.prems(2) by auto
qed simp

text \<open>Above the first special character of a clean absolute glob.\<close>

lemma dir_of_prefix:
  assumes "\<forall>w \<in> set ps. plain w" and "prefix x (abs_path ps)" and "x \<noteq> []"
  shows "\<exists>m y. dir x = abs_path (take m ps) \<and> prefix (y @ [slash]) x \<and> y = (if m = 0 then [] else abs_path (take m ps))
    \<and> (m < length ps \<or> m = 0)"
proof -
  define y where "y = rev (dropWhile (\<lambda>c. c \<noteq> slash) (rev x))"
  have "slash \<in> set x" using assms(2,3) by (cases x) (auto simp: abs_path_def)
  then have y: "y \<noteq> []" "hd (rev y) = slash"
    using hd_dropWhile [of "\<lambda>c. c \<noteq> slash" "rev x"] by (auto simp: y_def dropWhile_eq_Nil_conv)
  have yx: "prefix y x"
    unfolding y_def by (metis rev_rev_ident suffix_dropWhile suffix_to_prefix)
  obtain y' where y': "y = y' @ [slash]" using y by (cases y rule: rev_cases) simp_all
  have "prefix y (slash # joined ps)" using yx assms(2) by (auto simp: abs_path_def intro: prefix_order.trans)
  then obtain z where z: "y = slash # z" "prefix z (joined ps)" using y(1) by (auto simp: prefix_Cons)
  show ?thesis
  proof (cases "z = []")
    case True
    then have "dir x = abs_path []"
      using z by (simp add: dir_def y_def [symmetric] clean_def is_abs_def clean_parts_def clean_step_def abs_path_def)
    then show ?thesis using True z yx by (intro exI [of _ 0] exI [of _ "[]"]) simp
  next
    case False
    have "hd (rev z) = slash" using y(2) z(1) False by (cases z rule: rev_cases) simp_all
    then obtain m where m: "0 < m" "m < length ps" "z = joined (take m ps) @ [slash]"
      using prefix_to_slash [OF z(2) False] assms(1) by (auto simp: plain_def)
    have ne: "take m ps \<noteq> []" using m by auto
    have pt: "\<forall>w \<in> set (take m ps). plain w" by (rule plain_take [OF assms(1)])
    have eq: "y = abs_path (take m ps) @ [slash]" using z m by (simp add: abs_path_def)
    have "hd ps \<in> set ps" using m by (cases ps) simp_all
    then obtain w where w: "plain w" using assms(1) by blast
    have "dir (y @ w) = abs_path (take m ps)"
      using dir_abs_path_snoc [OF pt w] ne eq by (simp add: abs_path_def joined_snoc)
    moreover have "dir (y @ w) = dir x"
    proof -
      have "dropWhile (\<lambda>c. c \<noteq> slash) (rev w @ slash # rev y') = slash # rev y'"
        using w by (intro dropWhile_append_stop) (auto simp: plain_def)
      then show ?thesis by (simp add: dir_def y_def [symmetric] y')
    qed
    ultimately show ?thesis using m ne yx eq by (intro exI [of _ m] exI [of _ "abs_path (take m ps)"]) simp
  qed
qed

lemma nearest_dir_ancestor:
  assumes "\<forall>w \<in> set ws. plain w"
  shows "\<exists>r. nearest_dir stat (abs_path ws) = Some r \<and> (\<forall>root. r = Inr root \<longrightarrow> stat root = IsDir \<and> (\<exists>k. root = abs_path (take k ws)))"
  using assms
proof (induction ws rule: rev_induct)
  case Nil
  then show ?case by (simp add: nearest_dir.simps [of stat "abs_path []"] dir_root)
next
  case (snoc w ws)
  have d: "dir (abs_path (ws @ [w])) = abs_path ws" and ne: "abs_path ws \<noteq> abs_path (ws @ [w])"
    using dir_abs_path_snoc dir_fixed [OF snoc.prems] snoc.prems by auto
  obtain r where r: "nearest_dir stat (abs_path ws) = Some r"
    "\<forall>root. r = Inr root \<longrightarrow> stat root = IsDir \<and> (\<exists>k. root = abs_path (take k ws))"
    using snoc by auto
  have up: "\<exists>k. root = abs_path (take k (ws @ [w]))" if some: "\<exists>k. root = abs_path (take k ws)" for root
  proof -
    obtain k where "root = abs_path (take k ws)" using some ..
    then show ?thesis by (intro exI [of _ "min k (length ws)"]) (simp add: min_def)
  qed
  have whole: "\<exists>k. abs_path (ws @ [w]) = abs_path (take k (ws @ [w]))"
    by (intro exI [of _ "Suc (length ws)"]) simp
  show ?case
    using r(2) up whole
    unfolding nearest_dir.simps [of stat "abs_path (ws @ [w])"] d if_not_P [OF ne] r(1)
    by (cases "stat (abs_path (ws @ [w]))") auto
qed

lemma index_any_literal:
  assumes "index_any s ''*?['' = Some i" and "CHR 0x5C \<notin> set s"
  shows "literal (take i s)"
  unfolding literal_def
proof
  fix c assume c: "c \<in> set (take i s)"
  then obtain j where "j < i" "c = s ! j" "j < length s" by (auto simp: in_set_conv_nth)
  then have "c \<notin> set ''*?[''" using index_any_Some [OF assms(1)] by blast
  moreover have "c \<in> set s" using c by (rule in_set_takeD)
  ultimately show "c \<noteq> CHR ''*'' \<and> c \<noteq> CHR ''?'' \<and> c \<noteq> CHR ''['' \<and> c \<noteq> CHR 0x5C" using assms(2) by auto
qed

lemma set_joined: "w \<in> set ws \<Longrightarrow> set w \<subseteq> set (joined ws)"
  by (induction ws rule: joined.induct) auto


definition sample_stat :: "go_string \<Rightarrow> stat" where
  "sample_stat p = (if p = ''/etc'' then IsDir else NotExist)"


end
