(* ===== verification/Templates.thy ===== *)
theory Templates
  imports Paths Lifecycle
begin

text \<open>
  The expansion of launches and actions in \<^verbatim>\<open>src/main.go\<close>: \<^verbatim>\<open>App.templateValues\<close> with the
  functions \<^verbatim>\<open>net.SplitHostPort\<close> and \<^verbatim>\<open>url.URL.String\<close> it calls, \<^verbatim>\<open>expandValue\<close>,
  \<^verbatim>\<open>App.expandCommand\<close> and \<^verbatim>\<open>App.expandLaunch\<close>.  The template language itself,
  \<^verbatim>\<open>text/template\<close>, is a parameter: a function from the values and a text to a result or the kind of
  its failure.
\<close>

subsection \<open>net.SplitHostPort\<close>

definition last_index :: "char \<Rightarrow> go_string \<Rightarrow> nat option" where
  "last_index c s = (case index_any (rev s) [c] of None \<Rightarrow> None | Some i \<Rightarrow> Some (length s - 1 - i))"

text \<open>Host and port of an address; \<open>None\<close> is any of its errors.\<close>

definition split_host_port :: "go_string \<Rightarrow> (go_string \<times> go_string) option" where
  "split_host_port s =
     (case last_index CHR '':'' s of
        None \<Rightarrow> None
      | Some i \<Rightarrow>
          if hd s = CHR ''['' then
            (case index_any s '']'' of
               None \<Rightarrow> None
             | Some fin \<Rightarrow>
                 if fin + 1 \<noteq> i \<or> CHR ''['' \<in> set (drop 1 s) \<or> CHR '']'' \<in> set (drop (fin + 1) s) then None
                 else Some (take (fin - 1) (tl s), drop (i + 1) s))
          else if CHR '':'' \<in> set (take i s) \<or> CHR ''['' \<in> set s \<or> CHR '']'' \<in> set s then None
          else Some (take i s, drop (i + 1) s))"

subsection \<open>url.URL.String\<close>

definition alnum :: "char \<Rightarrow> bool" where
  "alnum c \<longleftrightarrow> (let n = of_char c :: nat in
     (97 \<le> n \<and> n \<le> 122) \<or> (65 \<le> n \<and> n \<le> 90) \<or> (48 \<le> n \<and> n \<le> 57))"

definition hex_digit :: "nat \<Rightarrow> char" where
  "hex_digit n = ''0123456789ABCDEF'' ! n"

fun escape :: "go_string \<Rightarrow> go_string \<Rightarrow> go_string" where
  "escape safe [] = []"
| "escape safe (c # s) =
     (if alnum c \<or> c \<in> set safe then [c]
      else [CHR ''%'', hex_digit (of_char c div 16), hex_digit (of_char c mod 16)]) @ escape safe s"

text \<open>The bytes besides letters and digits that are kept in a host, and those kept in a path.\<close>

definition host_safe :: go_string where "host_safe = ''-_.~!$&'()*+,;=:[]<>'' @ [CHR 0x22]"
definition path_safe :: go_string where "path_safe = ''-_.~$&+,/:;=@''"

definition tcp_url :: "go_string \<Rightarrow> go_string" where
  "tcp_url host = ''tcp:'' @ (if host = [] then [] else ''//'' @ escape host_safe host)"

definition unix_url :: "go_string \<Rightarrow> go_string" where
  "unix_url p = ''unix://'' @ escape path_safe p"

subsection \<open>The values of a template\<close>

record endpoint =
  ep_network :: go_string
  ep_address :: go_string
  ep_path :: "go_string option"
  ep_host_port :: "(go_string \<times> go_string) option"
  ep_url :: go_string

record template_values =
  tv_name :: go_string
  tv_directory :: go_string
  tv_source :: go_string
  tv_env :: "(go_string \<times> go_string) list"
  tv_vars :: "(go_string \<times> go_string) list"
  tv_config :: yaml
  tv_runtime :: runtime
  tv_listen :: "endpoint option"

datatype values_error = BadListenAddress | NotMarshalled

text \<open>The environment entries \<^verbatim>\<open>key=value\<close>; a later one replaces an earlier one.\<close>

definition environment :: "go_string list \<Rightarrow> (go_string \<times> go_string) list" where
  "environment entries =
     fold (\<lambda>entry. case cut entry ''='' of (key, val, found) \<Rightarrow> AList.update key val) entries []"

definition endpoint_of :: "app \<Rightarrow> go_string \<Rightarrow> (values_error + endpoint option)" where
  "endpoint_of app addr =
     (let net = network (app_listen app)
      in if net = [] then Inr None
         else if net = ''unix'' then
           Inr (Some \<lparr>ep_network = net, ep_address = addr, ep_path = Some addr, ep_host_port = None,
             ep_url = unix_url (if prefix ''/'' addr then addr else slash # addr)\<rparr>)
         else case split_host_port addr of
                None \<Rightarrow> Inl BadListenAddress
              | Some hp \<Rightarrow> Inr (Some \<lparr>ep_network = net, ep_address = addr, ep_path = None,
                  ep_host_port = Some hp, ep_url = tcp_url addr\<rparr>))"

text \<open>
  \<^verbatim>\<open>App.templateValues\<close>.  An application that was not read from a file has no \<^verbatim>\<open>Values\<close>; the
  YAML encoder and decoder, \<open>marshal\<close>, then give the map of its fields.
\<close>

definition template_values_of :: "(app \<Rightarrow> yaml option) \<Rightarrow> go_string list \<Rightarrow> app \<Rightarrow> go_string
    \<Rightarrow> values_error + template_values" where
  "template_values_of marshal environ app addr =
     (case (if app_values app = YamlNull then marshal app else Some (app_values app)) of
        None \<Rightarrow> Inl NotMarshalled
      | Some config \<Rightarrow>
          and_then (endpoint_of app addr) (\<lambda>listen. Inr
            \<lparr>tv_name = app_name app, tv_directory = app_directory app, tv_source = app_source app,
             tv_env = environment environ, tv_vars = app_vars app, tv_config = config,
             tv_runtime = zero_runtime, tv_listen = listen\<rparr>))"

subsection \<open>Expansion\<close>

datatype template_failure = ParseFailure | ExecuteFailure

type_synonym template = "template_values \<Rightarrow> go_string \<Rightarrow> template_failure + go_string"

datatype expand_error =
    InvalidTemplate
  | CannotExpand
  | NulExpanded
  | DuplicateExpandedKey
  | EmptyExecutable
  | ValuesError values_error

definition expand_value :: "template \<Rightarrow> template_values \<Rightarrow> go_string \<Rightarrow> expand_error + go_string" where
  "expand_value template vals text =
     (if \<not> contains text ''{{'' then Inr text
      else case template vals text of
             Inl ParseFailure \<Rightarrow> Inl InvalidTemplate
           | Inl ExecuteFailure \<Rightarrow> Inl CannotExpand
           | Inr result \<Rightarrow> if CHR 0x00 \<in> set result then Inl NulExpanded else Inr result)"

fun expand_all :: "template \<Rightarrow> template_values \<Rightarrow> go_string list \<Rightarrow> expand_error + go_string list" where
  "expand_all template vals [] = Inr []"
| "expand_all template vals (text # texts) =
     and_then (expand_value template vals text) (\<lambda>t.
     and_then (expand_all template vals texts) (\<lambda>ts. Inr (t # ts)))"

text \<open>The values of a map, whose keys stay as they are.\<close>

fun expand_vals :: "template \<Rightarrow> template_values \<Rightarrow> (go_string \<times> go_string) list
    \<Rightarrow> expand_error + (go_string \<times> go_string) list" where
  "expand_vals template vals [] = Inr []"
| "expand_vals template vals ((key, text) # entries) =
     and_then (expand_value template vals text) (\<lambda>t.
     and_then (expand_vals template vals entries) (\<lambda>es. Inr ((key, t) # es)))"

definition expand_command :: "template \<Rightarrow> app \<Rightarrow> template_values
    \<Rightarrow> expand_error + (go_string list \<times> (go_string \<times> go_string) list)" where
  "expand_command template app vals =
     and_then (expand_all template vals (app_command app)) (\<lambda>command.
       if command = [] \<or> hd command = [] then Inl EmptyExecutable
       else
         (let command = (if contains_any (hd command) [slash, CHR 0x5C]
                         then resolve (app_directory app) (hd command) # tl command else command)
          in and_then (expand_vals template vals (app_env app)) (\<lambda>env. Inr (command, env))))"

definition expand_launch :: "template \<Rightarrow> (app \<Rightarrow> yaml option) \<Rightarrow> go_string list \<Rightarrow> app \<Rightarrow> go_string
    \<Rightarrow> expand_error + (go_string list \<times> (go_string \<times> go_string) list)" where
  "expand_launch template marshal environ app addr =
     (case template_values_of marshal environ app addr of
        Inl e \<Rightarrow> Inl (ValuesError e)
      | Inr vals \<Rightarrow> expand_command template app vals)"

subsection \<open>Facts about expansion\<close>

lemma expand_all_length: "expand_all template vals texts = Inr ts \<Longrightarrow> length ts = length texts"
  by (induction texts arbitrary: ts) (auto simp: and_then_Inr)

lemma expand_all_nth:
  "expand_all template vals texts = Inr ts \<Longrightarrow> list_all2 (\<lambda>text t. expand_value template vals text = Inr t) texts ts"
  by (induction texts arbitrary: ts) (auto simp: and_then_Inr)

lemma expand_vals_keys: "expand_vals template vals entries = Inr es \<Longrightarrow> map fst es = map fst entries"
  by (induction entries arbitrary: es) (auto simp: and_then_Inr)

lemma expand_value_plain: "\<not> contains text ''{{'' \<Longrightarrow> expand_value template vals text = Inr text"
  by (simp add: expand_value_def)

lemma expand_value_no_nul:
  "expand_value template vals text = Inr t \<Longrightarrow> CHR 0x00 \<notin> set text \<Longrightarrow> CHR 0x00 \<notin> set t"
  by (auto simp: expand_value_def split: if_splits sum.splits template_failure.splits)

text \<open>
  A launch has as many arguments as are configured, each the expansion of its own text and of
  nothing else, the executable resolved to a clean absolute path when it names one, and exactly
  the configured environment variables.
\<close>

theorem launch_arguments:
  assumes launch: "expand_launch template marshal environ app addr = Inr (command, env)"
    and vals: "template_values_of marshal environ app addr = Inr vals"
    and directory: "is_abs (app_directory app)"
  shows "length command = length (app_command app) \<and> command \<noteq> [] \<and> hd command \<noteq> []
    \<and> list_all2 (\<lambda>text t. expand_value template vals text = Inr t) (tl (app_command app)) (tl command)
    \<and> (slash \<in> set (hd command) \<longrightarrow> is_abs (hd command) \<and> clean (hd command) = hd command)
    \<and> list_all2 (\<lambda>entry out. fst out = fst entry \<and> expand_value template vals (snd entry) = Inr (snd out)) (app_env app) env"
proof -
  have e: "expand_command template app vals = Inr (command, env)"
    using launch vals by (simp add: expand_launch_def)
  then obtain parts where parts: "expand_all template vals (app_command app) = Inr parts"
    by (auto simp: expand_command_def and_then_Inr)
  have p: "expand_all template vals (app_command app) = Inr parts" "parts \<noteq> []" "hd parts \<noteq> []"
    using e parts by (auto simp: expand_command_def split: if_splits)
  define chosen where "chosen = (if contains_any (hd parts) [slash, CHR 0x5C]
      then resolve (app_directory app) (hd parts) # tl parts else parts)"
  have "and_then (expand_vals template vals (app_env app)) (\<lambda>env. Inr (chosen, env)) = Inr (command, env)"
    using e p by (simp add: expand_command_def chosen_def Let_def)
  then have env: "expand_vals template vals (app_env app) = Inr env" and command: "command = chosen"
    by (auto simp: and_then_Inr)
  note command = command [unfolded chosen_def]
  have all: "list_all2 (\<lambda>text t. expand_value template vals text = Inr t) (app_command app) parts"
    by (rule expand_all_nth [OF p(1)])
  have entries: "list_all2 (\<lambda>entry out. fst out = fst entry \<and> expand_value template vals (snd entry) = Inr (snd out)) es out"
    if "expand_vals template vals es = Inr out" for es out
    using that by (induction es arbitrary: out) (auto simp: and_then_Inr)
  have tl: "tl command = tl parts" using command by simp
  have "list_all2 (\<lambda>text t. expand_value template vals text = Inr t) (tl (app_command app)) (tl command)"
    unfolding tl using all by (cases "app_command app"; cases parts) auto
  moreover have "length command = length parts" using command p(2) by simp
  then have "length command = length (app_command app)" using expand_all_length [OF p(1)] by simp
  moreover have "hd command \<noteq> []" "command \<noteq> []" using command p resolve_nonempty by auto
  moreover have "is_abs (hd command) \<and> clean (hd command) = hd command" if "slash \<in> set (hd command)"
  proof -
    have "contains_any (hd parts) [slash, CHR 0x5C]"
      using that command by (auto simp: contains_any_def list_ex_iff split: if_splits)
    then show ?thesis using command is_abs_resolve [OF directory] resolve_clean [OF directory] by simp
  qed
  ultimately show ?thesis using entries [OF env] by blast
qed

definition sample_template :: template where
  "sample_template vals text = (if text = ''{{.name}} --now'' then Inr (tv_name vals @ '' --now'') else Inl ParseFailure)"

definition sample_launch :: app where
  "sample_launch = default_app\<lparr>app_name := ''web'', app_directory := ''/srv/web'',
     app_command := [''bin/../run'', ''{{.name}} --now''], app_env := [(''A'', ''1'')],
     app_values := YamlMap []\<rparr>"

lemma launch_arguments_witness:
  "expand_launch sample_template (\<lambda>_. None) [] sample_launch [] = Inr ([''/srv/web/run'', ''web --now''], [(''A'', ''1'')])
   \<and> is_abs ''/srv/web/run''"
proof -
  have "expand_launch sample_template (\<lambda>_. None) [] sample_launch [] = Inr ([''/srv/web/run'', ''web --now''], [(''A'', ''1'')])"
    by code_simp
  note launch = this
  then obtain vals where "template_values_of (\<lambda>_. None) [] sample_launch [] = Inr vals"
    by (auto simp: expand_launch_def split: sum.splits)
  moreover have "is_abs (app_directory sample_launch)" by code_simp
  ultimately show ?thesis using launch_arguments [OF launch] launch by simp
qed

end
