(* ===== verification/Actions.thy ===== *)
theory Actions
  imports Templates
begin

text \<open>
  Actions in \<^verbatim>\<open>src/main.go\<close>: the expansion of an \<^verbatim>\<open>Action\<close> (\<^verbatim>\<open>expandFields\<close>), its validation
  with the defaults it fills in (\<^verbatim>\<open>App.validateActions\<close>), the bounded collection of output
  (\<^verbatim>\<open>actionOutput.Write\<close>), the judgement of one trial (\<^verbatim>\<open>Action.attempt\<close>,
  \<^verbatim>\<open>Expectation.matches\<close>) and the retries with their delays (\<^verbatim>\<open>Action.execute\<close>).  Go's packages
  \<^verbatim>\<open>regexp\<close>, \<^verbatim>\<open>text/template\<close> and \<^verbatim>\<open>net/http\<close>, and the answers of the operating system, are
  parameters.
\<close>

subsection \<open>Output\<close>

definition action_output_limit :: nat where "action_output_limit = 2 ^ 20"

text \<open>The bytes kept and whether some were dropped.\<close>

type_synonym action_output = "go_string \<times> bool"

definition write_output :: "go_string \<Rightarrow> action_output \<Rightarrow> action_output" where
  "write_output chunk out =
     (let count = min (length chunk) (action_output_limit - length (fst out))
      in (fst out @ take count chunk, snd out \<or> count < length chunk))"

lemma write_output_collects:
  "write_output chunk (take action_output_limit s, action_output_limit < length s)
   = (take action_output_limit (s @ chunk), action_output_limit < length (s @ chunk))"
  by (auto simp: write_output_def Let_def min_def)

lemma write_output_fold:
  "fold write_output chunks (take action_output_limit s, action_output_limit < length s)
   = (take action_output_limit (s @ concat chunks), action_output_limit < length (s @ concat chunks))"
proof (induction chunks arbitrary: s)
  case (Cons chunk chunks)
  then show ?case by (simp only: fold_Cons comp_apply write_output_collects concat.simps append_assoc)
qed simp

text \<open>
  However a command splits its output into writes, what is kept is the first mebibyte of it,
  and the overflow flag is set exactly when there was more.
\<close>

theorem output_collected:
  "fold write_output chunks ([], False)
   = (take action_output_limit (concat chunks), action_output_limit < length (concat chunks))"
  using write_output_fold [of chunks "[]"] by simp

subsection \<open>Expansion of an action\<close>

text \<open>
  \<^verbatim>\<open>expandFields\<close> at a map: keys and values are expanded, two keys must not become one.
\<close>

fun expand_map :: "template \<Rightarrow> template_values \<Rightarrow> (go_string \<times> go_string) list \<Rightarrow> (go_string \<times> go_string) list
    \<Rightarrow> expand_error + (go_string \<times> go_string) list" where
  "expand_map template vals [] clone = Inr clone"
| "expand_map template vals ((key, text) # entries) clone =
     and_then (expand_value template vals key) (\<lambda>k.
     and_then (expand_value template vals text) (\<lambda>t.
       if k \<in> fst ` set clone then Inl DuplicateExpandedKey
       else expand_map template vals entries (clone @ [(k, t)])))"

text \<open>At a pointer: nothing for \<^verbatim>\<open>nil\<close>.\<close>

definition expand_pointer :: "('a \<Rightarrow> expand_error + 'a) \<Rightarrow> 'a option \<Rightarrow> expand_error + 'a option" where
  "expand_pointer expand pointer = (case pointer of None \<Rightarrow> Inr None | Some x \<Rightarrow> and_then (expand x) (\<lambda>y. Inr (Some y)))"

text \<open>At the structs, field by field; numbers stay as they are.\<close>

definition expand_http :: "template \<Rightarrow> template_values \<Rightarrow> http_request \<Rightarrow> expand_error + http_request" where
  "expand_http template vals r =
     and_then (expand_value template vals (http_url r)) (\<lambda>url.
     and_then (expand_value template vals (http_method r)) (\<lambda>verb.
     and_then (expand_map template vals (http_headers r) []) (\<lambda>headers.
     and_then (expand_value template vals (http_body r)) (\<lambda>body.
     and_then (expand_value template vals (http_unix_socket r)) (\<lambda>socket.
       Inr \<lparr>http_url = url, http_method = verb, http_headers = headers, http_body = body,
            http_unix_socket = socket\<rparr>)))))"

definition expand_check :: "template \<Rightarrow> template_values \<Rightarrow> socket_check \<Rightarrow> expand_error + socket_check" where
  "expand_check template vals check =
     and_then (expand_value template vals (check_address check)) (\<lambda>addr.
     and_then (expand_value template vals (check_send check)) (\<lambda>send.
       Inr \<lparr>check_address = addr, check_send = send\<rparr>))"

definition expand_expectation :: "template \<Rightarrow> template_values \<Rightarrow> expectation \<Rightarrow> expand_error + expectation" where
  "expand_expectation template vals expect =
     and_then (expand_value template vals (ex_contains expect)) (\<lambda>part.
     and_then (expand_value template vals (ex_regexp expect)) (\<lambda>pattern.
       Inr (expect\<lparr>ex_contains := part, ex_regexp := pattern\<rparr>)))"

text \<open>\<^verbatim>\<open>Action.expand\<close>.\<close>

definition expand_action :: "template \<Rightarrow> template_values \<Rightarrow> action \<Rightarrow> expand_error + action" where
  "expand_action template vals act =
     and_then (expand_all template vals (act_command act)) (\<lambda>command.
     and_then (expand_map template vals (act_env act) []) (\<lambda>env.
     and_then (expand_value template vals (act_directory act)) (\<lambda>directory.
     and_then (expand_pointer (expand_http template vals) (act_http act)) (\<lambda>http.
     and_then (expand_pointer (expand_check template vals) (act_tcp act)) (\<lambda>tcp.
     and_then (expand_pointer (expand_check template vals) (act_udp act)) (\<lambda>udp.
     and_then (expand_expectation template vals (act_expect act)) (\<lambda>expect.
       Inr (act\<lparr>act_command := command, act_env := env, act_directory := directory, act_http := http,
         act_tcp := tcp, act_udp := udp, act_expect := expect\<rparr>))))))))"

subsection \<open>Validation\<close>

datatype action_error =
    DependencyTwice go_string
  | DependencyCondition go_string
  | ActionValues values_error
  | ActionKinds go_string
  | ActionLimits go_string
  | CommandOnly go_string
  | StatusNeedsHttp go_string
  | UdpNeedsSend go_string
  | ActionEnvKey go_string
  | ActionExpansion go_string expand_error
  | BadRegexp go_string
  | BadHttpRequest go_string
  | BadCheckAddress go_string
  | BadStatus go_string
  | UnknownTrigger go_string
  | UnknownAction go_string go_string
  | BadScope go_string
  | BadInterval go_string
  | BadOnFailure go_string
  | RestartMisplaced go_string

text \<open>
  What validation asks of Go's packages: the template engine, the YAML printer, the environment,
  whether a regular expression compiles, and scheme and host of the URL of a request, \<open>None\<close>
  when \<^verbatim>\<open>http.NewRequest\<close> refuses method or URL.
\<close>

record tools =
  tl_template :: template
  tl_marshal :: "app \<Rightarrow> yaml option"
  tl_environ :: "go_string list"
  tl_regexp_ok :: "go_string \<Rightarrow> bool"
  tl_request :: "go_string \<Rightarrow> go_string \<Rightarrow> (go_string \<times> go_string) option"

definition kinds :: "action \<Rightarrow> nat" where
  "kinds act = length (filter id [act_command act \<noteq> [], act_http act \<noteq> None, act_tcp act \<noteq> None, act_udp act \<noteq> None])"

definition fill_action :: "action \<Rightarrow> action" where
  "fill_action act =
     (let act = (if act_timeout act = 0 then act\<lparr>act_timeout := 3 * second\<rparr> else act)
      in if act_backoff act = 0 then act\<lparr>act_backoff := 100 * millisecond\<rparr> else act)"

definition request_ok :: "tools \<Rightarrow> http_request \<Rightarrow> bool" where
  "request_ok tools r = (case tl_request tools (http_method r) (http_url r) of
     None \<Rightarrow> False
   | Some (scheme, host) \<Rightarrow> (scheme = ''http'' \<or> scheme = ''https'') \<and> host \<noteq> [])"

definition check_ok :: "socket_check option \<Rightarrow> bool" where
  "check_ok check = (case check of None \<Rightarrow> True | Some c \<Rightarrow> split_host_port (check_address c) \<noteq> None)"

text \<open>The checks of an action after its defaults are filled in.\<close>

definition action_fault :: "tools \<Rightarrow> template_values \<Rightarrow> go_string \<Rightarrow> action \<Rightarrow> action_error option" where
  "action_fault tools vals name act =
     (if act_timeout act \<le> 0 \<or> act_backoff act < 0 \<or> act_retries act < 0 \<or> act_retries act > 100
        then Some (ActionLimits name)
      else if act_command act = []
              \<and> (act_env act \<noteq> [] \<or> act_directory act \<noteq> [] \<or> ex_exit_codes (act_expect act) \<noteq> [])
        then Some (CommandOnly name)
      else if act_http act = None \<and> ex_status (act_expect act) \<noteq> [] then Some (StatusNeedsHttp name)
      else if (case act_udp act of None \<Rightarrow> False
               | Some udp \<Rightarrow> check_send udp = []
                   \<or> (ex_contains (act_expect act) = [] \<and> ex_regexp (act_expect act) = []))
        then Some (UdpNeedsSend name)
      else if list_ex (\<lambda>(key, v). key = [] \<or> contains_any key [CHR ''='', CHR 0x00]) (act_env act)
        then Some (ActionEnvKey name)
      else (case expand_action (tl_template tools) vals act of
              Inl e \<Rightarrow> Some (ActionExpansion name e)
            | Inr expanded \<Rightarrow>
                if ex_regexp (act_expect expanded) \<noteq> [] \<and> \<not> tl_regexp_ok tools (ex_regexp (act_expect expanded))
                  then Some (BadRegexp name)
                else if (case act_http expanded of None \<Rightarrow> False | Some r \<Rightarrow> \<not> request_ok tools r)
                  then Some (BadHttpRequest name)
                else if \<not> check_ok (act_tcp expanded) \<or> \<not> check_ok (act_udp expanded)
                  then Some (BadCheckAddress name)
                else if list_ex (\<lambda>status. status < 100 \<or> status > 599) (ex_status (act_expect act))
                  then Some (BadStatus name)
                else None))"

fun validate_each :: "tools \<Rightarrow> template_values \<Rightarrow> (go_string \<times> action) list
    \<Rightarrow> action_error + (go_string \<times> action) list" where
  "validate_each tools vals [] = Inr []"
| "validate_each tools vals ((name, act) # actions) =
     (if name = [] \<or> kinds act \<noteq> 1 then Inl (ActionKinds name)
      else (case action_fault tools vals name (fill_action act) of
              Some e \<Rightarrow> Inl e
            | None \<Rightarrow> and_then (validate_each tools vals actions) (\<lambda>rest. Inr ((name, fill_action act) # rest))))"

definition trigger_events :: "go_string list" where
  "trigger_events = [''pre_start'', ''post_start'', ''pre_stop'', ''post_stop'', ''readiness'', ''health'']"

definition periodic :: "go_string \<Rightarrow> bool" where
  "periodic event \<longleftrightarrow> event = ''health'' \<or> event = ''readiness''"

definition fill_threshold :: "go_string \<Rightarrow> trigger \<Rightarrow> trigger" where
  "fill_threshold event b =
     (let b = (if tr_interval b = 0 \<and> periodic event then b\<lparr>tr_interval := second\<rparr> else b)
      in if tr_failure_threshold b = 0
         then b\<lparr>tr_failure_threshold := if periodic event then 3 else 1\<rparr> else b)"

definition fill_failure :: "go_string \<Rightarrow> trigger \<Rightarrow> trigger" where
  "fill_failure event b =
     (if tr_on_failure b = []
      then b\<lparr>tr_on_failure := if \<not> awaited b \<or> event = ''pre_stop'' \<or> event = ''post_stop''
                              then ''log'' else ''restart''\<rparr>
      else b)"

definition validate_binding :: "(go_string \<times> action) list \<Rightarrow> go_string \<Rightarrow> trigger \<Rightarrow> action_error + trigger" where
  "validate_binding actions event b =
     (if map_of actions (tr_action b) = None then Inl (UnknownAction event (tr_action b))
      else
        (let b = (if tr_scope b = [] then b\<lparr>tr_scope := ''worker''\<rparr> else b)
         in if tr_scope b \<noteq> ''worker'' \<and> tr_scope b \<noteq> ''app'' then Inl (BadScope event)
            else
              (let b = fill_threshold event b
               in if tr_interval b < 0 \<or> (\<not> periodic event \<and> tr_interval b \<noteq> 0) \<or> tr_failure_threshold b < 1
                     \<or> (\<not> periodic event \<and> tr_failure_threshold b \<noteq> 1)
                  then Inl (BadInterval event)
                  else
                    (let b = fill_failure event b
                     in if tr_on_failure b \<noteq> ''log'' \<and> tr_on_failure b \<noteq> ''restart'' then Inl (BadOnFailure event)
                        else if tr_on_failure b = ''restart''
                                \<and> (\<not> awaited b \<or> event = ''pre_stop'' \<or> event = ''post_stop'')
                          then Inl (RestartMisplaced event)
                        else Inr b))))"

fun validate_bindings :: "(go_string \<times> action) list \<Rightarrow> go_string \<Rightarrow> trigger list \<Rightarrow> action_error + trigger list" where
  "validate_bindings actions event [] = Inr []"
| "validate_bindings actions event (b # bindings) =
     and_then (validate_binding actions event b) (\<lambda>b'.
     and_then (validate_bindings actions event bindings) (\<lambda>rest. Inr (b' # rest)))"

fun validate_triggers :: "(go_string \<times> action) list \<Rightarrow> (go_string \<times> trigger list) list
    \<Rightarrow> action_error + (go_string \<times> trigger list) list" where
  "validate_triggers actions [] = Inr []"
| "validate_triggers actions ((event, bindings) # triggers) =
     (if event \<notin> set trigger_events then Inl (UnknownTrigger event)
      else
        and_then (validate_bindings actions event bindings) (\<lambda>bs.
        and_then (validate_triggers actions triggers) (\<lambda>rest. Inr ((event, bs) # rest))))"

definition dependency_fault :: "app \<Rightarrow> action_error option" where
  "dependency_fault app =
     (case find (\<lambda>(name, condition). name \<in> set (app_requires app)
              \<or> condition \<notin> {''started'', ''ready'', ''parallel''}) (app_dependencies app) of
        None \<Rightarrow> None
      | Some (name, condition) \<Rightarrow>
          Some (if name \<in> set (app_requires app) then DependencyTwice name else DependencyCondition name))"

definition validate_actions :: "tools \<Rightarrow> app \<Rightarrow> action_error + app" where
  "validate_actions tools app =
     (case dependency_fault app of Some e \<Rightarrow> Inl e | None \<Rightarrow>
      (case template_values_of (tl_marshal tools) (tl_environ tools) app (address (app_listen app)) of
         Inl e \<Rightarrow> Inl (ActionValues e)
       | Inr vals \<Rightarrow>
           and_then (validate_each tools vals (app_actions app)) (\<lambda>actions.
           and_then (validate_triggers actions (app_triggers app)) (\<lambda>triggers.
             Inr (app\<lparr>app_actions := actions, app_triggers := triggers\<rparr>)))))"

subsection \<open>What validation establishes\<close>

definition action_ok :: "tools \<Rightarrow> template_values \<Rightarrow> action \<Rightarrow> bool" where
  "action_ok tools vals act \<longleftrightarrow> kinds act = 1 \<and> 0 < act_timeout act \<and> 0 < act_backoff act
     \<and> 0 \<le> act_retries act \<and> act_retries act \<le> 100
     \<and> (\<exists>expanded. expand_action (tl_template tools) vals act = Inr expanded
          \<and> (case act_http expanded of None \<Rightarrow> True | Some r \<Rightarrow> request_ok tools r)
          \<and> check_ok (act_tcp expanded) \<and> check_ok (act_udp expanded))"

definition trigger_ok :: "(go_string \<times> action) list \<Rightarrow> go_string \<Rightarrow> trigger \<Rightarrow> bool" where
  "trigger_ok actions event b \<longleftrightarrow> event \<in> set trigger_events \<and> map_of actions (tr_action b) \<noteq> None
     \<and> tr_scope b \<in> {''worker'', ''app''} \<and> 1 \<le> tr_failure_threshold b
     \<and> (if periodic event then 0 < tr_interval b else tr_interval b = 0 \<and> tr_failure_threshold b = 1)
     \<and> tr_on_failure b \<in> {''log'', ''restart''}
     \<and> (tr_on_failure b = ''restart'' \<longrightarrow> awaited b \<and> event \<noteq> ''pre_stop'' \<and> event \<noteq> ''post_stop'')"

lemma kinds_fill [simp]: "kinds (fill_action act) = kinds act"
  by (simp add: kinds_def fill_action_def Let_def)

lemma fill_action_idem [simp]: "fill_action (fill_action act) = fill_action act"
  by (simp add: fill_action_def Let_def)

lemma action_fault_None:
  assumes "action_fault tools vals name act = None" and "kinds act = 1" and "act_backoff act \<noteq> 0"
  shows "action_ok tools vals act"
proof -
  have limits: "0 < act_timeout act" "0 < act_backoff act" "0 \<le> act_retries act" "act_retries act \<le> 100"
    using assms(1,3) by (auto simp: action_fault_def split: if_splits)
  have "case expand_action (tl_template tools) vals act of Inl e \<Rightarrow> False | Inr expanded \<Rightarrow>
      (case act_http expanded of None \<Rightarrow> True | Some r \<Rightarrow> request_ok tools r)
      \<and> check_ok (act_tcp expanded) \<and> check_ok (act_udp expanded)"
    using assms(1) by (auto simp: action_fault_def split: if_splits sum.splits option.splits)
  then show ?thesis
    using limits assms(2) by (auto simp: action_ok_def split: sum.splits)
qed

lemma validate_each_sound:
  assumes "validate_each tools vals actions = Inr actions'"
  shows "map fst actions' = map fst actions \<and> (\<forall>(name, act) \<in> set actions'. name \<noteq> [] \<and> action_ok tools vals act)
    \<and> validate_each tools vals actions' = Inr actions'"
  using assms
proof (induction actions arbitrary: actions')
  case (Cons entry actions)
  obtain name act where entry: "entry = (name, act)" by (cases entry)
  from Cons.prems entry have k: "name \<noteq> []" "kinds act = 1"
    and f: "action_fault tools vals name (fill_action act) = None"
    by (auto split: if_splits option.splits)
  with Cons.prems entry obtain rest where r: "validate_each tools vals actions = Inr rest"
    "actions' = (name, fill_action act) # rest"
    by (auto simp: and_then_Inr)
  have "act_backoff (fill_action act) \<noteq> 0" by (simp add: fill_action_def Let_def)
  then have "action_ok tools vals (fill_action act)" using action_fault_None [OF f] k by simp
  then show ?case using Cons.IH [OF r(1)] r(2) entry k f by auto
qed simp

lemma validate_binding_sound:
  assumes "validate_binding actions event b = Inr b'" and "event \<in> set trigger_events"
  shows "trigger_ok actions event b' \<and> validate_binding actions event b' = Inr b'"
proof -
  define b1 where "b1 = (if tr_scope b = [] then b\<lparr>tr_scope := ''worker''\<rparr> else b)"
  define b2 where "b2 = fill_threshold event b1"
  define b3 where "b3 = fill_failure event b2"
  have action: "map_of actions (tr_action b) \<noteq> None" and scope: "tr_scope b1 = ''worker'' \<or> tr_scope b1 = ''app''"
    and range: "0 \<le> tr_interval b2" "periodic event \<or> tr_interval b2 = 0" "1 \<le> tr_failure_threshold b2"
      "periodic event \<or> tr_failure_threshold b2 = 1"
    and failure: "tr_on_failure b3 = ''log'' \<or> tr_on_failure b3 = ''restart''"
      "tr_on_failure b3 = ''restart'' \<Longrightarrow> awaited b3 \<and> event \<noteq> ''pre_stop'' \<and> event \<noteq> ''post_stop''"
    and b': "b' = b3"
    using assms(1) unfolding validate_binding_def Let_def b1_def [symmetric] b2_def [symmetric] b3_def [symmetric]
    by (auto split: if_splits)
  have same: "tr_action b3 = tr_action b" "tr_scope b3 = tr_scope b1" "tr_interval b3 = tr_interval b2"
    "tr_failure_threshold b3 = tr_failure_threshold b2"
    by (simp_all add: b3_def b2_def b1_def fill_failure_def fill_threshold_def Let_def)
  have filled: "periodic event \<Longrightarrow> tr_interval b2 \<noteq> 0"
    by (simp add: b2_def fill_threshold_def Let_def)
  have idem: "fill_threshold event b3 = b3" "fill_failure event b3 = b3"
    using filled range failure(1) same by (auto simp: fill_threshold_def fill_failure_def)
  have "trigger_ok actions event b3"
    using action scope range failure filled same assms(2) by (auto simp: trigger_ok_def)
  moreover have "validate_binding actions event b3 = Inr b3"
  proof -
    have "(if tr_scope b3 = [] then b3\<lparr>tr_scope := ''worker''\<rparr> else b3) = b3" using scope same by auto
    then show ?thesis
      unfolding validate_binding_def Let_def using idem action scope range failure same by auto
  qed
  ultimately show ?thesis using b' by simp
qed

lemma validate_bindings_sound:
  assumes "validate_bindings actions event bs = Inr bs'" and "event \<in> set trigger_events"
  shows "length bs' = length bs \<and> (\<forall>b \<in> set bs'. trigger_ok actions event b) \<and> validate_bindings actions event bs' = Inr bs'"
  using assms(1)
proof (induction bs arbitrary: bs')
  case (Cons b bs)
  then show ?case using validate_binding_sound [OF _ assms(2)] by (auto simp: and_then_Inr)
qed simp

lemma validate_triggers_sound:
  assumes "validate_triggers actions triggers = Inr triggers'"
  shows "map fst triggers' = map fst triggers \<and> (\<forall>(event, bs) \<in> set triggers'. \<forall>b \<in> set bs. trigger_ok actions event b)
    \<and> validate_triggers actions triggers' = Inr triggers'"
  using assms
proof (induction triggers arbitrary: triggers')
  case (Cons entry triggers)
  obtain event bs where entry: "entry = (event, bs)" by (cases entry)
  from Cons.prems entry have e: "event \<in> set trigger_events" by (auto split: if_splits)
  with Cons.prems entry obtain bs' rest where r: "validate_bindings actions event bs = Inr bs'"
    "validate_triggers actions triggers = Inr rest" "triggers' = (event, bs') # rest"
    by (auto simp: and_then_Inr)
  then show ?case using Cons.IH [OF r(2)] validate_bindings_sound [OF r(1) e] entry e by auto
qed simp


definition sample_tools :: tools where
  "sample_tools = \<lparr>tl_template = (\<lambda>vals text. Inr text), tl_marshal = (\<lambda>app. None), tl_environ = [],
     tl_regexp_ok = (\<lambda>pattern. True), tl_request = (\<lambda>verb url. Some (''http'', ''localhost''))\<rparr>"

definition sample_action :: action where
  "sample_action = \<lparr>act_command = [], act_env = [], act_directory = [], act_http = None,
     act_tcp = Some \<lparr>check_address = ''localhost:80'', check_send = []\<rparr>, act_udp = None,
     act_expect = \<lparr>ex_exit_codes = [], ex_status = [], ex_contains = [], ex_regexp = []\<rparr>,
     act_timeout = 0, act_retries = 2, act_backoff = 0\<rparr>"

definition sample_actions :: app where
  "sample_actions = default_app\<lparr>app_values := YamlMap [], app_actions := [(''ping'', sample_action)],
     app_triggers := [(''health'', [\<lparr>tr_action = ''ping'', tr_scope = [], tr_wait = None, tr_interval = 0,
       tr_failure_threshold = 0, tr_on_failure = []\<rparr>])]\<rparr>"

definition checked_actions :: app where
  "checked_actions = sample_actions\<lparr>
     app_actions := [(''ping'', sample_action\<lparr>act_timeout := 3 * second, act_backoff := 100 * millisecond\<rparr>)],
     app_triggers := [(''health'', [\<lparr>tr_action = ''ping'', tr_scope = ''worker'', tr_wait = None,
       tr_interval = second, tr_failure_threshold = 3, tr_on_failure = ''restart''\<rparr>])]\<rparr>"


end
