(* ===== verification/Trials.thy ===== *)
theory Trials
  imports Actions
begin

text \<open>
  Running an action in \<^verbatim>\<open>src/main.go\<close>: \<^verbatim>\<open>Expectation.matches\<close>, the judgement of one trial
  (\<^verbatim>\<open>Action.attempt\<close>) and the retries with their delays (\<^verbatim>\<open>Action.execute\<close>).  What the operating
  system, the network and the clock answer is an argument.
\<close>

subsection \<open>Expectations\<close>

text \<open>Go's \<^verbatim>\<open>regexp.Match\<close>: \<open>None\<close> for an expression that does not compile.\<close>

type_synonym regexp = "go_string \<Rightarrow> go_string \<Rightarrow> bool option"

definition expect_matches :: "regexp \<Rightarrow> expectation \<Rightarrow> go_string \<Rightarrow> bool" where
  "expect_matches regexp expect text \<longleftrightarrow> contains text (ex_contains expect)
     \<and> (ex_regexp expect = [] \<or> regexp (ex_regexp expect) text = Some True)"

subsection \<open>One trial\<close>

datatype trial_error =
    ExpansionError expand_error
  | IdentityUnavailable
  | CommandNotStarted
  | CleanupFailed
  | ContextEnded
  | CommandIncomplete
  | UnexpectedExit int
  | OutputTooLong
  | StdoutMismatch
  | InvalidRequest
  | RequestFailed
  | UnexpectedStatus int
  | ReadFailed
  | ResponseTooLong
  | BodyMismatch
  | ConnectFailed
  | SendFailed
  | ResponseMismatch
  | NilCheck

text \<open>
  How the process of a command ends: \<open>Exited\<close> when \<^verbatim>\<open>Wait\<close> gives no error or an
  \<^verbatim>\<open>exec.ExitError\<close>, \<open>NotWaited\<close> for another error.
\<close>

datatype waited = Exited int | NotWaited

record command_world =
  cw_identity_ok :: bool
  cw_start_ok :: bool
  cw_finished_first :: bool
  cw_waited :: waited
  cw_cleanup_ok :: bool
  cw_context_ended :: bool
  cw_writes :: "go_string list"

text \<open>What a command does to the processes of the machine.\<close>

datatype job_effect = JobStarted | JobKilled | JobClosed

text \<open>What a command that has run and been closed is worth.\<close>

definition command_verdict :: "regexp \<Rightarrow> command_world \<Rightarrow> action \<Rightarrow> trial_error option" where
  "command_verdict regexp w act =
     (let output = fold write_output (cw_writes w) ([], False);
          codes = (if ex_exit_codes (act_expect act) = [] then [0] else ex_exit_codes (act_expect act))
      in if \<not> cw_cleanup_ok w then Some CleanupFailed
         else if cw_context_ended w \<or> \<not> cw_finished_first w then Some ContextEnded
         else (case cw_waited w of
                 NotWaited \<Rightarrow> Some CommandIncomplete
               | Exited code \<Rightarrow>
                   if code \<notin> set codes then Some (UnexpectedExit code)
                   else if snd output then Some OutputTooLong
                   else if \<not> expect_matches regexp (act_expect act) (fst output) then Some StdoutMismatch
                   else None))"

text \<open>The branch of \<^verbatim>\<open>Action.attempt\<close> for a command.\<close>

definition attempt_command :: "regexp \<Rightarrow> template \<Rightarrow> command_world \<Rightarrow> app \<Rightarrow> template_values \<Rightarrow> action
    \<Rightarrow> trial_error option \<times> job_effect list" where
  "attempt_command regexp template w app vals act =
     (case expand_command template app vals of Inl e \<Rightarrow> (Some (ExpansionError e), []) | Inr _ \<Rightarrow>
      if \<not> cw_identity_ok w then (Some IdentityUnavailable, [])
      else if \<not> cw_start_ok w then (Some CommandNotStarted, [])
      else (command_verdict regexp w act,
            [JobStarted] @ (if cw_finished_first w then [] else [JobKilled]) @ [JobClosed]))"

text \<open>
  The answer to an HTTP request: status, the bytes of the body, and whether reading fails behind
  them; \<open>None\<close> when the request fails.
\<close>

record http_answer =
  ha_status :: int
  ha_body :: go_string
  ha_fails :: bool

definition attempt_http :: "regexp \<Rightarrow> bool \<Rightarrow> http_answer option \<Rightarrow> action \<Rightarrow> trial_error option" where
  "attempt_http regexp made answer act =
     (if \<not> made then Some InvalidRequest
      else case answer of
        None \<Rightarrow> Some RequestFailed
      | Some response \<Rightarrow>
          (let expected = ex_status (act_expect act); status = ha_status response;
               text = take (action_output_limit + 1) (ha_body response)
           in if expected \<noteq> [] \<and> status \<notin> set expected \<or> expected = [] \<and> (status < 200 \<or> status \<ge> 300)
                then Some (UnexpectedStatus status)
              else if ha_fails response \<and> length (ha_body response) \<le> action_output_limit then Some ReadFailed
              else if length text > action_output_limit then Some ResponseTooLong
              else if \<not> expect_matches regexp (act_expect act) text then Some BodyMismatch
              else None))"

text \<open>
  The loop that reads a response: the results of the successive calls of \<^verbatim>\<open>Read\<close>, each some bytes
  and whether there is an error.  When no more data comes, the deadline of the connection ends
  the last call with an error.
\<close>

fun read_response :: "regexp \<Rightarrow> bool \<Rightarrow> expectation \<Rightarrow> (go_string \<times> bool) list \<Rightarrow> go_string \<Rightarrow> trial_error option" where
  "read_response regexp udp expect reads text =
     (if length text > action_output_limit then Some ResponseTooLong
      else case reads of
        [] \<Rightarrow> if expect_matches regexp expect text then None else Some ResponseMismatch
      | (chunk, failed) # rest \<Rightarrow>
          (let text = text @ chunk
           in if length text > action_output_limit then Some ResponseTooLong
              else if expect_matches regexp expect text then None
              else if failed \<or> udp then Some ResponseMismatch
              else read_response regexp udp expect rest text))"

declare read_response.simps [simp del]

record network_world =
  nw_connect_ok :: bool
  nw_send_ok :: bool
  nw_reads :: "(go_string \<times> bool) list"

definition attempt_network :: "regexp \<Rightarrow> network_world \<Rightarrow> action \<Rightarrow> trial_error option" where
  "attempt_network regexp w act =
     (case (if act_udp act \<noteq> None then act_udp act else act_tcp act) of
        None \<Rightarrow> Some NilCheck
      | Some check \<Rightarrow>
          if \<not> nw_connect_ok w then Some ConnectFailed
          else if check_send check \<noteq> [] \<and> \<not> nw_send_ok w then Some SendFailed
          else if ex_contains (act_expect act) = [] \<and> ex_regexp (act_expect act) = [] then None
          else read_response regexp (act_udp act \<noteq> None) (act_expect act) (nw_reads w) [])"

record trial_world =
  tw_command :: command_world
  tw_request_ok :: bool
  tw_http :: "http_answer option"
  tw_network :: network_world

definition attempt :: "regexp \<Rightarrow> template \<Rightarrow> trial_world \<Rightarrow> app \<Rightarrow> template_values \<Rightarrow> action
    \<Rightarrow> trial_error option \<times> job_effect list" where
  "attempt regexp template w app vals act =
     (if act_command act \<noteq> [] then attempt_command regexp template (tw_command w) app vals act
      else if act_http act \<noteq> None then (attempt_http regexp (tw_request_ok w) (tw_http w) act, [])
      else (attempt_network regexp (tw_network w) act, []))"

subsection \<open>Retries\<close>

text \<open>The delay after a failed trial, in Go's 64-bit arithmetic.\<close>

definition retry_delay :: "duration \<Rightarrow> nat \<Rightarrow> duration" where
  "retry_delay pause n = min (wrap64 (min pause (30 * second) * 2 ^ min n 10)) (30 * second)"

datatype execute_step = Tried nat "job_effect list" | Slept duration

datatype execute_error = NotExpanded expand_error | TrialError trial_error | Cancelled

text \<open>
  The clock and the context of an action as its trials see them: whether the context has ended
  before trial \<open>n\<close> and whether it ends during the delay behind it.
\<close>

record execute_world =
  xw_trial :: "nat \<Rightarrow> trial_world"
  xw_ended :: "nat \<Rightarrow> bool"
  xw_ends_waiting :: "nat \<Rightarrow> bool"

fun trials :: "(nat \<Rightarrow> trial_error option \<times> job_effect list) \<Rightarrow> execute_world \<Rightarrow> duration \<Rightarrow> nat \<Rightarrow> nat
    \<Rightarrow> execute_error option \<times> execute_step list" where
  "trials trial w pause remaining n =
     (if xw_ended w n then (Some Cancelled, [])
      else case trial n of
        (None, effects) \<Rightarrow> (None, [Tried n effects])
      | (Some e, effects) \<Rightarrow>
          (case remaining of
             0 \<Rightarrow> (Some (TrialError e), [Tried n effects])
           | Suc rest \<Rightarrow>
               if xw_ends_waiting w n then (Some Cancelled, [Tried n effects])
               else (case trials trial w pause rest (Suc n) of
                       (result, steps) \<Rightarrow> (result, Tried n effects # Slept (retry_delay pause n) # steps))))"

declare trials.simps [simp del]

text \<open>\<^verbatim>\<open>Action.execute\<close>; a negative number of retries runs no trial.\<close>

definition execute :: "regexp \<Rightarrow> template \<Rightarrow> execute_world \<Rightarrow> app \<Rightarrow> template_values \<Rightarrow> action
    \<Rightarrow> execute_error option \<times> execute_step list" where
  "execute regexp template w app vals act =
     (case expand_action template vals act of
        Inl e \<Rightarrow> (Some (NotExpanded e), [])
      | Inr expanded \<Rightarrow>
          if act_retries act < 0 then (None, [])
          else trials (\<lambda>n. attempt regexp template (xw_trial w n) app vals expanded) w
                 (act_backoff act) (nat (act_retries act)) 0)"

subsection \<open>When a trial succeeds\<close>

text \<open>
  C33: A command succeeds exactly when it could be started, ended in time with an expected exit code
  and wrote at most a mebibyte that meets the expectation, however the writes were split; a
  started command is closed on every path, and killed exactly when its time ran out first.
\<close>

theorem command_trial_exact:
  assumes "attempt_command regexp template w app vals act = (result, effects)"
  shows "(result = None \<longleftrightarrow>
      (\<exists>launch. expand_command template app vals = Inr launch) \<and> cw_identity_ok w \<and> cw_start_ok w \<and> cw_cleanup_ok w
      \<and> cw_finished_first w \<and> \<not> cw_context_ended w
      \<and> (\<exists>code. cw_waited w = Exited code \<and>
           code \<in> (if ex_exit_codes (act_expect act) = [] then {0} else set (ex_exit_codes (act_expect act))))
      \<and> length (concat (cw_writes w)) \<le> action_output_limit
      \<and> expect_matches regexp (act_expect act) (concat (cw_writes w)))
    \<and> (JobStarted \<in> set effects \<longrightarrow> last effects = JobClosed \<and> (JobKilled \<in> set effects \<longleftrightarrow> \<not> cw_finished_first w))
    \<and> (JobStarted \<notin> set effects \<longrightarrow> effects = [])"
proof -
  have "fold write_output (cw_writes w) ([], False)
      = (take action_output_limit (concat (cw_writes w)), action_output_limit < length (concat (cw_writes w)))"
    using write_output_fold [of "cw_writes w" "[]"] by simp
  then have "command_verdict regexp w act = None \<longleftrightarrow> cw_cleanup_ok w \<and> cw_finished_first w \<and> \<not> cw_context_ended w
        \<and> (\<exists>code. cw_waited w = Exited code \<and>
             code \<in> (if ex_exit_codes (act_expect act) = [] then {0} else set (ex_exit_codes (act_expect act))))
        \<and> length (concat (cw_writes w)) \<le> action_output_limit
        \<and> expect_matches regexp (act_expect act) (concat (cw_writes w))"
    by (cases "cw_waited w") (auto simp: command_verdict_def Let_def not_less split: if_splits)
  then show ?thesis
    using assms by (auto simp: attempt_command_def split: sum.splits if_splits)
qed

definition sample_run :: command_world where
  "sample_run = \<lparr>cw_identity_ok = True, cw_start_ok = True, cw_finished_first = True, cw_waited = Exited 0,
     cw_cleanup_ok = True, cw_context_ended = False, cw_writes = [''o'', ''k'']\<rparr>"

definition sample_command :: action where
  "sample_command = sample_action\<lparr>act_command := [''check''], act_tcp := None,
     act_expect := \<lparr>ex_exit_codes = [], ex_status = [], ex_contains = ''ok'', ex_regexp = []\<rparr>\<rparr>"

lemma command_trial_exact_witness:
  "attempt_command (\<lambda>p s. None) sample_template sample_run sample_launch
     \<lparr>tv_name = ''web'', tv_directory = [], tv_source = [], tv_env = [], tv_vars = [], tv_config = YamlNull,
      tv_runtime = zero_runtime, tv_listen = None\<rparr> sample_command = (None, [JobStarted, JobClosed])
   \<and> length (concat (cw_writes sample_run)) \<le> action_output_limit \<and> last [JobStarted, JobClosed] = JobClosed"
proof -
  have e: "attempt_command (\<lambda>p s. None) sample_template sample_run sample_launch
     \<lparr>tv_name = ''web'', tv_directory = [], tv_source = [], tv_env = [], tv_vars = [], tv_config = YamlNull,
      tv_runtime = zero_runtime, tv_listen = None\<rparr> sample_command = (None, [JobStarted, JobClosed])"
    by code_simp
  from command_trial_exact [OF e] e show ?thesis by simp
qed

text \<open>What has been received after the first \<open>n\<close> calls of \<^verbatim>\<open>Read\<close>.\<close>

definition received :: "(go_string \<times> bool) list \<Rightarrow> nat \<Rightarrow> go_string" where
  "received reads n = concat (map fst (take n reads))"

lemma received_0 [simp]: "received reads 0 = []"
  by (simp add: received_def)

lemma received_Suc [simp]: "received (r # reads) (Suc n) = fst r @ received reads n"
  by (simp add: received_def)

lemma ex_less_Suc_iff: "(\<exists>n. 0 < n \<and> n \<le> Suc k \<and> P n) \<longleftrightarrow> P 1 \<or> (\<exists>n. 0 < n \<and> n \<le> k \<and> P (Suc n))"
proof
  assume "\<exists>n. 0 < n \<and> n \<le> Suc k \<and> P n"
  then obtain n where "n \<le> k" "P (Suc n)" by (auto simp: gr0_conv_Suc)
  then show "P 1 \<or> (\<exists>n. 0 < n \<and> n \<le> k \<and> P (Suc n))" by (cases n) auto
next
  assume "P 1 \<or> (\<exists>n. 0 < n \<and> n \<le> k \<and> P (Suc n))"
  then show "\<exists>n. 0 < n \<and> n \<le> Suc k \<and> P n" by (metis One_nat_def Suc_le_mono le0 zero_less_Suc)
qed

text \<open>The calls of \<^verbatim>\<open>Read\<close> with the last one, which the deadline ends.\<close>

definition until_deadline :: "(go_string \<times> bool) list \<Rightarrow> (go_string \<times> bool) list" where
  "until_deadline reads = reads @ [([], True)]"

text \<open>What is received by the \<open>n\<close>-th call, none before having failed, meets the expectation.\<close>

definition meets :: "regexp \<Rightarrow> expectation \<Rightarrow> (go_string \<times> bool) list \<Rightarrow> go_string \<Rightarrow> nat \<Rightarrow> bool" where
  "meets regexp expect reads got n \<longleftrightarrow>
     (\<forall>read \<in> set (take (n - 1) reads). \<not> snd read)
     \<and> length (got @ received reads n) \<le> action_output_limit
     \<and> expect_matches regexp expect (got @ received reads n)"

lemma meets_first: "meets regexp expect (r # reads) got 1 \<longleftrightarrow>
    length (got @ fst r) \<le> action_output_limit \<and> expect_matches regexp expect (got @ fst r)"
  by (simp add: meets_def received_def)

lemma meets_later: "0 < n \<Longrightarrow> meets regexp expect (r # reads) got (Suc n) \<longleftrightarrow>
    \<not> snd r \<and> meets regexp expect reads (got @ fst r) n"
  by (cases n) (auto simp: meets_def)

lemma meets_any: "(\<exists>n. 0 < n \<and> n \<le> Suc k \<and> meets regexp expect (r # reads) got n) \<longleftrightarrow>
    length (got @ fst r) \<le> action_output_limit \<and> expect_matches regexp expect (got @ fst r) \<or>
    \<not> snd r \<and> (\<exists>n. 0 < n \<and> n \<le> k \<and> meets regexp expect reads (got @ fst r) n)"
  unfolding ex_less_Suc_iff meets_first using meets_later by blast

lemma meets_long: "action_output_limit < length got \<Longrightarrow> \<not> meets regexp expect reads got n"
  by (simp add: meets_def)

lemma read_response_tcp:
  assumes "length got \<le> action_output_limit"
  shows "read_response regexp False expect reads got = None \<longleftrightarrow>
    (\<exists>n. 0 < n \<and> n \<le> length (until_deadline reads) \<and> meets regexp expect (until_deadline reads) got n)"
  using assms
proof (induction reads arbitrary: got)
  case Nil
  then show ?case
    by (subst read_response.simps) (simp add: until_deadline_def meets_any)
next
  case (Cons r reads)
  let ?now = "got @ fst r"
  have "read_response regexp False expect (r # reads) got =
      (if length ?now > action_output_limit then Some ResponseTooLong
       else if expect_matches regexp expect ?now then None
       else if snd r then Some ResponseMismatch
       else read_response regexp False expect reads ?now)"
    using Cons.prems by (subst read_response.simps) (simp add: Let_def split_beta)
  moreover have "until_deadline (r # reads) = r # until_deadline reads" by (simp add: until_deadline_def)
  ultimately show ?case
    using Cons.IH [of ?now] meets_long [of ?now] by (auto simp: meets_any not_less)
qed

text \<open>
  A TCP check with an expectation succeeds exactly when some data received before an error, the
  deadline or a mebibyte meets the expectation.
\<close>

theorem tcp_trial_exact:
  assumes "act_tcp act = Some check" and "act_udp act = None"
    and "ex_contains (act_expect act) \<noteq> [] \<or> ex_regexp (act_expect act) \<noteq> []"
  shows "attempt_network regexp w act = None \<longleftrightarrow>
    nw_connect_ok w \<and> (check_send check = [] \<or> nw_send_ok w)
    \<and> (\<exists>n. 0 < n \<and> n \<le> length (until_deadline (nw_reads w))
        \<and> (\<forall>read \<in> set (take (n - 1) (until_deadline (nw_reads w))). \<not> snd read)
        \<and> length (received (until_deadline (nw_reads w)) n) \<le> action_output_limit
        \<and> expect_matches regexp (act_expect act) (received (until_deadline (nw_reads w)) n))"
  using assms read_response_tcp [of "[]" regexp "act_expect act" "nw_reads w"]
  by (auto simp: attempt_network_def meets_def)

lemma tcp_trial_exact_witness:
  "attempt_network (\<lambda>p s. None) \<lparr>nw_connect_ok = True, nw_send_ok = True, nw_reads = [(''PO'', False), (''NG'', False)]\<rparr>
     (sample_action\<lparr>act_expect := \<lparr>ex_exit_codes = [], ex_status = [], ex_contains = ''PONG'', ex_regexp = []\<rparr>\<rparr>) = None
   \<and> received [(''PO'', False), (''NG'', False), ([], True)] 2 = ''PONG''"
proof -
  let ?act = "sample_action\<lparr>act_expect := \<lparr>ex_exit_codes = [], ex_status = [], ex_contains = ''PONG'', ex_regexp = []\<rparr>\<rparr>"
  let ?w = "\<lparr>nw_connect_ok = True, nw_send_ok = True, nw_reads = [(''PO'', False), (''NG'', False)]\<rparr>"
  have "act_tcp ?act = Some \<lparr>check_address = ''localhost:80'', check_send = []\<rparr>" "act_udp ?act = None"
    "ex_contains (act_expect ?act) \<noteq> [] \<or> ex_regexp (act_expect ?act) \<noteq> []"
    by (simp_all add: sample_action_def)
  note exact = tcp_trial_exact [OF this, of "\<lambda>p s. None" ?w]
  have got: "received (until_deadline (nw_reads ?w)) 2 = ''PONG''"
    "received [(''PO'', False), (''NG'', False), ([], True)] 2 = ''PONG''" by code_simp+
  moreover have "length (''PONG'') \<le> action_output_limit"
    "expect_matches (\<lambda>p s. None) (act_expect ?act) ''PONG''" by code_simp+
  ultimately have "attempt_network (\<lambda>p s. None) ?w ?act = None"
    unfolding exact by (intro conjI exI [of _ 2]) (simp_all add: until_deadline_def)
  then show ?thesis using got by simp
qed

subsection \<open>When an action succeeds\<close>

definition slept :: "execute_step list \<Rightarrow> duration list" where
  "slept steps = concat (map (\<lambda>step. case step of Slept d \<Rightarrow> [d] | Tried n es \<Rightarrow> []) steps)"

definition tried :: "execute_step list \<Rightarrow> nat list" where
  "tried steps = concat (map (\<lambda>step. case step of Slept d \<Rightarrow> [] | Tried n es \<Rightarrow> [n]) steps)"

text \<open>A trial \<open>n\<close> of at most \<open>last\<close> succeeds and nothing before stops the action.\<close>

definition succeeds_at :: "(nat \<Rightarrow> trial_error option \<times> job_effect list) \<Rightarrow> execute_world \<Rightarrow> nat \<Rightarrow> nat \<Rightarrow> bool" where
  "succeeds_at trial w start n \<longleftrightarrow> start \<le> n \<and> fst (trial n) = None \<and> (\<forall>m. start \<le> m \<and> m \<le> n \<longrightarrow> \<not> xw_ended w m)
     \<and> (\<forall>m. start \<le> m \<and> m < n \<longrightarrow> fst (trial m) \<noteq> None \<and> \<not> xw_ends_waiting w m)"

lemma succeeds_at_start: "succeeds_at trial w n n \<longleftrightarrow> fst (trial n) = None \<and> \<not> xw_ended w n"
  unfolding succeeds_at_def using le_antisym by (auto simp: not_less)

lemma succeeds_at_later:
  assumes "n < m"
  shows "succeeds_at trial w n m \<longleftrightarrow> \<not> xw_ended w n \<and> fst (trial n) \<noteq> None \<and> \<not> xw_ends_waiting w n \<and> succeeds_at trial w (Suc n) m"
proof -
  have "(\<forall>k. n \<le> k \<and> k \<le> m \<longrightarrow> P k) \<longleftrightarrow> P n \<and> (\<forall>k. Suc n \<le> k \<and> k \<le> m \<longrightarrow> P k)" for P
    using assms by (metis Suc_leD Suc_leI le_neq_implies_less less_or_eq_imp_le)
  moreover have "(\<forall>k. n \<le> k \<and> k < m \<longrightarrow> P k) \<longleftrightarrow> P n \<and> (\<forall>k. Suc n \<le> k \<and> k < m \<longrightarrow> P k)" for P
    using assms by (metis Suc_leD Suc_leI le_neq_implies_less order_refl)
  ultimately show ?thesis using assms unfolding succeeds_at_def by auto
qed

lemma retry_delay_bounds: "0 \<le> pause \<Longrightarrow> 0 \<le> retry_delay pause n \<and> retry_delay pause n \<le> 30 * second"
proof -
  assume "0 \<le> pause"
  let ?p = "min pause (30 * second)"
  have "(2::int) ^ min n 10 \<le> 2 ^ 10" by (intro power_increasing) simp_all
  then have "?p * 2 ^ min n 10 \<le> (30 * second) * 2 ^ 10"
    using \<open>0 \<le> pause\<close> by (intro mult_mono) simp_all
  moreover have "0 \<le> ?p * 2 ^ min n 10" using \<open>0 \<le> pause\<close> by simp
  ultimately have "wrap64 (?p * 2 ^ min n 10) = ?p * 2 ^ min n 10" by (intro wrap64_id) simp_all
  then show ?thesis using \<open>0 \<le> ?p * 2 ^ min n 10\<close> by (simp add: retry_delay_def)
qed

lemma trials_exact:
  assumes "trials trial w pause remaining n = (result, steps)"
  shows "(result = None \<longleftrightarrow> (\<exists>m. m \<le> n + remaining \<and> succeeds_at trial w n m))
    \<and> (\<exists>k. k \<le> Suc remaining \<and> tried steps = [n..<n + k]
      \<and> slept steps = map (retry_delay pause) [n..<n + length (slept steps)] \<and> length (slept steps) \<le> remaining)"
  using assms
proof (induction remaining arbitrary: n result steps)
  case 0
  obtain e effects where trial: "trial n = (e, effects)" by (cases "trial n")
  have "(\<exists>m. m \<le> n + 0 \<and> succeeds_at trial w n m) \<longleftrightarrow> e = None \<and> \<not> xw_ended w n"
    using succeeds_at_start [of trial w n] trial by (auto simp: succeeds_at_def)
  moreover have "(result, steps) = (if xw_ended w n then (Some Cancelled, [])
      else (map_option TrialError e, [Tried n effects]))"
    using 0 by (cases e) (simp_all add: trials.simps [of trial w pause 0 n] trial split: if_splits)
  ultimately show ?case
    by (auto simp: slept_def tried_def split: if_splits intro: exI [of _ 0] exI [of _ 1])
next
  case (Suc remaining)
  obtain e effects where trial: "trial n = (e, effects)" by (cases "trial n")
  have any: "(\<exists>m. m \<le> n + Suc remaining \<and> succeeds_at trial w n m) \<longleftrightarrow>
      \<not> xw_ended w n \<and> (e = None \<or> \<not> xw_ends_waiting w n \<and> (\<exists>m. m \<le> Suc n + remaining \<and> succeeds_at trial w (Suc n) m))"
  proof -
    have "m = n \<or> n < m" if "succeeds_at trial w n m" for m using that by (auto simp: succeeds_at_def)
    moreover have "n < m" if "succeeds_at trial w (Suc n) m" for m using that by (simp add: succeeds_at_def)
    ultimately show ?thesis
      using succeeds_at_start [of trial w n] succeeds_at_later [of n _ trial w] trial
      by (metis add_Suc add_Suc_right fst_conv le_add1 trans_le_add1 not_None_eq)
  qed
  show ?case
  proof (cases "xw_ended w n \<or> e = None \<or> xw_ends_waiting w n")
    case True
    then have "(result, steps) = (if xw_ended w n then (Some Cancelled, [])
        else (if e = None then None else Some Cancelled, [Tried n effects]))"
      using Suc.prems by (subst (asm) trials.simps) (auto simp: trial split: option.splits)
    then show ?thesis
      using any True by (auto simp: slept_def tried_def split: if_splits intro: exI [of _ 0] exI [of _ 1])
  next
    case False
    obtain result' steps' where rest: "trials trial w pause remaining (Suc n) = (result', steps')"
      by (cases "trials trial w pause remaining (Suc n)")
    have now: "result = result'" "steps = Tried n effects # Slept (retry_delay pause n) # steps'"
      using Suc.prems False by (subst (asm) trials.simps, auto simp: trial rest)+
    obtain k where k: "k \<le> Suc remaining" "tried steps' = [Suc n..<Suc n + k]"
      "slept steps' = map (retry_delay pause) [Suc n..<Suc n + length (slept steps')]"
      "length (slept steps') \<le> remaining"
      using Suc.IH [OF rest] by blast
    have "tried steps = [n..<n + Suc k]" using now(2) k(2) by (simp add: tried_def upt_conv_Cons del: upt_Suc)
    moreover have s: "slept steps = retry_delay pause n # slept steps'" using now(2) by (simp add: slept_def)
    moreover have "slept steps = map (retry_delay pause) [n..<n + length (slept steps)]"
      using s k(3) by (simp add: upt_conv_Cons del: upt_Suc)
    moreover have "result = None \<longleftrightarrow> (\<exists>m. m \<le> n + Suc remaining \<and> succeeds_at trial w n m)"
      using any False now(1) Suc.IH [OF rest] by auto
    ultimately show ?thesis using k(1,4) by (intro conjI exI [of _ "Suc k"]) simp_all
  qed
qed

text \<open>
  C31: An action makes at most one trial more than its retries, in order, with a delay of at most
  thirty seconds between two trials, and succeeds exactly when a trial does and its context has
  not ended before.
\<close>

theorem execute_exact:
  assumes "execute regexp template w app vals act = (result, steps)"
    and "expand_action template vals act = Inr expanded" and "0 \<le> act_retries act" and "0 \<le> act_backoff act"
  shows "(result = None \<longleftrightarrow> (\<exists>m. int m \<le> act_retries act
        \<and> succeeds_at (\<lambda>n. attempt regexp template (xw_trial w n) app vals expanded) w 0 m))
    \<and> (\<exists>k. int k \<le> act_retries act + 1 \<and> tried steps = [0..<k])
    \<and> int (length (slept steps)) \<le> act_retries act \<and> (\<forall>d \<in> set (slept steps). 0 \<le> d \<and> d \<le> 30 * second)"
proof -
  have "trials (\<lambda>n. attempt regexp template (xw_trial w n) app vals expanded) w (act_backoff act)
      (nat (act_retries act)) 0 = (result, steps)"
    using assms(1-3) by (simp add: execute_def)
  from trials_exact [OF this] obtain k where
    r: "result = None \<longleftrightarrow> (\<exists>m. m \<le> nat (act_retries act)
        \<and> succeeds_at (\<lambda>n. attempt regexp template (xw_trial w n) app vals expanded) w 0 m)"
    and k: "k \<le> Suc (nat (act_retries act))" "tried steps = [0..<k]"
    and s: "slept steps = map (retry_delay (act_backoff act)) [0..<length (slept steps)]"
      "length (slept steps) \<le> nat (act_retries act)"
    by auto
  have "\<forall>d \<in> set (map (retry_delay (act_backoff act)) ns). 0 \<le> d \<and> d \<le> 30 * second" for ns
    using retry_delay_bounds [OF assms(4)] by simp
  then have "\<forall>d \<in> set (slept steps). 0 \<le> d \<and> d \<le> 30 * second" using s(1) by metis
  moreover have "m \<le> nat (act_retries act) \<longleftrightarrow> int m \<le> act_retries act" for m using assms(3) by auto
  moreover have "int k \<le> act_retries act + 1" using k(1) assms(3) by linarith
  moreover have "int (length (slept steps)) \<le> act_retries act" using s(2) assms(3) by linarith
  ultimately show ?thesis using r k(2) by auto
qed

definition sample_execution :: execute_world where
  "sample_execution = \<lparr>xw_trial = (\<lambda>n. \<lparr>tw_command = sample_run, tw_request_ok = True, tw_http = None,
       tw_network = \<lparr>nw_connect_ok = (n = 1), nw_send_ok = True, nw_reads = []\<rparr>\<rparr>),
     xw_ended = (\<lambda>n. False), xw_ends_waiting = (\<lambda>n. False)\<rparr>"

lemma execute_exact_witness:
  "execute (\<lambda>p s. None) (\<lambda>vals text. Inr text) sample_execution default_app
     \<lparr>tv_name = [], tv_directory = [], tv_source = [], tv_env = [], tv_vars = [], tv_config = YamlNull,
      tv_runtime = zero_runtime, tv_listen = None\<rparr> (sample_action\<lparr>act_backoff := second\<rparr>)
     = (None, [Tried 0 [], Slept second, Tried 1 []])
   \<and> (\<exists>k. int k \<le> 3 \<and> [0, 1] = [0..<k])"
proof -
  let ?vals = "\<lparr>tv_name = [], tv_directory = [], tv_source = [], tv_env = [], tv_vars = [], tv_config = YamlNull,
      tv_runtime = zero_runtime, tv_listen = None\<rparr>" and ?act = "sample_action\<lparr>act_backoff := second\<rparr>"
  have e: "execute (\<lambda>p s. None) (\<lambda>vals text. Inr text) sample_execution default_app ?vals ?act
      = (None, [Tried 0 [], Slept second, Tried 1 []])" by code_simp
  have x: "expand_action (\<lambda>vals text. Inr text) ?vals ?act = Inr ?act" by code_simp
  have "0 \<le> act_retries ?act" "0 \<le> act_backoff ?act" "act_retries ?act + 1 = 3" by (simp_all add: sample_action_def)
  with execute_exact [OF e x] e show ?thesis by (auto simp: tried_def)
qed

end
