(* ===== verification/Loading.thy ===== *)
theory Loading
  imports Globs Actions Reload "HOL-Library.Char_ord" "HOL-Library.List_Lexorder"
begin

text \<open>
  \<^verbatim>\<open>Load\<close> of \<^verbatim>\<open>src/main.go\<close> with \<^verbatim>\<open>read\<close>, \<^verbatim>\<open>expandGlob\<close>, \<^verbatim>\<open>machinePassword\<close> and
  \<^verbatim>\<open>App.UnmarshalYAML\<close>: the whole configuration is read, completed with defaults, resolved and
  checked, or refused.  The files and the answers of the YAML decoder are arguments.
\<close>

record config =
  cfg_watch :: "go_string list"
  cfg_cgroup :: go_string
  cfg_resources :: resource_limits
  cfg_password_secret :: "go_string option"

text \<open>The \<open>n\<close>-th call of the decoder on a file.\<close>

datatype decoded = Document yaml | NoDocument | BadDocument

text \<open>One call of the function that \<^verbatim>\<open>filepath.WalkDir\<close> walks a directory with.\<close>

datatype walked = Entry go_string | Vanished go_string | WalkFailed go_string

record load_world =
  lw_goos :: os
  lw_tools :: tools
  lw_abs :: "go_string \<Rightarrow> go_string option"
  lw_content :: "go_string \<Rightarrow> go_string option"
  lw_decode :: "go_string \<Rightarrow> nat \<Rightarrow> decoded"
  lw_config :: "config \<Rightarrow> yaml \<Rightarrow> config option"
  lw_fields :: "app \<Rightarrow> yaml \<Rightarrow> app option"
  lw_stat :: "go_string \<Rightarrow> stat"
  lw_glob :: "go_string \<Rightarrow> go_string list option"
  lw_walk :: "go_string \<Rightarrow> walked list"
  lw_md5 :: "go_string \<Rightarrow> go_string"
  lw_order :: "go_string list \<Rightarrow> go_string list"

datatype load_error =
    BadPath
  | CannotOpen go_string
  | CannotDecode go_string
  | NotOneDocument go_string
  | BadSecret
  | NothingWatched
  | BadResources
  | BadRoot root_error
  | BadGlobWalk go_string
  | BothScales go_string
  | DuplicateName go_string
  | Invalid go_string config_error
  | BadLaunch go_string expand_error
  | BadActions go_string action_error
  | RuleWithoutGlob go_string
  | BadRuleEvent go_string go_string
  | SameListener go_string go_string
  | BadDependencies dependency_error
  | Endless

subsection \<open>Files\<close>

definition read_file :: "load_world \<Rightarrow> ('a \<Rightarrow> yaml \<Rightarrow> 'a option) \<Rightarrow> go_string \<Rightarrow> 'a \<Rightarrow> load_error + 'a" where
  "read_file w into path target =
     (case lw_content w path of
        None \<Rightarrow> Inl (CannotOpen path)
      | Some bytes \<Rightarrow>
          (case lw_decode w bytes 0 of
             Document document \<Rightarrow>
               (case into target document of
                  None \<Rightarrow> Inl (CannotDecode path)
                | Some result \<Rightarrow>
                    if lw_decode w bytes 1 = NoDocument then Inr result else Inl (NotOneDocument path))
           | _ \<Rightarrow> Inl (CannotDecode path)))"

text \<open>\<^verbatim>\<open>App.UnmarshalYAML\<close>: the fields, and the whole document once more as a map.\<close>

definition unmarshal_app :: "load_world \<Rightarrow> app \<Rightarrow> yaml \<Rightarrow> app option" where
  "unmarshal_app w target document =
     (case lw_fields w target document of
        None \<Rightarrow> None
      | Some app \<Rightarrow>
          (case document of
             YamlMap entries \<Rightarrow> Some (app\<lparr>app_values := document\<rparr>)
           | YamlNull \<Rightarrow> Some app
           | _ \<Rightarrow> None))"

fun walk_matches :: "go_string \<Rightarrow> walked list \<Rightarrow> go_string list option" where
  "walk_matches pattern [] = Some []"
| "walk_matches pattern (Vanished path # rest) = walk_matches pattern rest"
| "walk_matches pattern (WalkFailed path # rest) = None"
| "walk_matches pattern (Entry path # rest) =
     map_option (\<lambda>matches. if match_glob pattern path then path # matches else matches) (walk_matches pattern rest)"

definition expand_glob :: "load_world \<Rightarrow> go_string \<Rightarrow> go_string \<Rightarrow> go_string list option" where
  "expand_glob w pattern folder =
     (if any_depth \<notin> set (split_on slash pattern) then lw_glob w pattern
      else walk_matches pattern (lw_walk w folder))"

subsection \<open>The machine password\<close>

definition hex_value :: "char \<Rightarrow> nat option" where
  "hex_value c = (let n = of_char c in
     if 48 \<le> n \<and> n \<le> 57 then Some (n - 48)
     else if 97 \<le> n \<and> n \<le> 102 then Some (n - 87)
     else if 65 \<le> n \<and> n \<le> 70 then Some (n - 55)
     else None)"

fun hex_decode :: "go_string \<Rightarrow> go_string option" where
  "hex_decode [] = Some []"
| "hex_decode [c] = None"
| "hex_decode (c # d # s) =
     (case (hex_value c, hex_value d, hex_decode s) of
        (Some a, Some b, Some bytes) \<Rightarrow> Some (char_of (a * 16 + b) # bytes)
      | _ \<Rightarrow> None)"

definition hex_text :: "go_string \<Rightarrow> go_string" where
  "hex_text bytes = concat (map (\<lambda>c. [''0123456789abcdef'' ! (of_char c div 16), ''0123456789abcdef'' ! (of_char c mod 16)]) bytes)"

definition machine_password :: "(go_string \<Rightarrow> go_string) \<Rightarrow> go_string \<Rightarrow> go_string option" where
  "machine_password md5 encoded =
     (case hex_decode encoded of
        None \<Rightarrow> None
      | Some secret \<Rightarrow>
          if length secret \<noteq> 32 then None
          else Some (''Sp!9'' @ hex_text (md5 (''sysperm-password-v1'' @ [CHR 0x00] @ secret)) @ ''aA0!''))"

subsection \<open>One application\<close>

definition scale_defaults :: "app \<Rightarrow> app" where
  "scale_defaults app =
     (if app_scale_window app = 0
      then app\<lparr>app_scale_window := if app_scale_delay app = 0 then second else app_scale_delay app\<rparr>
      else app)"

definition named :: "go_string \<Rightarrow> app \<Rightarrow> app" where
  "named file app =
     (let app = app\<lparr>app_source := file\<rparr>
      in if app_name app = [] then app\<lparr>app_name := base (dir file)\<rparr> else app)"

definition ready_default :: "app \<Rightarrow> app" where
  "ready_default app = (if app_ready app = [] then app\<lparr>app_ready := ''started''\<rparr> else app)"

definition password_default :: "os \<Rightarrow> go_string option \<Rightarrow> app \<Rightarrow> app" where
  "password_default goos password app =
     (if goos = Windows \<and> id_user (app_identity app) \<noteq> [] \<and> id_password (app_identity app) = None
      then app\<lparr>app_identity := (app_identity app)\<lparr>id_password := password\<rparr>\<rparr> else app)"

text \<open>Directory, executable and socket path, relative to the file.\<close>

definition resolved :: "go_string \<Rightarrow> app \<Rightarrow> app" where
  "resolved file app =
     (let app = app\<lparr>app_directory := resolve (dir file) (app_directory app)\<rparr>;
          executable = hd (app_command app);
          app = (if \<not> contains executable ''{{'' \<and> contains_any executable [slash, CHR 0x5C]
                 then app\<lparr>app_command := resolve (app_directory app) executable # tl (app_command app)\<rparr> else app)
      in if network (app_listen app) = ''unix''
         then app\<lparr>app_listen := (app_listen app)\<lparr>address := resolve (dir file) (address (app_listen app))\<rparr>\<rparr>
         else app)"

definition default_events :: "go_string list" where
  "default_events = [''create'', ''write'', ''remove'', ''rename'']"

definition root_result :: "(root_error + go_string) option \<Rightarrow> load_error + go_string" where
  "root_result r = (case r of None \<Rightarrow> Inl Endless | Some (Inl e) \<Rightarrow> Inl (BadRoot e) | Some (Inr folder) \<Rightarrow> Inr folder)"

lemma root_result_Inr [simp]: "root_result r = Inr folder \<longleftrightarrow> r = Some (Inr folder)"
  by (auto simp: root_result_def split: option.splits sum.splits)

text \<open>The \<^verbatim>\<open>restart_on\<close> rules of an application, with the directories to watch for them.\<close>

fun check_rules :: "load_world \<Rightarrow> go_string \<Rightarrow> restart_rule list \<Rightarrow> load_error + (restart_rule list \<times> go_string list)" where
  "check_rules w file [] = Inr ([], [])"
| "check_rules w file (rule # rules) =
     (if rule_glob rule = [] then Inl (RuleWithoutGlob file)
      else
        (let glob = resolve (dir file) (rule_glob rule);
             events = (if rule_events rule = [] then default_events else rule_events rule)
         in and_then (root_result (watch_root (lw_stat w) glob)) (\<lambda>folder.
              case find (\<lambda>event. map_of file_events event = None) events of
                Some event \<Rightarrow> Inl (BadRuleEvent file event)
              | None \<Rightarrow>
                  and_then (check_rules w file rules) (\<lambda>(rest, roots).
                    Inr (\<lparr>rule_glob = glob, rule_events = events\<rparr> # rest, folder # roots)))))"

text \<open>
  The part of the loop body after an application has its name: what is checked and completed, in
  this order.
\<close>

definition complete_app :: "load_world \<Rightarrow> go_string option \<Rightarrow> go_string \<Rightarrow> app \<Rightarrow> load_error + (app \<times> go_string list)" where
  "complete_app w password file app =
     (let app = ready_default app
      in case validate (lw_goos w) app of
           Some e \<Rightarrow> Inl (Invalid file e)
         | None \<Rightarrow>
             (let app = resolved file (password_default (lw_goos w) password app); tools = lw_tools w
              in case expand_launch (tl_template tools) (tl_marshal tools) (tl_environ tools) app (address (app_listen app)) of
                   Inl e \<Rightarrow> Inl (BadLaunch file e)
                 | Inr _ \<Rightarrow>
                     (case validate_actions tools app of
                        Inl e \<Rightarrow> Inl (BadActions file e)
                      | Inr app \<Rightarrow>
                          and_then (check_rules w file (app_restart_on app)) (\<lambda>(rules, roots).
                            Inr (app\<lparr>app_restart_on := rules\<rparr>, roots)))))"

text \<open>What has been loaded so far: the applications, the listeners with their files, the roots.\<close>

record loading =
  ld_apps :: apps
  ld_sockets :: "(socket \<times> go_string) list"
  ld_roots :: "go_string list"

definition add_loaded :: "go_string \<Rightarrow> app \<Rightarrow> go_string list \<Rightarrow> loading \<Rightarrow> load_error + loading" where
  "add_loaded file app roots ld =
     (let ld = ld\<lparr>ld_roots := ld_roots ld @ roots\<rparr>;
          found = ld\<lparr>ld_apps := ld_apps ld @ [(app_name app, app)]\<rparr>
      in if network (app_listen app) = [] then Inr found
         else case map_of (ld_sockets ld) (app_listen app) of
                Some previous \<Rightarrow> Inl (SameListener previous file)
              | None \<Rightarrow> Inr (found\<lparr>ld_sockets := (app_listen app, file) # ld_sockets ld\<rparr>))"

definition load_file :: "load_world \<Rightarrow> go_string option \<Rightarrow> go_string \<Rightarrow> loading \<Rightarrow> load_error + loading" where
  "load_file w password file ld =
     and_then (read_file w (unmarshal_app w) file default_app) (\<lambda>app.
       if app_scale_window app \<noteq> 0 \<and> app_scale_delay app \<noteq> 0 then Inl (BothScales file)
       else
         (let app = named file (scale_defaults app)
          in case map_of (ld_apps ld) (app_name app) of
               Some previous \<Rightarrow>
                 if app_source previous = file then Inr ld else Inl (DuplicateName (app_name app))
             | None \<Rightarrow>
                 and_then (complete_app w password file app) (\<lambda>(app, roots). add_loaded file app roots ld)))"

fun load_files :: "load_world \<Rightarrow> go_string option \<Rightarrow> go_string list \<Rightarrow> loading \<Rightarrow> load_error + loading" where
  "load_files w password [] ld = Inr ld"
| "load_files w password (file # files) ld =
     and_then (load_file w password file ld) (load_files w password files)"

fun load_globs :: "load_world \<Rightarrow> go_string option \<Rightarrow> go_string \<Rightarrow> go_string list \<Rightarrow> loading \<Rightarrow> load_error + loading" where
  "load_globs w password path [] ld = Inr ld"
| "load_globs w password path (pattern # patterns) ld =
     (let glob = resolve (dir path) pattern
      in and_then (root_result (watch_root (lw_stat w) glob)) (\<lambda>folder.
         case expand_glob w glob folder of
           None \<Rightarrow> Inl (BadGlobWalk glob)
         | Some files \<Rightarrow>
             and_then (load_files w password files (ld\<lparr>ld_roots := ld_roots ld @ [folder]\<rparr>))
               (load_globs w password path patterns)))"

subsection \<open>The roots to watch\<close>

definition root_covers :: "go_string \<Rightarrow> go_string \<Rightarrow> bool" where
  "root_covers parent folder = (case rel_path parent folder of None \<Rightarrow> False | Some relative \<Rightarrow> inside relative)"

definition add_root :: "go_string \<Rightarrow> go_string list \<Rightarrow> go_string list" where
  "add_root folder roots = (if list_ex (\<lambda>parent. root_covers parent folder) roots then roots else roots @ [folder])"

definition outer_roots :: "go_string list \<Rightarrow> go_string list" where
  "outer_roots roots = fold add_root (remdups_adj (sort roots)) []"

subsection \<open>Load\<close>

definition percent_ok :: "percent \<Rightarrow> bool" where
  "percent_ok p \<longleftrightarrow> 0 \<le> p \<and> p \<le> 100"

definition default_config :: config where
  "default_config = \<lparr>cfg_watch = [], cfg_cgroup = [],
     cfg_resources = \<lparr>max_cpu_percent = 90, min_available_memory_percent = 10\<rparr>, cfg_password_secret = None\<rparr>"

definition load_config :: "load_world \<Rightarrow> go_string \<Rightarrow> config \<Rightarrow> go_string option \<Rightarrow> load_error + snapshot" where
  "load_config w path cfg password =
     (if cfg_watch cfg = [] then Inl NothingWatched
      else if \<not> percent_ok (max_cpu_percent (cfg_resources cfg))
              \<or> \<not> percent_ok (min_available_memory_percent (cfg_resources cfg)) then Inl BadResources
      else
        and_then (load_globs w password path (cfg_watch cfg) \<lparr>ld_apps = [], ld_sockets = [], ld_roots = [dir path]\<rparr>) (\<lambda>ld.
          case validate_dependencies (lw_order w) (ld_apps ld) of
            None \<Rightarrow> Inl Endless
          | Some (Some e) \<Rightarrow> Inl (BadDependencies e)
          | Some None \<Rightarrow> Inr
              \<lparr>sn_apps = ld_apps ld, sn_roots = outer_roots (ld_roots ld),
               sn_cgroup = (if cfg_cgroup cfg = [] then [] else resolve (dir path) (cfg_cgroup cfg)),
               sn_resources = cfg_resources cfg\<rparr>))"

definition load :: "load_world \<Rightarrow> go_string \<Rightarrow> load_error + snapshot" where
  "load w name =
     (case lw_abs w name of
        None \<Rightarrow> Inl BadPath
      | Some path \<Rightarrow>
          and_then (read_file w (lw_config w) path default_config) (\<lambda>cfg.
            case cfg_password_secret cfg of
              None \<Rightarrow> load_config w path cfg None
            | Some secret \<Rightarrow>
                (case machine_password (lw_md5 w) secret of
                   None \<Rightarrow> Inl BadSecret
                 | Some password \<Rightarrow> load_config w path cfg (Some password))))"

subsection \<open>The roots cover and do not overlap\<close>

lemma root_covers_iff:
  "absolute p \<Longrightarrow> absolute q \<Longrightarrow> root_covers p q \<longleftrightarrow> prefix (clean_parts p) (clean_parts q)"
  using rel_path_inside [of p q] by (auto simp: root_covers_def absolute_def split: option.splits)

lemma joined_prefix: "prefix ws vs \<Longrightarrow> prefix (joined ws) (joined vs)"
proof (induction ws arbitrary: vs rule: joined.induct)
  case (2 w)
  then obtain us where "vs = w # us" by (auto simp: prefix_def)
  then show ?case by (cases us) simp_all
next
  case (3 w v ws)
  then obtain us where vs: "vs = w # v # us" and "prefix (v # ws) (v # us)" by (auto simp: prefix_def)
  then show ?case using "3.IH" by simp
qed simp

lemma prefix_less_eq: "prefix s t \<Longrightarrow> s \<le> (t :: string)"
proof (elim prefixE)
  fix u assume t: "t = s @ u"
  show "s \<le> t" using lexord_append_rightI [of u s] by (cases u) (auto simp: t list_le_def list_less_def)
qed

lemma covers_less_eq: "absolute p \<Longrightarrow> absolute q \<Longrightarrow> root_covers p q \<Longrightarrow> p \<le> q"
proof -
  assume a: "absolute p" "absolute q" and "root_covers p q"
  then have "prefix (abs_path (clean_parts p)) (abs_path (clean_parts q))"
    using root_covers_iff joined_prefix by (simp add: abs_path_def)
  then show "p \<le> q" using absolute_parts [OF a(1)] absolute_parts [OF a(2)] prefix_less_eq by simp
qed

text \<open>
  The roots kept after some of the sorted ones: they cover all of these, and a root that covers a
  kept one is that one.
\<close>

lemma add_roots:
  assumes "sorted rs" and "distinct rs" and "\<forall>r \<in> set rs. absolute r"
    and "\<forall>k \<in> set kept. absolute k \<and> (\<forall>r \<in> set rs. k \<le> r \<and> k \<noteq> r)"
    and "\<forall>p \<in> set kept. \<forall>q \<in> set kept. root_covers p q \<longrightarrow> p = q"
  shows "set (fold add_root rs kept) \<subseteq> set rs \<union> set kept
    \<and> (\<forall>r \<in> set rs \<union> set kept. \<exists>p \<in> set (fold add_root rs kept). root_covers p r)
    \<and> (\<forall>p \<in> set (fold add_root rs kept). \<forall>q \<in> set (fold add_root rs kept). root_covers p q \<longrightarrow> p = q)"
  using assms
proof (induction rs arbitrary: kept)
  case Nil
  have "root_covers r r" if "r \<in> set kept" for r
    using that Nil.prems(4) root_covers_iff [of r r] by simp
  then show ?case using Nil.prems(5) by auto
next
  case (Cons r rs)
  have r: "absolute r" using Cons.prems(3) by simp
  let ?kept = "add_root r kept"
  have less: "\<forall>s \<in> set rs. r \<le> s \<and> r \<noteq> s" using Cons.prems(1,2) by auto
  have "\<not> root_covers r k" if "k \<in> set kept" for k
    using that Cons.prems(4) covers_less_eq [OF r, of k] by fastforce
  then have pairs: "\<forall>p \<in> set ?kept. \<forall>q \<in> set ?kept. root_covers p q \<longrightarrow> p = q"
    using Cons.prems(5) by (auto simp: add_root_def list_ex_iff)
  have ok: "\<forall>k \<in> set ?kept. absolute k \<and> (\<forall>s \<in> set rs. k \<le> s \<and> k \<noteq> s)"
    using Cons.prems(4) r less by (auto simp: add_root_def)
  note IH = Cons.IH [OF _ _ _ ok pairs]
  have "\<exists>k \<in> set ?kept. root_covers k r"
    using root_covers_iff [OF r r] by (auto simp: add_root_def list_ex_iff)
  then obtain k where k: "k \<in> set ?kept" "root_covers k r" by blast
  have sub: "set kept \<subseteq> set ?kept" "set ?kept \<subseteq> insert r (set kept)" by (auto simp: add_root_def)
  have all: "set (fold add_root rs ?kept) \<subseteq> set rs \<union> set ?kept"
    "\<forall>s \<in> set rs \<union> set ?kept. \<exists>p \<in> set (fold add_root rs ?kept). root_covers p s"
    "\<forall>p \<in> set (fold add_root rs ?kept). \<forall>q \<in> set (fold add_root rs ?kept). root_covers p q \<longrightarrow> p = q"
    using IH Cons.prems(1-3) by auto
  obtain p where p: "p \<in> set (fold add_root rs ?kept)" "root_covers p k" using all(2) k(1) by blast
  have "absolute p" "absolute k" using p(1) k(1) all(1) ok Cons.prems(3) by auto
  then have "root_covers p r"
    using root_covers_iff p(2) k(2) r by (meson prefix_order.trans)
  then show ?case using all p(1) sub by (auto simp del: fold_simps simp: fold_Cons)
qed

lemma distinct_remdups_adj_sorted: "sorted (xs :: 'a :: linorder list) \<Longrightarrow> distinct (remdups_adj xs)"
proof (induction xs rule: remdups_adj.induct)
  case (3 x y xs)
  show ?case
  proof (cases "x = y")
    case False
    then have "\<forall>z \<in> set (y # xs). x < z" using "3.prems" by fastforce
    then show ?thesis using 3 False by auto
  qed (use 3 in simp)
qed simp_all

text \<open>
  The roots that are watched are some of the collected ones, every collected root lies below
  one of them, and none lies below another.
\<close>

theorem outer_roots_cover:
  assumes "\<forall>r \<in> set roots. absolute r"
  shows "set (outer_roots roots) \<subseteq> set roots
    \<and> (\<forall>r \<in> set roots. \<exists>p \<in> set (outer_roots roots). prefix (clean_parts p) (clean_parts r))
    \<and> (\<forall>p \<in> set (outer_roots roots). \<forall>q \<in> set (outer_roots roots). prefix (clean_parts p) (clean_parts q) \<longrightarrow> p = q)"
proof -
  have a: "set (outer_roots roots) \<subseteq> set roots"
    "\<forall>r \<in> set roots. \<exists>p \<in> set (outer_roots roots). root_covers p r"
    "\<forall>p \<in> set (outer_roots roots). \<forall>q \<in> set (outer_roots roots). root_covers p q \<longrightarrow> p = q"
    using add_roots [of "remdups_adj (sort roots)" "[]"] assms
    by (simp_all add: outer_roots_def sorted_remdups_adj distinct_remdups_adj_sorted)
  moreover have "root_covers p q \<longleftrightarrow> prefix (clean_parts p) (clean_parts q)"
    if "p \<in> set (outer_roots roots)" "q \<in> set roots" for p q
    using root_covers_iff that a(1) assms by blast
  ultimately show ?thesis by (metis subsetD)
qed

lemma outer_roots_cover_witness:
  "outer_roots [''/srv/b'', ''/etc'', ''/srv/a/c'', ''/srv/a'', ''/etc''] = [''/etc'', ''/srv/a'', ''/srv/b'']
   \<and> (\<exists>p \<in> set [''/etc'', ''/srv/a'', ''/srv/b'']. prefix (clean_parts p) (clean_parts ''/srv/a/c''))"
proof -
  have e: "outer_roots [''/srv/b'', ''/etc'', ''/srv/a/c'', ''/srv/a'', ''/etc''] = [''/etc'', ''/srv/a'', ''/srv/b'']"
    by code_simp
  have "\<forall>r \<in> set [''/srv/b'', ''/etc'', ''/srv/a/c'', ''/srv/a'', ''/etc'']. absolute r" by code_simp
  from outer_roots_cover [OF this] e show ?thesis by simp
qed

subsection \<open>What an accepted configuration satisfies\<close>

lemma validate_actions_frame:
  "validate_actions tools app = Inr app' \<Longrightarrow>
     \<exists>actions triggers. app' = app\<lparr>app_actions := actions, app_triggers := triggers\<rparr>
       \<and> validate_triggers actions (app_triggers app) = Inr triggers"
  by (auto simp: validate_actions_def and_then_Inr split: option.splits sum.splits)

lemma app_ok_frame:
  "app_ok (app\<lparr>app_actions := actions, app_triggers := triggers\<rparr>) = app_ok app"
  "app_ok (app\<lparr>app_restart_on := rules\<rparr>) = app_ok app"
  "app_ok (app\<lparr>app_identity := i\<rparr>) = app_ok app"
  "app_ok (app\<lparr>app_directory := d\<rparr>) = app_ok app"
  "app_ok (app\<lparr>app_listen := (app_listen app)\<lparr>address := a\<rparr>\<rparr>) = app_ok app"
  by (simp_all add: app_ok_def)

lemma app_ok_command: "app_ok app \<Longrightarrow> command \<noteq> [] \<Longrightarrow> hd command \<noteq> [] \<Longrightarrow> app_ok (app\<lparr>app_command := command\<rparr>)"
  by (simp add: app_ok_def)

lemma app_ok_resolved: "app_ok app \<Longrightarrow> app_ok (resolved file app)"
  by (auto simp: resolved_def Let_def app_ok_frame resolve_nonempty app_ok_def intro!: app_ok_command)

text \<open>What a completed application satisfies besides \<open>app_ok\<close>.\<close>

definition placed :: "app \<Rightarrow> bool" where
  "placed app \<longleftrightarrow> absolute (app_directory app)
     \<and> (network (app_listen app) = ''unix'' \<longrightarrow> absolute (address (app_listen app)))
     \<and> (\<forall>(event, bs) \<in> set (app_triggers app). \<forall>b \<in> set bs. trigger_ok (app_actions app) event b)
     \<and> (\<forall>rule \<in> set (app_restart_on app). absolute (rule_glob rule) \<and> rule_events rule \<noteq> []
          \<and> (\<forall>event \<in> set (rule_events rule). map_of file_events event \<noteq> None))"

lemma absolute_dir: "is_abs file \<Longrightarrow> absolute (dir file)"
proof -
  assume a: "is_abs file"
  then have "slash \<in> set file" by (cases "file") (auto simp: is_abs_def)
  then obtain front rest where f: "file = front @ slash # rest" "slash \<notin> set rest"
    using split_list_last by metis
  then have "dropWhile (\<lambda>c. c \<noteq> slash) (rev file) = slash # rev front"
    using dropWhile_append_stop [of "rev rest" "\<lambda>c. c \<noteq> slash" slash "rev front"] by auto
  then have "dir file = clean (front @ [slash])" by (simp add: dir_def)
  moreover have "is_abs (front @ [slash])" using a f by (cases front) (auto simp: is_abs_def)
  ultimately show "absolute (dir file)" by (simp add: absolute_clean)
qed

lemma is_abs_dir: "is_abs file \<Longrightarrow> is_abs (dir file)"
  using absolute_dir by (simp add: absolute_def)

text \<open>The search for the root of an absolute glob ends, at an absolute directory.\<close>

lemma watch_root_absolute:
  assumes "is_abs pattern"
  shows "\<exists>r. watch_root stat pattern = Some r \<and> (\<forall>folder. r = Inr folder \<longrightarrow> absolute folder)"
proof -
  define x where "x = (case index_any pattern ''*?['' of None \<Rightarrow> pattern | Some i \<Rightarrow> take i pattern)"
  obtain rest where p: "pattern = slash # rest" using assms by (auto simp: is_abs_def prefix_def)
  have "is_abs x" by (auto simp: x_def p is_abs_def split: option.splits)
  then obtain ws where ws: "dir x = abs_path ws" "\<forall>w \<in> set ws. plain w"
    using absolute_parts_plain [OF absolute_dir] by blast
  obtain r where r: "nearest_dir stat (abs_path ws) = Some r"
    "\<forall>folder. r = Inr folder \<longrightarrow> stat folder = IsDir \<and> (\<exists>k. folder = abs_path (take k ws))"
    using nearest_dir_ancestor [OF ws(2)] by blast
  have "\<forall>folder. r = Inr folder \<longrightarrow> absolute folder"
    using r(2) absolute_abs_path [OF plain_take [OF ws(2)]] by auto
  then show ?thesis
    using r(1) ws(1) by (cases "file_match pattern []") (simp_all add: watch_root_def x_def [symmetric])
qed

lemma absolute_resolve: "is_abs d \<Longrightarrow> absolute (resolve d p)"
  using is_abs_resolve resolve_clean by (simp add: absolute_def)

lemma check_rules_ok:
  assumes "check_rules w file rules = Inr (rules', roots)" and "is_abs file"
  shows "\<forall>rule \<in> set rules'. absolute (rule_glob rule) \<and> rule_events rule \<noteq> []
    \<and> (\<forall>event \<in> set (rule_events rule). map_of file_events event \<noteq> None)"
  using assms(1)
proof (induction rules arbitrary: rules' roots)
  case (Cons rule rules)
  define events where "events = (if rule_events rule = [] then default_events else rule_events rule)"
  have ne: "events \<noteq> []" by (simp add: events_def default_events_def)
  from Cons.prems obtain rest roots' where r: "find (\<lambda>event. map_of file_events event = None) events = None"
    "check_rules w file rules = Inr (rest, roots')"
    "rules' = \<lparr>rule_glob = resolve (dir file) (rule_glob rule), rule_events = events\<rparr> # rest"
    by (auto simp: Let_def and_then_Inr events_def [symmetric] split: if_splits option.splits sum.splits prod.splits)
  have "\<forall>event \<in> set events. map_of file_events event \<noteq> None" using r(1) by (auto simp: find_None_iff)
  then show ?case using Cons.IH [OF r(2)] r(3) ne absolute_resolve [OF is_abs_dir [OF assms(2)]] by auto
qed simp

lemma complete_app_ok:
  assumes "complete_app w password file app = Inr (app', roots)" and "is_abs file"
  shows "app_ok app' \<and> placed app' \<and> app_name app' = app_name app"
proof -
  let ?ready = "ready_default app"
  define located where "located = resolved file (password_default (lw_goos w) password ?ready)"
  from assms(1) obtain checked rules where v: "validate (lw_goos w) ?ready = None"
    and a: "validate_actions (lw_tools w) located = Inr checked"
    and r: "check_rules w file (app_restart_on checked) = Inr (rules, roots)"
    and app': "app' = checked\<lparr>app_restart_on := rules\<rparr>"
    by (auto simp: complete_app_def Let_def located_def [symmetric] and_then_Inr
        split: option.splits sum.splits prod.splits)
  obtain actions triggers where c: "checked = located\<lparr>app_actions := actions, app_triggers := triggers\<rparr>"
    "validate_triggers actions (app_triggers located) = Inr triggers"
    using validate_actions_frame [OF a] by blast
  have "app_ok (password_default (lw_goos w) password ?ready)"
    using validate_app_ok [OF v] by (simp add: password_default_def app_ok_frame)
  then have "app_ok app'" using app_ok_resolved by (simp add: app' c located_def app_ok_frame)
  moreover have "placed app'"
  proof -
    have d: "is_abs (dir file)" using is_abs_dir [OF assms(2)] .
    have "absolute (app_directory located)" "network (app_listen located) = ''unix'' \<longrightarrow> absolute (address (app_listen located))"
      using absolute_resolve [OF d] by (auto simp: located_def resolved_def Let_def)
    moreover have "\<forall>(event, bs) \<in> set triggers. \<forall>b \<in> set bs. trigger_ok actions event b"
      using validate_triggers_sound [OF c(2)] by blast
    ultimately show ?thesis using check_rules_ok [OF r assms(2)] by (simp add: placed_def app' c)
  qed
  moreover have "app_name app' = app_name app"
    by (simp add: app' c located_def resolved_def password_default_def ready_default_def Let_def)
  ultimately show ?thesis by blast
qed

text \<open>The invariant of the loops.\<close>

definition loading_ok :: "loading \<Rightarrow> bool" where
  "loading_ok ld \<longleftrightarrow> distinct (map fst (ld_apps ld))
     \<and> (\<forall>n a. (n, a) \<in> set (ld_apps ld) \<longrightarrow> n = app_name a \<and> app_ok a \<and> placed a
          \<and> (network (app_listen a) \<noteq> [] \<longrightarrow> app_listen a \<in> fst ` set (ld_sockets ld)))
     \<and> (\<forall>n1 a1 n2 a2. (n1, a1) \<in> set (ld_apps ld) \<and> (n2, a2) \<in> set (ld_apps ld)
          \<and> network (app_listen a1) \<noteq> [] \<and> app_listen a1 = app_listen a2 \<longrightarrow> n1 = n2)"

lemma loading_okD:
  assumes "loading_ok ld" and "(n, a) \<in> set (ld_apps ld)"
  shows "n = app_name a \<and> app_ok a \<and> placed a
    \<and> (network (app_listen a) \<noteq> [] \<longrightarrow> app_listen a \<in> fst ` set (ld_sockets ld))"
  using assms unfolding loading_ok_def by blast

lemma loading_ok_roots [simp]: "loading_ok (ld\<lparr>ld_roots := roots\<rparr>) = loading_ok ld"
  by (simp add: loading_ok_def)

lemma loading_ok_add:
  assumes ld: "loading_ok ld" and new: "map_of (ld_apps ld) (app_name app) = None" and app: "app_ok app" "placed app"
    and socket: "network (app_listen app) \<noteq> [] \<Longrightarrow> map_of (ld_sockets ld) (app_listen app) = None"
  shows "loading_ok (ld\<lparr>ld_apps := ld_apps ld @ [(app_name app, app)],
    ld_sockets := if network (app_listen app) = [] then ld_sockets ld else (app_listen app, source) # ld_sockets ld\<rparr>)"
    (is "loading_ok ?ld")
proof -
  have fresh: "app_name app \<notin> fst ` set (ld_apps ld)" using new by (simp add: map_of_eq_None_iff)
  have other: "app_listen a \<noteq> app_listen app" if "(n, a) \<in> set (ld_apps ld)" "network (app_listen app) \<noteq> []" for n a
  proof
    assume same: "app_listen a = app_listen app"
    have "network (app_listen a) \<noteq> [] \<longrightarrow> app_listen a \<in> fst ` set (ld_sockets ld)"
      using loading_okD [OF ld that(1)] by blast
    then have "app_listen app \<in> fst ` set (ld_sockets ld)" using that(2) unfolding same by blast
    moreover have "app_listen app \<notin> fst ` set (ld_sockets ld)"
      using socket [OF that(2)] unfolding map_of_eq_None_iff .
    ultimately show False by blast
  qed
  have "distinct (map fst (ld_apps ld))" using ld unfolding loading_ok_def by blast
  then have "distinct (map fst (ld_apps ?ld))" using fresh by simp
  moreover have "n = app_name a \<and> app_ok a \<and> placed a
      \<and> (network (app_listen a) \<noteq> [] \<longrightarrow> app_listen a \<in> fst ` set (ld_sockets ?ld))" if e: "(n, a) \<in> set (ld_apps ?ld)" for n a
  proof (cases "(n, a) \<in> set (ld_apps ld)")
    case True
    then show ?thesis using loading_okD [OF ld True] by auto
  next
    case False
    then show ?thesis using e app by simp
  qed
  moreover have "n1 = n2" if e: "(n1, a1) \<in> set (ld_apps ?ld)" "(n2, a2) \<in> set (ld_apps ?ld)"
    "network (app_listen a1) \<noteq> []" "app_listen a1 = app_listen a2" for n1 a1 n2 a2
  proof (cases "(n1, a1) \<in> set (ld_apps ld) \<and> (n2, a2) \<in> set (ld_apps ld)")
    case True
    then show ?thesis using ld e(3,4) unfolding loading_ok_def by blast
  next
    case False
    then consider "(n1, a1) = (app_name app, app)" "(n2, a2) = (app_name app, app)"
      | "(n1, a1) \<in> set (ld_apps ld)" "(n2, a2) = (app_name app, app)"
      | "(n2, a2) \<in> set (ld_apps ld)" "(n1, a1) = (app_name app, app)"
      using e(1,2) by auto
    then show ?thesis using other e(3,4) by cases (simp, metis prod.inject, metis prod.inject)
  qed
  ultimately show ?thesis unfolding loading_ok_def by blast
qed

lemma add_loaded_ok:
  assumes "add_loaded file app roots ld = Inr ld'" and ld: "loading_ok ld"
    and new: "map_of (ld_apps ld) (app_name app) = None" and app: "app_ok app" "placed app"
  shows "loading_ok ld'"
proof -
  let ?ld = "ld\<lparr>ld_roots := ld_roots ld @ roots\<rparr>"
  have free: "network (app_listen app) \<noteq> [] \<Longrightarrow> map_of (ld_sockets ?ld) (app_listen app) = None"
    using assms(1) by (cases "map_of (ld_sockets ?ld) (app_listen app)") (simp_all add: add_loaded_def Let_def)
  have "ld' = ?ld\<lparr>ld_apps := ld_apps ?ld @ [(app_name app, app)],
      ld_sockets := if network (app_listen app) = [] then ld_sockets ?ld else (app_listen app, file) # ld_sockets ?ld\<rparr>"
  proof (cases "network (app_listen app) = []")
    case True
    then have "?ld\<lparr>ld_apps := ld_apps ?ld @ [(app_name app, app)]\<rparr> = ld'"
      using assms(1) by (simp add: add_loaded_def Let_def)
    then show ?thesis using True by (auto simp: True)
  next
    case False
    with free have "map_of (ld_sockets ?ld) (app_listen app) = None" by simp
    then show ?thesis using assms(1) False by (simp add: add_loaded_def Let_def)
  qed
  note ld' = this
  show ?thesis unfolding ld' by (rule loading_ok_add) (use ld new app free in simp_all)
qed

lemma load_file_ok:
  assumes "load_file w password file ld = Inr ld'" and ok: "loading_ok ld" and "is_abs file"
  shows "loading_ok ld'"
proof -
  obtain raw where raw: "read_file w (unmarshal_app w) file default_app = Inr raw"
    using assms(1) by (cases "read_file w (unmarshal_app w) file default_app") (simp_all add: load_file_def)
  define app where "app = named file (scale_defaults raw)"
  have both: "\<not> (app_scale_window raw \<noteq> 0 \<and> app_scale_delay raw \<noteq> 0)"
  proof
    assume "app_scale_window raw \<noteq> 0 \<and> app_scale_delay raw \<noteq> 0"
    then show False using assms(1) by (simp add: load_file_def raw)
  qed
  have step: "(case map_of (ld_apps ld) (app_name app) of
               Some previous \<Rightarrow>
                 if app_source previous = file then Inr ld else Inl (DuplicateName (app_name app))
             | None \<Rightarrow>
                 and_then (complete_app w password file app) (\<lambda>(app, roots). add_loaded file app roots ld)) = Inr ld'"
    using assms(1) unfolding load_file_def raw and_then.simps if_not_P [OF both] Let_def app_def .
  show ?thesis
  proof (cases "map_of (ld_apps ld) (app_name app)")
    case (Some previous)
    then show ?thesis using step ok by (simp split: if_splits)
  next
    case None
    then have "and_then (complete_app w password file app) (\<lambda>(app, roots). add_loaded file app roots ld) = Inr ld'"
      using step by simp
    then obtain result where r: "complete_app w password file app = Inr result"
      and "(case result of (app, roots) \<Rightarrow> add_loaded file app roots ld) = Inr ld'"
      unfolding and_then_Inr by blast
    moreover obtain app' roots where result: "result = (app', roots)" by (cases result)
    ultimately have c: "complete_app w password file app = Inr (app', roots)" and a: "add_loaded file app' roots ld = Inr ld'"
      by simp_all
    note good = complete_app_ok [OF c assms(3)]
    then have "map_of (ld_apps ld) (app_name app') = None" using None by simp
    then show ?thesis using good by (intro add_loaded_ok [OF a ok]) blast+
  qed
qed

lemma load_files_ok:
  "load_files w password files ld = Inr ld' \<Longrightarrow> loading_ok ld \<Longrightarrow> \<forall>file \<in> set files. is_abs file \<Longrightarrow> loading_ok ld'"
  by (induction files arbitrary: ld) (auto simp: and_then_Inr dest: load_file_ok)

text \<open>The files a glob is expanded to are absolute, as the glob is.\<close>

definition absolute_files :: "load_world \<Rightarrow> bool" where
  "absolute_files w \<longleftrightarrow> (\<forall>name path. lw_abs w name = Some path \<longrightarrow> is_abs path)
     \<and> (\<forall>pattern files. is_abs pattern \<and> lw_glob w pattern = Some files \<longrightarrow> (\<forall>f \<in> set files. is_abs f))
     \<and> (\<forall>folder path. is_abs folder \<and> Entry path \<in> set (lw_walk w folder) \<longrightarrow> is_abs path)"

lemma walk_matches_entries: "walk_matches pattern es = Some files \<Longrightarrow> f \<in> set files \<Longrightarrow> Entry f \<in> set es"
  by (induction pattern es arbitrary: files rule: walk_matches.induct) (auto split: if_splits)

lemma load_globs_ok:
  assumes "load_globs w password path patterns ld = Inr ld'" and "loading_ok ld" and w: "absolute_files w" and "is_abs path"
  shows "loading_ok ld'"
  using assms(1,2)
proof (induction patterns arbitrary: ld)
  case (Cons pattern patterns)
  let ?glob = "resolve (dir path) pattern"
  have g: "is_abs ?glob" using is_abs_resolve [OF is_abs_dir [OF assms(4)]] .
  note step = Cons.prems(1) [unfolded load_globs.simps Let_def]
  then obtain folder where root: "watch_root (lw_stat w) ?glob = Some (Inr folder)"
    by (auto simp: and_then_Inr)
  then have "root_result (watch_root (lw_stat w) ?glob) = Inr folder" by simp
  note step = step [unfolded this and_then.simps]
  obtain files where files: "expand_glob w ?glob folder = Some files"
    using step by (cases "expand_glob w ?glob folder") simp_all
  obtain ld1 where load: "load_files w password files (ld\<lparr>ld_roots := ld_roots ld @ [folder]\<rparr>) = Inr ld1"
    and rest: "load_globs w password path patterns ld1 = Inr ld'"
    using step [unfolded files option.case] unfolding and_then_Inr by blast
  have "is_abs folder" using watch_root_absolute [OF g, of "lw_stat w"] root by (auto simp: absolute_def)
  have "\<forall>f \<in> set files. is_abs f"
  proof (cases "any_depth \<in> set (split_on slash ?glob)")
    case True
    then have "walk_matches ?glob (lw_walk w folder) = Some files" using files by (simp add: expand_glob_def)
    then show ?thesis
      using walk_matches_entries w \<open>is_abs folder\<close> unfolding absolute_files_def by blast
  next
    case False
    then have "lw_glob w ?glob = Some files" using files by (simp add: expand_glob_def)
    then show ?thesis using w g unfolding absolute_files_def by blast
  qed
  then have "loading_ok ld1" using load_files_ok [OF load] Cons.prems(2) by simp
  then show ?case using Cons.IH rest by blast
qed simp

lemma dependencies_accepted:
  "ranges ord \<Longrightarrow> validate_dependencies ord apps = Some None \<Longrightarrow> dependencies_ok apps"
  using validate_dependencies_decides [of ord apps] by auto

lemma load_loading_ok:
  assumes "load w name = Inr sn" and "absolute_files w"
  shows "\<exists>ld. loading_ok ld \<and> validate_dependencies (lw_order w) (ld_apps ld) = Some None \<and> sn_apps sn = ld_apps ld"
proof -
  obtain path where p: "lw_abs w name = Some path"
    using assms(1) by (cases "lw_abs w name") (simp_all add: load_def)
  obtain cfg where cfg: "read_file w (lw_config w) path default_config = Inr cfg"
    using assms(1) by (cases "read_file w (lw_config w) path default_config") (simp_all add: load_def p)
  have "\<exists>password. load_config w path cfg password = Inr sn"
    using assms(1) by (auto simp: load_def p cfg split: option.splits)
  then obtain password where l: "load_config w path cfg password = Inr sn" by blast
  then obtain ld where g: "load_globs w password path (cfg_watch cfg) \<lparr>ld_apps = [], ld_sockets = [], ld_roots = [dir path]\<rparr> = Inr ld"
    and d: "validate_dependencies (lw_order w) (ld_apps ld) = Some None" and sn: "sn_apps sn = ld_apps ld"
    by (auto simp: load_config_def and_then_Inr split: if_splits option.splits)
  have "is_abs path" using assms(2) p by (auto simp: absolute_files_def)
  moreover have "loading_ok \<lparr>ld_apps = [], ld_sockets = [], ld_roots = [dir path]\<rparr>" by (simp add: loading_ok_def)
  ultimately have "loading_ok ld" using load_globs_ok [OF g _ assms(2)] by simp
  then show ?thesis using d sn by blast
qed

lemma schedules_planned: "(\<And>n a. (n, a) \<in> set apps \<Longrightarrow> app_ok a) \<Longrightarrow> \<exists>plans. plan_schedules apps = Inr plans"
proof (induction apps)
  case (Cons e apps)
  then show ?case by (cases e) (fastforce simp: app_ok_def)
qed simp

text \<open>
  C11: An accepted configuration has one application per name, each valid, with absolute clean paths
  and well-formed triggers and rules, no listener twice, and an acyclic graph of known, unscheduled
  dependencies; its schedules can all be planned.
\<close>

theorem load_accepted:
  assumes "load w name = Inr sn" and "absolute_files w" and "ranges (lw_order w)"
  shows "distinct (map fst (sn_apps sn))
    \<and> (\<forall>n a. (n, a) \<in> set (sn_apps sn) \<longrightarrow> n = app_name a \<and> app_ok a \<and> placed a)
    \<and> (\<forall>n1 a1 n2 a2. (n1, a1) \<in> set (sn_apps sn) \<and> (n2, a2) \<in> set (sn_apps sn)
         \<and> network (app_listen a1) \<noteq> [] \<and> app_listen a1 = app_listen a2 \<longrightarrow> n1 = n2)
    \<and> dependencies_ok (sn_apps sn) \<and> (\<exists>plans. plan_schedules (sn_apps sn) = Inr plans)"
proof -
  obtain ld where ok: "loading_ok ld" and d: "validate_dependencies (lw_order w) (ld_apps ld) = Some None"
    and sn: "sn_apps sn = ld_apps ld"
    using load_loading_ok [OF assms(1,2)] by blast
  have "\<exists>plans. plan_schedules (ld_apps ld) = Inr plans" using loading_okD [OF ok] schedules_planned by blast
  then show ?thesis
    using ok dependencies_accepted [OF assms(3) d] unfolding sn loading_ok_def by blast
qed

text \<open>A configuration of one file.\<close>

definition sample_load :: load_world where
  "sample_load = \<lparr>lw_goos = Linux, lw_tools = sample_tools,
     lw_abs = (\<lambda>name. Some (''/etc/'' @ name)),
     lw_content = (\<lambda>path. if path = ''/etc/ooth.yaml'' then Some ''main'' else Some ''app''),
     lw_decode = (\<lambda>bytes n. if n = 0 then Document (YamlMap []) else NoDocument),
     lw_config = (\<lambda>cfg document. Some (cfg\<lparr>cfg_watch := [''ooth/*.yaml'']\<rparr>)),
     lw_fields = (\<lambda>app document. Some (app\<lparr>app_name := ''web'', app_command := [''./run'']\<rparr>)),
     lw_stat = (\<lambda>path. IsDir), lw_glob = (\<lambda>pattern. if pattern = ''/etc/ooth/*.yaml'' then Some [''/etc/ooth/web.yaml''] else Some []),
     lw_walk = (\<lambda>folder. []), lw_md5 = (\<lambda>bytes. bytes), lw_order = (\<lambda>names. names)\<rparr>"

definition sample_loaded :: app where
  "sample_loaded = default_app\<lparr>app_values := YamlMap [], app_name := ''web'', app_command := [''/etc/ooth/run''],
     app_directory := ''/etc/ooth'', app_ready := ''started'', app_scale_window := second,
     app_source := ''/etc/ooth/web.yaml''\<rparr>"

lemma sample_load_result:
  "load sample_load ''ooth.yaml'' = Inr \<lparr>sn_apps = [(''web'', sample_loaded)], sn_roots = [''/etc''], sn_cgroup = [],
     sn_resources = \<lparr>max_cpu_percent = 90, min_available_memory_percent = 10\<rparr>\<rparr>"
proof -
  let ?cfg = "default_config\<lparr>cfg_watch := [''ooth/*.yaml'']\<rparr>" and ?ld = "\<lparr>ld_apps = [], ld_sockets = [], ld_roots = [''/etc'', ''/etc/ooth'']\<rparr>"
  have read: "read_file sample_load (lw_config sample_load) ''/etc/ooth.yaml'' default_config = Inr ?cfg" by code_simp
  have "file_match ''/etc/ooth/*.yaml'' [] = Some False" "index_any ''/etc/ooth/*.yaml'' ''*?['' = Some 10"
    "dir (take 10 ''/etc/ooth/*.yaml'') = ''/etc/ooth''"
    by code_simp+
  then have root: "watch_root (lw_stat sample_load) ''/etc/ooth/*.yaml'' = Some (Inr ''/etc/ooth'')"
    unfolding watch_root_def by (simp only: option.case) (simp add: sample_load_def nearest_dir.simps)
  have glob: "resolve (dir ''/etc/ooth.yaml'') ''ooth/*.yaml'' = ''/etc/ooth/*.yaml''" "dir ''/etc/ooth.yaml'' = ''/etc''"
    by code_simp+
  have files: "expand_glob sample_load ''/etc/ooth/*.yaml'' ''/etc/ooth'' = Some [''/etc/ooth/web.yaml'']" by code_simp
  have app: "load_files sample_load None [''/etc/ooth/web.yaml''] ?ld
      = Inr (?ld\<lparr>ld_apps := [(''web'', sample_loaded)]\<rparr>)" by code_simp
  have globs: "load_globs sample_load None ''/etc/ooth.yaml'' (cfg_watch ?cfg) \<lparr>ld_apps = [], ld_sockets = [], ld_roots = [''/etc'']\<rparr>
      = Inr (?ld\<lparr>ld_apps := [(''web'', sample_loaded)]\<rparr>)"
    using root glob files app by (simp add: root_result_def)
  have "validate_dependencies (lw_order sample_load) [(''web'', sample_loaded)] = Some None"
    "outer_roots [''/etc'', ''/etc/ooth''] = [''/etc'']" "percent_ok 90" "percent_ok 10"
    by code_simp+
  with globs glob have "load_config sample_load ''/etc/ooth.yaml'' ?cfg None = Inr \<lparr>sn_apps = [(''web'', sample_loaded)],
      sn_roots = [''/etc''], sn_cgroup = [], sn_resources = cfg_resources ?cfg\<rparr>"
    by (simp add: load_config_def default_config_def)
  moreover have "lw_abs sample_load ''ooth.yaml'' = Some ''/etc/ooth.yaml''" by code_simp
  ultimately show ?thesis using read by (simp add: load_def default_config_def)
qed

lemma load_accepted_witness:
  "load sample_load ''ooth.yaml'' = Inr \<lparr>sn_apps = [(''web'', sample_loaded)], sn_roots = [''/etc''], sn_cgroup = [],
     sn_resources = \<lparr>max_cpu_percent = 90, min_available_memory_percent = 10\<rparr>\<rparr>
   \<and> app_ok sample_loaded \<and> placed sample_loaded"
proof -
  have "absolute_files sample_load"
    by (auto simp: absolute_files_def sample_load_def is_abs_def)
  moreover have "ranges (lw_order sample_load)" by (simp add: ranges_def sample_load_def)
  ultimately show ?thesis using load_accepted [OF sample_load_result] sample_load_result by simp
qed

end
