(* ===== verification/Cgroups.thy ===== *)
theory Cgroups
  imports Paths Capacity
begin

text \<open>
  The resource limits of control groups in \<^verbatim>\<open>src/job_linux.go\<close>: \<^verbatim>\<open>resourceGroupPaths\<close> finds the
  groups whose limits the supervisor is under, \<^verbatim>\<open>readResourceGroup\<close> reads one of them and
  \<^verbatim>\<open>processOwner.resourceGroups\<close> reads them all.  The files are arguments.
\<close>

subsection \<open>The groups\<close>

text \<open>The replacer of the escapes of \<^verbatim>\<open>/proc/self/mountinfo\<close>.\<close>

fun unescape :: "go_string \<Rightarrow> go_string" where
  "unescape [] = []"
| "unescape (c # s) =
     (if prefix (CHR 0x5C # ''040'') (c # s) then CHR '' '' # unescape (drop 3 s)
      else if prefix (CHR 0x5C # ''011'') (c # s) then CHR 0x09 # unescape (drop 3 s)
      else if prefix (CHR 0x5C # ''012'') (c # s) then CHR 0x0A # unescape (drop 3 s)
      else if prefix (CHR 0x5C # ''134'') (c # s) then CHR 0x5C # unescape (drop 3 s)
      else c # unescape s)"

text \<open>The group of the supervisor itself: the last line of the unified hierarchy.\<close>

definition current_group :: "go_string \<Rightarrow> go_string" where
  "current_group membership =
     fold (\<lambda>line current. if prefix ''0::'' line then drop 3 line else current) (split_on CHR 0x0A membership) []"

text \<open>A group and its ancestors up to the mount point; \<open>None\<close> would be a climb that never ends.\<close>

partial_function (option) climb :: "go_string \<Rightarrow> go_string \<Rightarrow> go_string list \<Rightarrow> go_string list option" where
  "climb mount path paths =
     (let paths = (if path \<in> set paths then paths else paths @ [path])
      in if path = mount then Some paths else climb mount (dir path) paths)"

definition leaf_groups :: "go_string \<Rightarrow> go_string \<Rightarrow> go_string \<Rightarrow> go_string \<Rightarrow> go_string list" where
  "leaf_groups current worker_root mount_root mount =
     (case rel_path mount_root current of
        Some relative \<Rightarrow> if current \<noteq> [] \<and> inside relative then [join_path mount relative] else []
      | None \<Rightarrow> [])
     @ (case rel_path mount worker_root of
          Some relative \<Rightarrow> if worker_root \<noteq> [] \<and> inside relative then [worker_root] else []
        | None \<Rightarrow> [])"

fun climb_all :: "go_string \<Rightarrow> go_string list \<Rightarrow> go_string list \<Rightarrow> go_string list option" where
  "climb_all mount [] paths = Some paths"
| "climb_all mount (leaf # leaves) paths =
     (case climb mount leaf paths of None \<Rightarrow> None | Some paths \<Rightarrow> climb_all mount leaves paths)"

text \<open>One line of \<^verbatim>\<open>/proc/self/mountinfo\<close>; \<open>None\<close> also stands for the panic of a line with too few fields.\<close>

definition mount_fields :: "go_string \<Rightarrow> go_string list option" where
  "mount_fields line = (case cut line '' - cgroup2 '' of (before, rest, found) \<Rightarrow>
     if found then Some (go_fields before) else None)"

fun mount_groups :: "go_string \<Rightarrow> go_string \<Rightarrow> go_string list \<Rightarrow> go_string list \<Rightarrow> go_string list option" where
  "mount_groups current worker_root [] paths = Some paths"
| "mount_groups current worker_root (line # lines) paths =
     (case mount_fields line of
        None \<Rightarrow> mount_groups current worker_root lines paths
      | Some parts \<Rightarrow>
          if length parts < 5 then None
          else
            (let mount_root = unescape (parts ! 3); mount = unescape (parts ! 4)
             in case climb_all mount (leaf_groups current worker_root mount_root mount) paths of
                  None \<Rightarrow> None
                | Some paths \<Rightarrow> mount_groups current worker_root lines paths))"

definition resource_group_paths :: "go_string \<Rightarrow> go_string \<Rightarrow> go_string \<Rightarrow> go_string list option" where
  "resource_group_paths membership mounts worker_root =
     mount_groups (current_group membership) worker_root (split_on CHR 0x0A mounts) []"

subsection \<open>One group\<close>

datatype group_file = Content go_string | Missing | Unreadable

text \<open>\<^verbatim>\<open>strings.TrimSpace\<close>.\<close>

function trim_left :: "go_string \<Rightarrow> go_string" where
  "trim_left s = (if space_len s = 0 then s else trim_left (drop (space_len s) s))"
  by pat_completeness auto
termination
proof (relation "measure length", goal_cases)
  case (2 s)
  then have "s \<noteq> []" by (auto simp: space_len_def)
  then show ?case using 2 by (cases s) auto
qed simp

function trim_right :: "go_string \<Rightarrow> go_string" where
  "trim_right [] = []"
| "trim_right (c # s) =
     (let n = space_len (c # s)
      in if n = 0 then c # trim_right s
         else (let rest = trim_right (drop (n - 1) s) in if rest = [] then [] else take n (c # s) @ rest))"
  by pat_completeness auto
termination by (relation "measure length") auto

declare trim_left.simps [simp del] trim_right.simps [simp del]

definition trim_space :: "go_string \<Rightarrow> go_string" where
  "trim_space s = trim_right (trim_left s)"

text \<open>A file of the group, empty where the controller is not enabled; \<open>None\<close> is an error.\<close>

definition read_group_file :: "(go_string \<Rightarrow> group_file) \<Rightarrow> go_string \<Rightarrow> go_string option" where
  "read_group_file files name =
     (case files name of Content text \<Rightarrow> Some (trim_space text) | Missing \<Rightarrow> Some [] | Unreadable \<Rightarrow> None)"

datatype group_error =
    GroupUnreadable go_string
  | BadCpuMax
  | BadCpuQuota
  | BadCpuset
  | BadCpuStat
  | BadMemory

text \<open>
  The processors a quota is worth; the number parser is an argument, \<open>0\<close> stands for no limit as in
  the code.
\<close>

definition quota_cores :: "(go_string \<Rightarrow> rat option) \<Rightarrow> go_string \<Rightarrow> group_error + rat" where
  "quota_cores parse_float quota =
     (if quota = [] then Inr 0
      else case go_fields quota of
        [budget, period] \<Rightarrow>
          if budget = ''max'' then Inr 0
          else (case (parse_float budget, parse_float period) of
                  (Some b, Some p) \<Rightarrow> if b \<le> 0 \<or> p \<le> 0 then Inl BadCpuQuota else Inr (b / p)
                | _ \<Rightarrow> Inl BadCpuQuota)
      | _ \<Rightarrow> Inl BadCpuMax)"

fun cpuset_count :: "go_string list \<Rightarrow> int \<Rightarrow> group_error + int" where
  "cpuset_count [] count = Inr count"
| "cpuset_count (part # parts) count =
     (case cut part ''-'' of (first, final, spans) \<Rightarrow>
        (case atoi first of
           None \<Rightarrow> Inl BadCpuset
         | Some low \<Rightarrow>
             (case (if spans then atoi final else Some low) of
                None \<Rightarrow> Inl BadCpuset
              | Some high \<Rightarrow>
                  if high < low then Inl BadCpuset
                  else cpuset_count parts (wrap64 (count + (high - low + 1))))))"

definition cpuset_cores :: "go_string \<Rightarrow> rat \<Rightarrow> group_error + rat" where
  "cpuset_cores cpuset cores =
     (if cpuset = [] then Inr cores
      else and_then (cpuset_count (split_on CHR '','' cpuset) 0) (\<lambda>count.
        Inr (if cores = 0 \<or> of_int count < cores then of_int count else cores)))"

text \<open>The last line with the usage counts; \<open>None\<close> when there is none.\<close>

fun usage_seconds :: "go_string list \<Rightarrow> rat option \<Rightarrow> group_error + rat option" where
  "usage_seconds [] found = Inr found"
| "usage_seconds (line # lines) found =
     (if prefix ''usage_usec '' line then
        (case parse_uint 10 64 (drop 11 line) of
           None \<Rightarrow> Inl BadCpuStat
         | Some usage \<Rightarrow> usage_seconds lines (Some (of_nat usage / 1000000)))
      else usage_seconds lines found)"

definition available_percent :: "nat \<Rightarrow> nat \<Rightarrow> percent" where
  "available_percent maximum used =
     (if maximum > used then 100 * of_nat (maximum - used) / of_nat maximum else 0)"

definition read_file_or :: "(go_string \<Rightarrow> group_file) \<Rightarrow> go_string \<Rightarrow> (go_string \<Rightarrow> group_error + 'a) \<Rightarrow> group_error + 'a" where
  "read_file_or files name next =
     (case read_group_file files name of None \<Rightarrow> Inl (GroupUnreadable name) | Some text \<Rightarrow> next text)"

definition group_usage :: "(go_string \<Rightarrow> group_file) \<Rightarrow> rat \<Rightarrow> group_error + rat" where
  "group_usage files cores =
     (if cores > 0 then
        read_file_or files ''cpu.stat'' (\<lambda>text.
          and_then (usage_seconds (split_on CHR 0x0A text) None) (\<lambda>found.
            case found of None \<Rightarrow> Inl BadCpuStat | Some used \<Rightarrow> Inr used))
      else Inr 0)"

definition group_available :: "(go_string \<Rightarrow> group_file) \<Rightarrow> group_error + percent" where
  "group_available files =
     read_file_or files ''memory.max'' (\<lambda>limit.
       if limit = [] \<or> limit = ''max'' then Inr 100
       else (case parse_uint 10 64 limit of
               None \<Rightarrow> Inl BadMemory
             | Some maximum \<Rightarrow>
                 read_file_or files ''memory.current'' (\<lambda>text.
                   case parse_uint 10 64 text of
                     None \<Rightarrow> Inl BadMemory
                   | Some used \<Rightarrow> Inr (available_percent maximum used))))"

definition read_resource_group :: "(go_string \<Rightarrow> rat option) \<Rightarrow> (go_string \<Rightarrow> group_file) \<Rightarrow> group_error + resource_group" where
  "read_resource_group parse_float files =
     read_file_or files ''cpu.max'' (\<lambda>quota.
     and_then (quota_cores parse_float quota) (\<lambda>quota_limit.
     read_file_or files ''cpuset.cpus.effective'' (\<lambda>cpuset.
     and_then (cpuset_cores cpuset quota_limit) (\<lambda>cores.
     and_then (group_usage files cores) (\<lambda>used.
     and_then (group_available files) (\<lambda>available.
       Inr \<lparr>cpu_seconds = used, group_cores = cores, group_memory = available\<rparr>))))))"

subsection \<open>All groups\<close>

datatype groups_error = NoMembership | NoMounts | GroupError go_string group_error | PathsPanic

fun read_groups :: "(go_string \<Rightarrow> rat option) \<Rightarrow> (go_string \<Rightarrow> go_string \<Rightarrow> group_file) \<Rightarrow> go_string list
    \<Rightarrow> groups_error + (go_string \<times> resource_group) list" where
  "read_groups parse_float tree [] = Inr []"
| "read_groups parse_float tree (path # paths) =
     (case read_resource_group parse_float (tree path) of
        Inl e \<Rightarrow> Inl (GroupError path e)
      | Inr found \<Rightarrow> and_then (read_groups parse_float tree paths) (\<lambda>rest. Inr ((path, found) # rest)))"

definition resource_groups :: "(go_string \<Rightarrow> rat option) \<Rightarrow> (go_string \<Rightarrow> go_string \<Rightarrow> group_file) \<Rightarrow> go_string option
    \<Rightarrow> go_string option \<Rightarrow> go_string \<Rightarrow> groups_error + (go_string \<times> resource_group) list" where
  "resource_groups parse_float tree membership mounts worker_root =
     (case membership of None \<Rightarrow> Inl NoMembership
      | Some members \<Rightarrow>
          (case mounts of None \<Rightarrow> Inl NoMounts
           | Some table \<Rightarrow>
               (case resource_group_paths members table worker_root of
                  None \<Rightarrow> Inl PathsPanic
                | Some paths \<Rightarrow> read_groups parse_float tree paths)))"

subsection \<open>The climb ends\<close>

text \<open>The groups from a mount point down to a group below it.\<close>

definition between :: "go_string \<Rightarrow> go_string \<Rightarrow> go_string \<Rightarrow> bool" where
  "between mount leaf p \<longleftrightarrow> absolute p \<and> prefix (clean_parts mount) (clean_parts p)
     \<and> prefix (clean_parts p) (clean_parts leaf)"

lemma between_take:
  assumes "\<forall>w \<in> set (ms @ down). plain w"
  shows "between (abs_path ms) (abs_path (ms @ down)) p \<longleftrightarrow> (\<exists>ws. prefix ws down \<and> p = abs_path (ms @ ws))"
proof
  assume "between (abs_path ms) (abs_path (ms @ down)) p"
  then obtain ws where "clean_parts p = ms @ ws" "prefix ws down" "absolute p"
    using assms by (auto simp: between_def prefix_def)
  then show "\<exists>ws. prefix ws down \<and> p = abs_path (ms @ ws)" using absolute_parts [of p] by auto
next
  assume "\<exists>ws. prefix ws down \<and> p = abs_path (ms @ ws)"
  then obtain ws rest where p: "down = ws @ rest" "p = abs_path (ms @ ws)" by (auto simp: prefix_def)
  then have "\<forall>w \<in> set (ms @ ws). plain w" using assms by auto
  then have "absolute p" "clean_parts p = ms @ ws" unfolding p(2) by (rule absolute_abs_path, rule clean_parts_abs_path)
  then show "between (abs_path ms) (abs_path (ms @ down)) p" using assms p by (auto simp: between_def)
qed

lemma climb_parts:
  assumes "\<forall>w \<in> set (ms @ down). plain w"
  shows "\<exists>paths'. climb (abs_path ms) (abs_path (ms @ down)) paths = Some paths'
    \<and> set paths' = set paths \<union> {p. \<exists>ws. prefix ws down \<and> p = abs_path (ms @ ws)}
    \<and> (distinct paths \<longrightarrow> distinct paths')"
  using assms
proof (induction down arbitrary: paths rule: rev_induct)
  case Nil
  then show ?case by (subst climb.simps) (auto simp: Let_def)
next
  case (snoc w down)
  let ?leaf = "abs_path (ms @ down @ [w])"
  define paths1 where "paths1 = (if ?leaf \<in> set paths then paths else paths @ [?leaf])"
  have ne: "?leaf \<noteq> abs_path ms" using snoc.prems abs_path_inj [of "ms @ down @ [w]" ms] by auto
  have up: "dir ?leaf = abs_path (ms @ down)" using dir_abs_path_snoc [of "ms @ down" w] snoc.prems by simp
  have "climb (abs_path ms) ?leaf paths = climb (abs_path ms) (abs_path (ms @ down)) paths1"
    using ne by (subst climb.simps) (simp add: up paths1_def [symmetric] Let_def)
  moreover have "set paths1 = insert ?leaf (set paths)" "distinct paths \<longrightarrow> distinct paths1"
    by (auto simp: paths1_def)
  moreover obtain paths' where "climb (abs_path ms) (abs_path (ms @ down)) paths1 = Some paths'"
    "set paths' = set paths1 \<union> {p. \<exists>ws. prefix ws down \<and> p = abs_path (ms @ ws)}"
    "distinct paths1 \<longrightarrow> distinct paths'"
    using snoc.IH [of paths1] snoc.prems by auto
  moreover have "prefix ws (down @ [w]) \<longleftrightarrow> ws = down @ [w] \<or> prefix ws down" for ws by simp
  ultimately show ?case by auto
qed

lemma climb_between:
  assumes "absolute mount" and "absolute leaf" and "prefix (clean_parts mount) (clean_parts leaf)"
  shows "\<exists>paths'. climb mount leaf paths = Some paths' \<and> set paths' = set paths \<union> {p. between mount leaf p}
    \<and> (distinct paths \<longrightarrow> distinct paths')"
proof -
  define ms where "ms = clean_parts mount"
  obtain down where d: "clean_parts leaf = ms @ down" using assms(3) by (auto simp: prefix_def ms_def)
  have m: "mount = abs_path ms" unfolding ms_def by (rule absolute_parts [OF assms(1)])
  have l: "leaf = abs_path (ms @ down)" using absolute_parts [OF assms(2)] unfolding d .
  have "\<forall>w \<in> set (ms @ down). plain w"
    using clean_parts_plain [of leaf] assms(2) d by (simp add: absolute_def)
  from climb_parts [OF this, of paths] between_take [OF this] show ?thesis unfolding m l by simp
qed

lemma climb_all_between:
  assumes "absolute mount" and "\<forall>leaf \<in> set leaves. absolute leaf \<and> prefix (clean_parts mount) (clean_parts leaf)"
  shows "\<exists>paths'. climb_all mount leaves paths = Some paths'
    \<and> set paths' = set paths \<union> {p. \<exists>leaf \<in> set leaves. between mount leaf p} \<and> (distinct paths \<longrightarrow> distinct paths')"
  using assms(2)
proof (induction leaves arbitrary: paths)
  case (Cons leaf leaves)
  then obtain paths1 where p1: "climb mount leaf paths = Some paths1"
    "set paths1 = set paths \<union> {p. between mount leaf p}" "distinct paths \<longrightarrow> distinct paths1"
    using climb_between [OF assms(1), of leaf paths] by auto
  then show ?case using Cons.IH [of paths1] Cons.prems by auto
qed simp

text \<open>The groups to climb from lie below the mount point.\<close>

lemma leaf_groups_below:
  assumes "absolute mount" and "absolute mount_root" and "current = [] \<or> absolute current"
    and "worker_root = [] \<or> absolute worker_root" and "leaf \<in> set (leaf_groups current worker_root mount_root mount)"
  shows "absolute leaf \<and> prefix (clean_parts mount) (clean_parts leaf)"
proof -
  consider (own) r where "rel_path mount_root current = Some r" "inside r" "current \<noteq> []" "leaf = join_path mount r"
    | (worker) r where "rel_path mount worker_root = Some r" "inside r" "worker_root \<noteq> []" "leaf = worker_root"
    using assms(5) unfolding leaf_groups_def
    by (cases "rel_path mount_root current"; cases "rel_path mount worker_root") (auto split: if_splits)
  then show ?thesis
  proof cases
    case own
    then have abs: "is_abs mount_root" "is_abs current" "is_abs mount" using assms(1-3) by (auto simp: absolute_def)
    obtain down where d: "\<forall>w \<in> set down. plain w" "r = (if down = [] then ''.'' else joined down)"
      using rel_path_down [OF abs(1,2) own(1,2)] by blast
    then have leaf: "leaf = abs_path (clean_parts mount @ down)" using own(4) join_down [OF abs(3)] by simp
    moreover have "\<forall>w \<in> set (clean_parts mount @ down). plain w" using clean_parts_plain [OF abs(3)] d by auto
    ultimately show ?thesis using absolute_abs_path by simp
  next
    case worker
    then have "absolute worker_root" using assms(4) by simp
    then show ?thesis using worker rel_path_inside [of mount worker_root] assms(1) by (auto simp: absolute_def)
  qed
qed


definition sample_mount :: go_string where
  "sample_mount = ''25 1 0:2 / /sys/fs/cgroup rw - cgroup2 cgroup2 rw''"


subsection \<open>What a group is measured to be\<close>

lemma available_percent_range: "0 \<le> available_percent maximum used \<and> available_percent maximum used \<le> 100"
proof (cases "maximum > used")
  case True
  then have "(100 :: rat) * of_nat (maximum - used) \<le> 100 * of_nat maximum" by simp
  then show ?thesis using True by (simp add: available_percent_def divide_le_eq)
qed (simp add: available_percent_def)

lemma usage_seconds_nonneg:
  "usage_seconds lines found = Inr (Some s) \<Longrightarrow> (\<And>f. found = Some f \<Longrightarrow> 0 \<le> f) \<Longrightarrow> 0 \<le> s"
proof (induction lines found rule: usage_seconds.induct)
  case (2 line lines found)
  show ?case
  proof (cases "prefix ''usage_usec '' line")
    case True
    then obtain used where "parse_uint 10 64 (drop 11 line) = Some used"
      using "2.prems"(1) by (cases "parse_uint 10 64 (drop 11 line)") simp_all
    then show ?thesis using "2.IH"(1) True "2.prems"(1) by simp
  next
    case False
    then show ?thesis using "2.IH"(2) "2.prems" by simp
  qed
qed simp

lemma group_available_range: "group_available files = Inr m \<Longrightarrow> 0 \<le> m \<and> m \<le> 100"
  using available_percent_range
  by (auto simp: group_available_def read_file_or_def split: option.splits if_splits)

lemma group_usage_nonneg: "group_usage files cores = Inr s \<Longrightarrow> 0 \<le> s"
  using usage_seconds_nonneg [of _ None s]
  by (auto simp: group_usage_def read_file_or_def and_then_Inr split: option.splits if_splits)

lemma cpuset_cores_quota: "cpuset_cores cpuset q = Inr c \<Longrightarrow> q \<noteq> 0 \<Longrightarrow> c \<le> q"
  by (auto simp: cpuset_cores_def and_then_Inr split: if_splits)

text \<open>
  The measurements of an accepted control group are meaningful: memory is a percentage, the
  time used is not negative, and a quota bounds the processors whatever the cpuset says.
\<close>

theorem group_measured:
  assumes "read_resource_group parse_float files = Inr g"
  shows "0 \<le> group_memory g \<and> group_memory g \<le> 100 \<and> 0 \<le> cpu_seconds g
    \<and> (\<forall>quota q. read_group_file files ''cpu.max'' = Some quota \<and> quota_cores parse_float quota = Inr q \<and> q \<noteq> 0
         \<longrightarrow> group_cores g \<le> q)"
proof -
  obtain quota where quota: "read_group_file files ''cpu.max'' = Some quota"
    using assms by (cases "read_group_file files ''cpu.max''") (simp_all add: read_resource_group_def read_file_or_def)
  obtain q where q: "quota_cores parse_float quota = Inr q"
    using assms quota by (auto simp: read_resource_group_def read_file_or_def and_then_Inr)
  obtain cpuset where cpuset: "read_group_file files ''cpuset.cpus.effective'' = Some cpuset"
    using assms quota q
    by (cases "read_group_file files ''cpuset.cpus.effective''") (simp_all add: read_resource_group_def read_file_or_def)
  obtain used available where "cpuset_cores cpuset q = Inr (group_cores g)" "group_usage files (group_cores g) = Inr (cpu_seconds g)"
    "group_available files = Inr (group_memory g)"
    using assms quota q cpuset by (auto simp: read_resource_group_def read_file_or_def and_then_Inr)
  then show ?thesis
    using group_available_range group_usage_nonneg cpuset_cores_quota quota q by auto
qed

definition sample_files :: "go_string \<Rightarrow> group_file" where
  "sample_files name = (if name = ''cpu.max'' then Content ''200000 100000'' else if name = ''cpu.stat'' then Content ''usage_usec 3000000''
     else if name = ''memory.max'' then Content ''400'' else if name = ''memory.current'' then Content ''300'' else Missing)"

definition sample_float :: "go_string \<Rightarrow> rat option" where
  "sample_float s = map_option of_nat (parse_uint 10 64 s)"

lemma group_measured_witness:
  "read_resource_group sample_float sample_files = Inr \<lparr>cpu_seconds = 3, group_cores = 2, group_memory = 25\<rparr> \<and> (0::rat) \<le> 3"
proof -
  have e: "read_resource_group sample_float sample_files = Inr \<lparr>cpu_seconds = 3, group_cores = 2, group_memory = 25\<rparr>"
    by code_simp
  from group_measured [OF e] e show ?thesis by simp
qed

end
