(* ===== verification/Jobs.thy ===== *)
theory Jobs
  imports Paths Config
begin

text \<open>
  Processes and identities on Linux, \<^verbatim>\<open>src/job_linux.go\<close>: inherited listeners, the credentials of
  an \<^verbatim>\<open>Identity\<close>, the permissions of its socket with their rollback, the owner of all
  processes (\<^verbatim>\<open>processOwner\<close>) and the family of one (\<^verbatim>\<open>processJob\<close>).  The answers of the operating
  system are arguments; what is done to it is a list of effects.
\<close>

subsection \<open>Inherited listeners\<close>

text \<open>The extra files of a command, \<open>None\<close> for a \<^verbatim>\<open>nil\<close>, and the number the listener gets in the child.\<close>

definition inherit_listener :: "'file \<Rightarrow> int \<Rightarrow> 'file option list \<Rightarrow> 'file option list \<times> int" where
  "inherit_listener file fd extra =
     (let extra = extra @ replicate (nat (fd - 3) - length extra) None @ [Some file]
      in (extra, 2 + int (length extra)))"

lemma inherit_listener_number:
  assumes "3 \<le> fd" and "int (length extra) \<le> fd - 3" and "inherit_listener file fd extra = (extra', number)"
  shows "number = fd \<and> extra' ! nat (number - 3) = Some file \<and> take (length extra) extra' = extra"
proof -
  let ?pad = "replicate (nat (fd - 3) - length extra) None"
  have e: "extra' = (extra @ ?pad) @ [Some file]" and n: "number = 2 + int (length extra')"
    using assms(3) by (auto simp: inherit_listener_def Let_def)
  have "length (extra @ ?pad) = nat (fd - 3)" using assms(1,2) by simp
  then show ?thesis using e n assms(1) by (simp add: nth_append)
qed

subsection \<open>Credentials\<close>

record account =
  ac_uid :: go_string
  ac_gid :: go_string
  ac_groups :: "go_string list option"

record user_world =
  uw_euid :: int
  uw_egid :: int
  uw_by_id :: "go_string \<Rightarrow> account option"
  uw_by_name :: "go_string \<Rightarrow> account option"
  uw_group_by_id :: "go_string \<Rightarrow> go_string option"
  uw_group_by_name :: "go_string \<Rightarrow> go_string option"

record credential =
  cr_uid :: nat
  cr_gid :: nat
  cr_groups :: "nat list"
  cr_no_set_groups :: bool

datatype identity_error =
    PasswordUnsupported
  | UnknownUser
  | UnknownGroup
  | BadUserId
  | BadGroupId
  | GroupsUnknown

abbreviation numeric :: "go_string \<Rightarrow> nat option" where "numeric \<equiv> parse_uint 10 32"

definition find_account :: "user_world \<Rightarrow> go_string \<Rightarrow> account option" where
  "find_account w user =
     (if user = [] then uw_by_id w (show_int (uw_euid w))
      else if numeric user \<noteq> None then uw_by_id w user
      else uw_by_name w user)"

text \<open>The group of the process: the one configured, else the primary group of the account.\<close>

definition find_group :: "user_world \<Rightarrow> go_string \<Rightarrow> account \<Rightarrow> go_string option" where
  "find_group w configured account =
     (if configured = [] then Some (ac_gid account)
      else if numeric configured \<noteq> None then uw_group_by_id w configured
      else uw_group_by_name w configured)"

fun numeric_all :: "go_string list \<Rightarrow> nat list option" where
  "numeric_all [] = Some []"
| "numeric_all (g # gs) =
     (case numeric g of None \<Rightarrow> None | Some n \<Rightarrow> map_option (\<lambda>ns. n # ns) (numeric_all gs))"

text \<open>\<^verbatim>\<open>Identity.credentials\<close>; \<open>Inr None\<close> leaves the identity of the supervisor.\<close>

definition credentials :: "user_world \<Rightarrow> identity \<Rightarrow> identity_error + credential option" where
  "credentials w i =
     (if id_password i \<noteq> None then Inl PasswordUnsupported
      else if id_user i = [] \<and> id_group i = [] then Inr None
      else
        (case find_account w (id_user i) of None \<Rightarrow> Inl UnknownUser | Some account \<Rightarrow>
        (case find_group w (id_group i) account of None \<Rightarrow> Inl UnknownGroup | Some gid_text \<Rightarrow>
        (case numeric (ac_uid account) of None \<Rightarrow> Inl BadUserId | Some uid \<Rightarrow>
        (case numeric gid_text of None \<Rightarrow> Inl BadGroupId | Some gid \<Rightarrow>
        (case ac_groups account of None \<Rightarrow> Inl GroupsUnknown | Some texts \<Rightarrow>
        (case numeric_all texts of None \<Rightarrow> Inl BadGroupId | Some groups \<Rightarrow>
           Inr (Some \<lparr>cr_uid = uid, cr_gid = gid, cr_groups = groups,
             cr_no_set_groups = (uw_euid w \<noteq> 0 \<and> int uid = uw_euid w)\<rparr>))))))))"

subsection \<open>Permissions of a socket\<close>

record socket_file =
  so_uid :: int
  so_gid :: int
  so_mode :: mode
  so_socket :: bool

text \<open>Whether the calls that change owner and mode succeed.\<close>

record change_world =
  ch_own :: bool
  ch_mode :: bool

definition change_owner :: "bool \<Rightarrow> int \<Rightarrow> int \<Rightarrow> socket_file \<Rightarrow> socket_file" where
  "change_owner works uid gid file = (if works then file\<lparr>so_uid := uid, so_gid := gid\<rparr> else file)"

definition change_mode :: "bool \<Rightarrow> mode \<Rightarrow> socket_file \<Rightarrow> socket_file" where
  "change_mode works m file = (if works then file\<lparr>so_mode := m\<rparr> else file)"

text \<open>The function that is returned: to keep the change, or to restore what was there before.\<close>

definition finish_socket :: "change_world \<Rightarrow> socket_file \<Rightarrow> bool \<Rightarrow> socket_file \<Rightarrow> socket_file \<times> bool" where
  "finish_socket w previous commit file =
     (if commit then (file, True)
      else (change_mode (ch_mode w) (so_mode previous)
              (change_owner (ch_own w) (so_uid previous) (so_gid previous) file),
            ch_own w \<and> ch_mode w))"

datatype socket_error =
    NoIdentity identity_error
  | NoFile
  | NotSocket
  | OwnerRefused
  | ModeRefused bool

text \<open>
  \<^verbatim>\<open>Identity.socket\<close> on the file at the path: the error or what to restore, and the file
  afterwards.  \<open>ModeRefused\<close> tells whether the rollback worked.
\<close>

definition socket_owner :: "user_world \<Rightarrow> credential option \<Rightarrow> int \<times> int" where
  "socket_owner w c = (case c of None \<Rightarrow> (uw_euid w, uw_egid w) | Some c \<Rightarrow> (int (cr_uid c), int (cr_gid c)))"

definition set_socket :: "user_world \<Rightarrow> change_world \<Rightarrow> change_world \<Rightarrow> identity \<Rightarrow> mode \<Rightarrow> socket_file option
    \<Rightarrow> (socket_error + socket_file) \<times> socket_file option" where
  "set_socket w change rollback i m file =
     (case credentials w i of Inl e \<Rightarrow> (Inl (NoIdentity e), file) | Inr c \<Rightarrow>
      (case file of None \<Rightarrow> (Inl NoFile, file) | Some previous \<Rightarrow>
         if \<not> so_socket previous then (Inl NotSocket, file)
         else if \<not> ch_own change then (Inl OwnerRefused, file)
         else
           (let owned = change_owner True (fst (socket_owner w c)) (snd (socket_owner w c)) previous
            in if ch_mode change then (Inr previous, Some (change_mode True m owned))
               else (case finish_socket rollback previous False owned of
                       (restored, works) \<Rightarrow> (Inl (ModeRefused works), Some restored)))))"


definition sample_users :: user_world where
  "sample_users = \<lparr>uw_euid = 0, uw_egid = 0, uw_by_id = (\<lambda>_. None),
     uw_by_name = (\<lambda>name. if name = ''www'' then Some \<lparr>ac_uid = ''33'', ac_gid = ''34'', ac_groups = Some [''34'']\<rparr> else None),
     uw_group_by_id = (\<lambda>_. None), uw_group_by_name = (\<lambda>_. None)\<rparr>"


subsection \<open>The family of a process\<close>

text \<open>What is done to the machine.\<close>

datatype os_effect =
    MadeDirectory go_string
  | RemovedDirectory go_string
  | KilledGroup go_string
  | KilledProcess int
  | SubreaperSet bool
  | Reaped int

text \<open>
  A command: the object it is, the process it has become and whether it is placed in a control
  group when it starts.
  A job: its command, its group, empty without one, and whether the group's directory is open.
\<close>

record command =
  cm_id :: nat
  cm_pid :: "int option"
  cm_grouped :: bool

record job =
  jb_command :: command
  jb_path :: go_string
  jb_open :: bool

record new_job_world =
  nj_mkdir :: "go_string option"
  nj_open :: bool

definition new_process_job :: "new_job_world \<Rightarrow> go_string \<Rightarrow> command \<Rightarrow> job option \<times> os_effect list" where
  "new_process_job w folder cmd =
     (if folder = [] then (Some \<lparr>jb_command = cmd, jb_path = [], jb_open = False\<rparr>, [])
      else case nj_mkdir w of
        None \<Rightarrow> (None, [])
      | Some path \<Rightarrow>
          if nj_open w
          then (Some \<lparr>jb_command = cmd\<lparr>cm_grouped := True\<rparr>, jb_path = path, jb_open = True\<rparr>, [MadeDirectory path])
          else (None, [MadeDirectory path, RemovedDirectory path]))"

definition kill_job :: "job \<Rightarrow> os_effect list" where
  "kill_job j =
     (if jb_path j \<noteq> [] then (if jb_open j then [KilledGroup (jb_path j)] else [])
      else case cm_pid (jb_command j) of None \<Rightarrow> [] | Some pid \<Rightarrow> [KilledProcess pid])"

text \<open>
  The loop that waits until the group is empty, over what the successive reads of
  \<^verbatim>\<open>cgroup.events\<close> give and whether the wait behind each works: \<open>None\<close> while it is still waiting,
  else whether it has ended well.
\<close>

fun await_empty :: "(go_string \<times> bool) list \<Rightarrow> bool option" where
  "await_empty [] = None"
| "await_empty ((text, waited) # reads) =
     (if text = [] then Some False
      else if contains text (''populated 0'' @ [CHR 0x0A]) then Some True
      else if \<not> waited then Some False
      else await_empty reads)"

record close_world =
  cl_watch :: bool
  cl_kill :: bool
  cl_reads :: "(go_string \<times> bool) list"
  cl_walk :: "go_string list \<times> bool"
  cl_remove :: "go_string \<Rightarrow> bool"

text \<open>The directories are removed from the last to the first, up to the first that cannot be.\<close>

fun remove_all :: "(go_string \<Rightarrow> bool) \<Rightarrow> go_string list \<Rightarrow> bool \<times> os_effect list" where
  "remove_all works [] = (True, [])"
| "remove_all works (d # ds) =
     (if works d then (case remove_all works ds of (fine, es) \<Rightarrow> (fine, RemovedDirectory d # es)) else (False, []))"

text \<open>
  \<^verbatim>\<open>processJob.Close\<close>: the job afterwards, whether there was no error, and the effects; \<open>None\<close> while
  it waits for the group to become empty.
\<close>

definition close_job :: "close_world \<Rightarrow> job \<Rightarrow> (job \<times> bool \<times> os_effect list) option" where
  "close_job w j =
     (if \<not> jb_open j then Some (j, True, [])
      else if \<not> cl_watch w \<or> \<not> cl_kill w then Some (j, False, [])
      else case await_empty (cl_reads w) of
        None \<Rightarrow> None
      | Some False \<Rightarrow> Some (j, False, [KilledGroup (jb_path j)])
      | Some True \<Rightarrow>
          (let shut = j\<lparr>jb_open := False\<rparr>; (directories, walked) = cl_walk w
           in if \<not> walked then Some (shut, False, [KilledGroup (jb_path j)])
              else (case remove_all (cl_remove w) (rev directories) of
                      (fine, es) \<Rightarrow> Some (shut, fine, KilledGroup (jb_path j) # es))))"

text \<open>The entries of a walk over the group: the text of a \<^verbatim>\<open>cgroup.procs\<close>, another file, a file gone, an error.\<close>

datatype member_entry = Procs go_string | OtherEntry | GoneEntry | BadEntry

fun pids_of :: "go_string list \<Rightarrow> int list option" where
  "pids_of [] = Some []"
| "pids_of (s # ss) = (case atoi s of None \<Rightarrow> None | Some pid \<Rightarrow> map_option (\<lambda>pids. pid # pids) (pids_of ss))"

fun walk_members :: "member_entry list \<Rightarrow> int list option" where
  "walk_members [] = Some []"
| "walk_members (Procs text # es) =
     (case pids_of (go_fields text) of None \<Rightarrow> None | Some pids \<Rightarrow> map_option (\<lambda>rest. pids @ rest) (walk_members es))"
| "walk_members (OtherEntry # es) = walk_members es"
| "walk_members (GoneEntry # es) = walk_members es"
| "walk_members (BadEntry # es) = None"

definition members :: "member_entry list \<Rightarrow> job \<Rightarrow> int list option" where
  "members es j = (if jb_path j = [] then None else if \<not> jb_open j then Some [] else walk_members es)"

subsection \<open>The owner of all processes\<close>

text \<open>
  \<open>ow_managed\<close> maps the processes in the supervisor's care to their commands, \<open>ow_reaping\<close> tells that
  adopted orphans are collected.
\<close>

record owner =
  ow_root :: go_string
  ow_managed :: "(int \<times> command) list"
  ow_reaping :: bool
  ow_reset_subreaper :: bool
  ow_group_unavailable :: bool

record owner_world =
  nw_environment :: go_string
  nw_membership :: "go_string option"
  nw_mkdir :: "go_string \<Rightarrow> go_string option"
  nw_kill_file :: "go_string \<Rightarrow> bool"
  nw_pid :: int
  nw_subreaper :: "int option"
  nw_set_subreaper :: bool

definition owner_directory :: "owner_world \<Rightarrow> go_string \<Rightarrow> go_string" where
  "owner_directory w configured =
     (let folder = (if configured = [] then nw_environment w else configured)
      in if folder \<noteq> [] then folder
         else case nw_membership w of
           None \<Rightarrow> []
         | Some text \<Rightarrow>
             fold (\<lambda>line folder. if prefix ''0::/'' line then join_path ''/sys/fs/cgroup'' (drop 4 line) else folder)
               (split_on CHR 0x0A text) [])"

definition new_process_owner :: "owner_world \<Rightarrow> go_string \<Rightarrow> owner \<times> os_effect list" where
  "new_process_owner w configured =
     (let folder = owner_directory w configured;
          (path, made) = (case (if folder = [] then None else nw_mkdir w folder) of
              None \<Rightarrow> ([], [])
            | Some path \<Rightarrow> if nw_kill_file w path then (path, [MadeDirectory path])
                           else ([], [MadeDirectory path, RemovedDirectory path]));
          first = (nw_pid w = 1);
          setting = (\<not> first \<and> nw_subreaper w = Some 0);
          reaping = (first \<or> (if setting then nw_set_subreaper w else nw_subreaper w \<noteq> None))
      in (\<lparr>ow_root = path, ow_managed = [], ow_reaping = reaping,
           ow_reset_subreaper = (setting \<and> nw_set_subreaper w), ow_group_unavailable = False\<rparr>,
          made @ (if setting \<and> nw_set_subreaper w then [SubreaperSet True] else [])))"

text \<open>
  How starting a command ends: the process, or a failure, which is \<open>refused\<close> for the error numbers a
  missing permission or an unsupported call gives.
\<close>

datatype start_result = Running int | StartFailed bool

record start_world =
  sw_job :: new_job_world
  sw_started :: start_result
  sw_close :: close_world
  sw_retry :: "(nat \<times> int) option"

definition start_job :: "start_world \<Rightarrow> command \<Rightarrow> owner \<Rightarrow> (owner \<times> job option \<times> os_effect list) option" where
  "start_job w cmd ow =
     (let folder = (if ow_group_unavailable ow then [] else ow_root ow)
      in case new_process_job (sw_job w) folder cmd of
           (None, effects) \<Rightarrow> Some (ow, None, effects)
         | (Some j, effects) \<Rightarrow>
             (case sw_started w of
                Running pid \<Rightarrow>
                  (let cmd = (jb_command j)\<lparr>cm_pid := Some pid\<rparr>
                   in Some (ow\<lparr>ow_managed := AList.update pid cmd (ow_managed ow)\<rparr>, Some (j\<lparr>jb_command := cmd\<rparr>), effects))
              | StartFailed refused \<Rightarrow>
                  (case close_job (sw_close w) j of
                     None \<Rightarrow> None
                   | Some (shut, fine, es) \<Rightarrow>
                       if \<not> fine \<or> folder = [] \<or> \<not> refused then Some (ow, None, effects @ es)
                       else (case sw_retry w of
                               None \<Rightarrow> Some (ow, None, effects @ es)
                             | Some (retry, pid) \<Rightarrow>
                                 (let cmd = cmd\<lparr>cm_id := retry, cm_pid := Some pid, cm_grouped := False\<rparr>
                                  in Some (ow\<lparr>ow_group_unavailable := True,
                                               ow_managed := AList.update pid cmd (ow_managed ow)\<rparr>,
                                           Some \<lparr>jb_command = cmd, jb_path = [], jb_open = False\<rparr>, effects @ es))))))"

text \<open>
  \<^verbatim>\<open>processOwner.reap\<close>: the words of the lists of children, and whether waiting for a process collects it.
\<close>

fun reap_words :: "(int \<Rightarrow> bool) \<Rightarrow> owner \<Rightarrow> go_string list \<Rightarrow> os_effect list" where
  "reap_words collected ow [] = []"
| "reap_words collected ow (s # ss) =
     (case atoi s of
        None \<Rightarrow> reap_words collected ow ss
      | Some pid \<Rightarrow>
          if map_of (ow_managed ow) pid \<noteq> None then reap_words collected ow ss
          else (if collected pid then [Reaped pid] else []) @ reap_words collected ow ss)"

definition reap :: "(int \<Rightarrow> bool) \<Rightarrow> go_string list \<Rightarrow> owner \<Rightarrow> os_effect list" where
  "reap collected files ow = (if ow_reaping ow then reap_words collected ow (concat (map go_fields files)) else [])"

text \<open>\<^verbatim>\<open>processOwner.Wait\<close> once the process has exited.\<close>

definition wait_job :: "(int \<Rightarrow> bool) \<Rightarrow> go_string list \<Rightarrow> job \<Rightarrow> owner \<Rightarrow> owner \<times> os_effect list" where
  "wait_job collected files j ow =
     (let ow = (case cm_pid (jb_command j) of
                  None \<Rightarrow> ow
                | Some pid \<Rightarrow> if map_option cm_id (map_of (ow_managed ow) pid) = Some (cm_id (jb_command j))
                               then ow\<lparr>ow_managed := AList.delete pid (ow_managed ow)\<rparr> else ow)
      in (ow, reap collected files ow))"

definition close_owner :: "(int \<Rightarrow> bool) \<Rightarrow> go_string list \<Rightarrow> owner \<Rightarrow> os_effect list" where
  "close_owner collected files ow =
     reap collected files ow
     @ (if ow_root ow \<noteq> [] then [RemovedDirectory (ow_root ow)] else [])
     @ (if ow_reset_subreaper ow then [SubreaperSet False] else [])"

subsection \<open>Closed families and started processes\<close>

lemma remove_all_fine: "remove_all works ds = (True, es) \<Longrightarrow> es = map RemovedDirectory ds"
  by (induction ds arbitrary: es) (auto split: if_splits prod.splits)

text \<open>
  C34: When the family of a process has been closed, its whole group has been killed first and every
  directory of it removed, the last one found first; from then on killing or closing it touches no
  process any more, whatever has become of its numbers.
\<close>

theorem closed_family:
  assumes "close_job w j = Some (j', True, es)" and "jb_open j" and "jb_path j \<noteq> []"
  shows "es = KilledGroup (jb_path j) # map RemovedDirectory (rev (fst (cl_walk w)))
    \<and> (\<exists>n text waited. n < length (cl_reads w) \<and> cl_reads w ! n = (text, waited) \<and> contains text (''populated 0'' @ [CHR 0x0A]))
    \<and> \<not> jb_open j' \<and> kill_job j' = [] \<and> close_job w' j' = Some (j', True, []) \<and> members entries j' = Some []"
proof -
  have empty: "\<exists>n text waited. n < length reads \<and> reads ! n = (text, waited) \<and> contains text (''populated 0'' @ [CHR 0x0A])"
    if "await_empty reads = Some True" for reads
    using that
  proof (induction reads rule: await_empty.induct)
    case (2 str waited reads)
    show ?case
    proof (cases "contains str (''populated 0'' @ [CHR 0x0A])")
      case True
      then show ?thesis by (intro exI [of _ 0]) auto
    next
      case False
      then obtain n t v where "n < length reads" "reads ! n = (t, v)" "contains t (''populated 0'' @ [CHR 0x0A])"
        using 2 by (auto split: if_splits)
      then show ?thesis by (intro exI [of _ "Suc n"]) auto
    qed
  qed simp
  have watch: "cl_watch w" "cl_kill w" using assms(1,2) by (auto simp: close_job_def split: if_splits)
  have await: "await_empty (cl_reads w) = Some True"
    using assms(1,2) watch by (auto simp: close_job_def split: option.splits bool.splits)
  obtain directories walked where walk: "cl_walk w = (directories, walked)" by (cases "cl_walk w")
  have walked using assms(1,2) watch await walk by (auto simp: close_job_def Let_def split: if_splits)
  then obtain rest where "remove_all (cl_remove w) (rev directories) = (True, rest)"
    "es = KilledGroup (jb_path j) # rest" "j' = j\<lparr>jb_open := False\<rparr>"
    using assms(1,2) watch await walk by (auto simp: close_job_def Let_def split: prod.splits if_splits)
  then show ?thesis
    using remove_all_fine walk empty [OF await] assms(3) by (auto simp: kill_job_def close_job_def members_def)
qed

definition sample_job :: job where
  "sample_job = \<lparr>jb_command = \<lparr>cm_id = 0, cm_pid = Some 7, cm_grouped = True\<rparr>, jb_path = ''/g/worker-1'', jb_open = True\<rparr>"

definition sample_close :: close_world where
  "sample_close = \<lparr>cl_watch = True, cl_kill = True,
     cl_reads = [(''populated 1'' @ [CHR 0x0A], True), (''populated 0'' @ [CHR 0x0A], True)],
     cl_walk = ([''/g/worker-1'', ''/g/worker-1/sub''], True), cl_remove = (\<lambda>d. True)\<rparr>"

lemma closed_family_witness:
  "close_job sample_close sample_job = Some (sample_job\<lparr>jb_open := False\<rparr>, True,
     [KilledGroup ''/g/worker-1'', RemovedDirectory ''/g/worker-1/sub'', RemovedDirectory ''/g/worker-1''])
   \<and> kill_job (sample_job\<lparr>jb_open := False\<rparr>) = []"
proof -
  have e: "close_job sample_close sample_job = Some (sample_job\<lparr>jb_open := False\<rparr>, True,
     [KilledGroup ''/g/worker-1'', RemovedDirectory ''/g/worker-1/sub'', RemovedDirectory ''/g/worker-1''])" by code_simp
  from closed_family [OF e, of sample_close "[]"] e show ?thesis by (simp add: sample_job_def)
qed

lemma reap_words_unmanaged: "Reaped pid \<in> set (reap_words collected ow ws) \<Longrightarrow> map_of (ow_managed ow) pid = None"
  by (induction ws) (auto split: option.splits if_splits)

text \<open>
  Starting a process either leaves the owner as it was, or registers the new process, so that it
  is never collected as an orphan, and keeps the registration of every other; groups are given up
  only after the same command, refused in its group, has started without one.
\<close>

theorem started_process_kept:
  assumes "start_job w cmd ow = Some (ow', result, es)"
  shows "(case result of
      None \<Rightarrow> ow' = ow
    | Some j \<Rightarrow> \<exists>pid. cm_pid (jb_command j) = Some pid \<and> map_of (ow_managed ow') pid = Some (jb_command j)
        \<and> (\<forall>other. other \<noteq> pid \<longrightarrow> map_of (ow_managed ow') other = map_of (ow_managed ow) other)
        \<and> Reaped pid \<notin> set (reap collected files ow')
        \<and> (ow_group_unavailable ow' \<noteq> ow_group_unavailable ow \<longrightarrow>
             sw_started w = StartFailed True \<and> ow_root ow \<noteq> [] \<and> jb_path j = [] \<and> \<not> cm_grouped (jb_command j)))"
proof (cases result)
  case None
  then show ?thesis
    using assms by (auto simp: start_job_def Let_def split: prod.splits option.splits start_result.splits if_splits)
next
  case (Some j)
  then obtain pid where pid: "cm_pid (jb_command j) = Some pid"
    and managed: "ow_managed ow' = AList.update pid (jb_command j) (ow_managed ow)"
    and unavailable: "ow_group_unavailable ow' \<noteq> ow_group_unavailable ow \<longrightarrow>
      sw_started w = StartFailed True \<and> ow_root ow \<noteq> [] \<and> jb_path j = [] \<and> \<not> cm_grouped (jb_command j)"
    using assms by (auto simp: start_job_def Let_def split: prod.splits option.splits start_result.splits if_splits)
  have "map_of (ow_managed ow') pid = Some (jb_command j)" by (simp add: managed update_conv')
  moreover from this have "Reaped pid \<notin> set (reap collected files ow')"
    using reap_words_unmanaged by (fastforce simp: reap_def)
  ultimately show ?thesis using Some pid unavailable by (auto simp: managed update_conv')
qed

subsection \<open>Runs of the owner\<close>

datatype owner_event = Started job | Refused | Waited job | Collecting

text \<open>
  One critical section of the owner's lock, labelled with what has happened and what has been done to
  the machine.
\<close>

inductive owner_step :: "owner \<Rightarrow> owner_event \<times> os_effect list \<Rightarrow> owner \<Rightarrow> bool" where
  starts: "start_job w cmd ow = Some (ow', Some j, es) \<Longrightarrow> owner_step ow (Started j, es) ow'"
| refuses: "start_job w cmd ow = Some (ow', None, es) \<Longrightarrow> owner_step ow (Refused, es) ow'"
| waits: "wait_job collected files j ow = (ow', es) \<Longrightarrow> owner_step ow (Waited j, es) ow'"
| collects: "owner_step ow (Collecting, reap collected files ow) ow"

inductive owner_run :: "owner \<Rightarrow> (owner_event \<times> os_effect list) list \<Rightarrow> owner \<Rightarrow> bool" where
  nothing: "owner_run ow [] ow"
| after: "owner_step ow e ow' \<Longrightarrow> owner_run ow' trace ow'' \<Longrightarrow> owner_run ow (e # trace) ow''"

inductive_cases owner_runE: "owner_run ow trace ow'"

lemma remove_all_effects: "Reaped pid \<notin> set (snd (remove_all works ds))"
  by (induction ds) (auto split: prod.splits)

lemma close_job_effects:
  assumes "close_job w j = Some (j', fine, es)" shows "Reaped pid \<notin> set es"
  using assms remove_all_effects [of pid "cl_remove w" "rev (fst (cl_walk w))"]
  by (auto simp: close_job_def Let_def split: if_splits option.splits bool.splits prod.splits)

lemma start_job_effects:
  assumes "start_job w cmd ow = Some (ow', result, es)" shows "Reaped pid \<notin> set es"
proof -
  obtain j effects where n: "new_process_job (sw_job w) (if ow_group_unavailable ow then [] else ow_root ow) cmd = (j, effects)"
    by (cases "new_process_job (sw_job w) (if ow_group_unavailable ow then [] else ow_root ow) cmd")
  then have "Reaped pid \<notin> set effects" by (auto simp: new_process_job_def split: if_splits option.splits)
  then show ?thesis
    using assms n close_job_effects
    by (auto simp: start_job_def Let_def split: option.splits start_result.splits prod.splits if_splits)
qed

lemma start_job_registers:
  assumes "start_job w cmd ow = Some (ow', Some j, es)"
  shows "\<exists>pid. cm_pid (jb_command j) = Some pid \<and> ow_managed ow' = AList.update pid (jb_command j) (ow_managed ow)"
  using assms by (auto simp: start_job_def Let_def split: prod.splits option.splits start_result.splits if_splits)

lemma start_job_refused:
  assumes "start_job w cmd ow = Some (ow', None, es)" shows "ow' = ow"
  using assms by (auto simp: start_job_def Let_def split: prod.splits option.splits start_result.splits if_splits)

lemma reap_unmanaged:
  "map_of (ow_managed ow) pid = Some cmd \<Longrightarrow> Reaped pid \<notin> set (reap collected files ow)"
  using reap_words_unmanaged by (fastforce simp: reap_def)

lemma wait_job_other:
  assumes "wait_job collected files j ow = (ow', es)" and "map_of (ow_managed ow) pid = Some cmd"
    and "cm_id (jb_command j) \<noteq> cm_id cmd"
  shows "map_of (ow_managed ow') pid = Some cmd \<and> Reaped pid \<notin> set es"
proof -
  have "map_of (ow_managed ow') pid = Some cmd"
    using assms by (auto simp: wait_job_def Let_def delete_conv' split: option.splits if_splits)
  moreover have "es = reap collected files ow'" using assms(1) by (auto simp: wait_job_def Let_def)
  ultimately show ?thesis using reap_unmanaged by blast
qed

text \<open>
  C12: A process in the supervisor's care stays registered, and its exit is collected by nobody else,
  until its own command is waited for: whatever else starts, is refused, exits or is adopted in
  between.  (The system gives its number to no other process before.)
\<close>

theorem managed_until_waited:
  assumes "owner_run ow trace ow'" and "map_of (ow_managed ow) pid = Some cmd"
    and "\<And>j es. (Waited j, es) \<in> set trace \<Longrightarrow> cm_id (jb_command j) \<noteq> cm_id cmd"
    and "\<And>j es. (Started j, es) \<in> set trace \<Longrightarrow> cm_pid (jb_command j) \<noteq> Some pid"
  shows "map_of (ow_managed ow') pid = Some cmd \<and> (\<forall>e \<in> set trace. Reaped pid \<notin> set (snd e))"
  using assms
proof (induction rule: owner_run.induct)
  case (after ow e ow' trace ow'')
  from after.hyps(1) have "map_of (ow_managed ow') pid = Some cmd \<and> Reaped pid \<notin> set (snd e)"
  proof cases
    case (starts w cmd' j es)
    moreover have "cm_pid (jb_command j) \<noteq> Some pid" using after.prems(3) [of j es] starts(1) by simp
    ultimately show ?thesis
      using start_job_registers [OF starts(2)] start_job_effects [OF starts(2)] after.prems(1)
      by (auto simp: update_conv')
  next
    case (refuses w cmd' es)
    then show ?thesis using start_job_refused [OF refuses(2)] start_job_effects [OF refuses(2)] after.prems(1) by simp
  next
    case (waits collected files j es)
    then show ?thesis using wait_job_other after.prems(1,2) by force
  next
    case (collects collected files)
    then show ?thesis using reap_unmanaged after.prems(1) by auto
  qed
  then show ?case using after by auto
qed simp

definition sample_start :: start_world where
  "sample_start = \<lparr>sw_job = \<lparr>nj_mkdir = Some ''/g/worker-1'', nj_open = True\<rparr>, sw_started = StartFailed True,
     sw_close = sample_close, sw_retry = Some (1, 9)\<rparr>"

definition sample_owner :: owner where
  "sample_owner = \<lparr>ow_root = ''/g'', ow_managed = [(4, \<lparr>cm_id = 7, cm_pid = Some 4, cm_grouped = True\<rparr>)],
     ow_reaping = True, ow_reset_subreaper = False, ow_group_unavailable = False\<rparr>"

lemma started_process_kept_witness:
  "\<exists>ow' j es. start_job sample_start \<lparr>cm_id = 0, cm_pid = None, cm_grouped = False\<rparr> sample_owner = Some (ow', Some j, es)
     \<and> jb_path j = [] \<and> cm_pid (jb_command j) = Some 9 \<and> Reaped 9 \<notin> set (reap (\<lambda>p. True) [''4 9 11''] ow')"
proof -
  obtain ow' j es where s: "start_job sample_start \<lparr>cm_id = 0, cm_pid = None, cm_grouped = False\<rparr> sample_owner = Some (ow', Some j, es)"
    and j: "jb_path j = []" "cm_pid (jb_command j) = Some 9"
    by (simp add: start_job_def sample_start_def sample_owner_def new_process_job_def close_job_def sample_close_def
        Let_def contains_def split: prod.splits option.splits)
  from started_process_kept [OF s, of "\<lambda>p. True" "[''4 9 11'']"] s j show ?thesis by auto
qed

lemma managed_until_waited_witness:
  "\<exists>ow'. owner_run sample_owner [(Collecting, [Reaped 9, Reaped 11])] ow' \<and> map_of (ow_managed ow') 4 \<noteq> None
     \<and> Reaped 4 \<notin> {Reaped 9, Reaped 11}"
proof -
  have "reap (\<lambda>p. True) [''4 9 11''] sample_owner = [Reaped 9, Reaped 11]" by code_simp
  then have r: "owner_run sample_owner [(Collecting, [Reaped 9, Reaped 11])] sample_owner"
    using owner_step.collects [of sample_owner "\<lambda>p. True" "[''4 9 11'']"] by (auto intro: owner_run.intros)
  have m: "map_of (ow_managed sample_owner) 4 = Some \<lparr>cm_id = 7, cm_pid = Some 4, cm_grouped = True\<rparr>"
    by (simp add: sample_owner_def)
  from managed_until_waited [OF r m] r show ?thesis by auto
qed

end
