(* ===== verification/Watcher.thy ===== *)
theory Watcher
  imports Reload Loading
begin

text \<open>
  The watcher of the configuration in \<^verbatim>\<open>src/main.go\<close>, \<^verbatim>\<open>Watch\<close>: file events are turned into requests
  to restart applications, and the configuration is read again after them and periodically.  The
  package that watches files is outside the repository: it holds a queue of events for \<^verbatim>\<open>Watch\<close> and
  counts those it has lost.
\<close>

subsection \<open>State and operations\<close>

type_synonym restarts = "(go_string \<times> app) list"

text \<open>
  The local variables \<^verbatim>\<open>initial\<close>, \<^verbatim>\<open>restarts\<close> and \<^verbatim>\<open>lost\<close>, and the events that the current watcher
  still holds.
\<close>

record watching =
  wa_initial :: snapshot
  wa_restarts :: restarts
  wa_lost :: int
  wa_queue :: "watch_event list"

text \<open>
  One turn of the loop behind the two timers: the count of lost events, the world in which the
  configuration is loaded, whether a watcher of other directories can be started and whether the
  update is taken before the context ends.
\<close>

record round =
  rd_lost :: int
  rd_load :: load_world
  rd_watches :: bool
  rd_taken :: bool

datatype watch_input = Occurs watch_event | Receives | Rounds round

text \<open>What a step sends: nothing, an update with its snapshot and restarts, or nothing ever again.\<close>

datatype watch_output = Silent | Sent "snapshot option" restarts | Returned

fun some_rule :: "event_type \<Rightarrow> watch_event \<Rightarrow> restart_rule list \<Rightarrow> bool option" where
  "some_rule zero_type event [] = Some False"
| "some_rule zero_type event (rule # rules) =
     (if EventOverflow \<in> set (we_types event) then Some True
      else case rule_matches zero_type rule event of
             None \<Rightarrow> None
           | Some True \<Rightarrow> Some True
           | Some False \<Rightarrow> some_rule zero_type event rules)"

fun record_apps :: "event_type \<Rightarrow> watch_event \<Rightarrow> apps \<Rightarrow> restarts \<Rightarrow> restarts option" where
  "record_apps zero_type event [] restarts = Some restarts"
| "record_apps zero_type event ((name, app) # apps) restarts =
     (case some_rule zero_type event (app_restart_on app) of
        None \<Rightarrow> None
      | Some hit \<Rightarrow> record_apps zero_type event apps (if hit then AList.update name app restarts else restarts))"

definition record_event :: "event_type \<Rightarrow> watch_event \<Rightarrow> watching \<Rightarrow> watching option" where
  "record_event zero_type event w =
     map_option (\<lambda>restarts. w\<lparr>wa_restarts := restarts\<rparr>)
       (record_apps zero_type event (sn_apps (wa_initial w)) (wa_restarts w))"

definition count_lost :: "event_type \<Rightarrow> int \<Rightarrow> watching \<Rightarrow> watching option" where
  "count_lost zero_type lost w =
     (if wa_lost w < lost
      then map_option (\<lambda>w. w\<lparr>wa_lost := lost\<rparr>)
             (record_event zero_type \<lparr>we_path = [], we_types = [EventOverflow]\<rparr> w)
      else Some w)"

text \<open>
  The configuration as read again: the watcher afterwards and the snapshot to send.  Other
  directories need another watcher, with which the old one's events are gone.
\<close>

definition reread :: "go_string \<Rightarrow> round \<Rightarrow> watching \<Rightarrow> watching \<times> snapshot option" where
  "reread name r w =
     (case load (rd_load r) name of
        Inl e \<Rightarrow> (w, None)
      | Inr sn \<Rightarrow>
          if sn_roots (wa_initial w) \<noteq> sn_roots sn
          then (if rd_watches r then (w\<lparr>wa_lost := 0, wa_queue := []\<rparr>, Some sn) else (w, None))
          else if wa_initial w \<noteq> sn then (w, Some sn) else (w, None))"

definition send_update :: "round \<Rightarrow> snapshot option \<Rightarrow> watching \<Rightarrow> watching \<times> watch_output" where
  "send_update r changed w =
     (if changed = None \<and> wa_restarts w = [] then (w, Silent)
      else if rd_taken r
      then (w\<lparr>wa_initial := (case changed of None \<Rightarrow> wa_initial w | Some sn \<Rightarrow> sn), wa_restarts := []\<rparr>,
            Sent changed (wa_restarts w))
      else (w, Returned))"

fun watch_step :: "event_type \<Rightarrow> go_string \<Rightarrow> watch_input \<Rightarrow> watching \<Rightarrow> (watching \<times> watch_output) option" where
  "watch_step zero_type name (Occurs event) w = Some (w\<lparr>wa_queue := wa_queue w @ [event]\<rparr>, Silent)"
| "watch_step zero_type name Receives w =
     (case wa_queue w of
        [] \<Rightarrow> Some (w, Silent)
      | event # queue \<Rightarrow> map_option (\<lambda>w. (w, Silent)) (record_event zero_type event (w\<lparr>wa_queue := queue\<rparr>)))"
| "watch_step zero_type name (Rounds r) w =
     map_option (\<lambda>w. case reread name r w of (w, changed) \<Rightarrow> send_update r changed w) (count_lost zero_type (rd_lost r) w)"

text \<open>Runs that have not returned, with the updates sent; file names are absolute in every world.\<close>

fun input_ok :: "watch_input \<Rightarrow> bool" where
  "input_ok (Rounds r) \<longleftrightarrow> absolute_files (rd_load r)"
| "input_ok i \<longleftrightarrow> True"

inductive watch_run :: "event_type \<Rightarrow> go_string \<Rightarrow> watching \<Rightarrow> (snapshot option \<times> restarts) list \<Rightarrow> watching \<Rightarrow> bool"
  for zero_type :: event_type and name :: go_string
where
  idle: "watch_run zero_type name w [] w"
| silent: "watch_step zero_type name i w = Some (w', Silent) \<Longrightarrow> input_ok i \<Longrightarrow> watch_run zero_type name w' us w''
    \<Longrightarrow> watch_run zero_type name w us w''"
| sent: "watch_step zero_type name i w = Some (w', Sent changed restarts) \<Longrightarrow> input_ok i \<Longrightarrow> watch_run zero_type name w' us w''
    \<Longrightarrow> watch_run zero_type name w ((changed, restarts) # us) w''"

inductive_cases watch_runE: "watch_run zero_type name w us w'"

subsection \<open>What is recorded\<close>

definition fires :: "event_type \<Rightarrow> watch_event \<Rightarrow> app \<Rightarrow> bool" where
  "fires zero_type event app \<longleftrightarrow> (\<exists>rule \<in> set (app_restart_on app).
     EventOverflow \<in> set (we_types event) \<or> rule_matches zero_type rule event = Some True)"

lemma some_rule_fires:
  assumes "\<forall>rule \<in> set rules. rule_matches zero_type rule event \<noteq> None"
  shows "some_rule zero_type event rules = Some (\<exists>rule \<in> set rules.
     EventOverflow \<in> set (we_types event) \<or> rule_matches zero_type rule event = Some True)"
  using assms by (induction rules) (auto split: option.splits bool.splits)

text \<open>The rules of a loaded application are absolute, so the search above their globs ends.\<close>

lemma rule_matches_ends:
  assumes "absolute (rule_glob rule)" shows "rule_matches zero_type rule event \<noteq> None"
proof -
  have d: "absolute (dir (rule_glob rule))" using assms absolute_dir by (simp add: absolute_def)
  then have "is_abs (dir (rule_glob rule))" by (simp add: absolute_def)
  from clean_parts_path [OF this] have "\<forall>w \<in> set (clean_parts (dir (rule_glob rule))). plain w" ..
  from parent_matches_ends [OF this, of "clean (we_path event)"]
  obtain b where "parent_matches (dir (rule_glob rule)) (clean (we_path event)) = Some b"
    unfolding absolute_parts [OF d, symmetric] by blast
  then show ?thesis by (simp add: rule_matches_def Let_def)
qed

definition apps_ok :: "apps \<Rightarrow> bool" where
  "apps_ok apps \<longleftrightarrow> distinct (map fst apps) \<and> (\<forall>(n, a) \<in> set apps. \<forall>rule \<in> set (app_restart_on a). absolute (rule_glob rule))"

lemma loaded_apps_ok:
  assumes "load w name = Inr sn" and "absolute_files w" shows "apps_ok (sn_apps sn)"
proof -
  obtain ld where ok: "loading_ok ld" and sn: "sn_apps sn = ld_apps ld"
    using load_loading_ok [OF assms] by blast
  have "distinct (map fst (ld_apps ld))" using ok unfolding loading_ok_def by blast
  moreover have "absolute (rule_glob rule)" if "(n, a) \<in> set (ld_apps ld)" "rule \<in> set (app_restart_on a)" for n a rule
    using loading_okD [OF ok that(1)] that(2) by (simp add: placed_def)
  ultimately show ?thesis unfolding sn apps_ok_def by blast
qed

lemma record_apps_exact:
  assumes "apps_ok apps"
  shows "\<exists>rs. record_apps zero_type event apps restarts = Some rs \<and>
     (\<forall>n. map_of rs n = (case map_of apps n of
        Some a \<Rightarrow> if fires zero_type event a then Some a else map_of restarts n
      | None \<Rightarrow> map_of restarts n))"
  using assms
proof (induction apps arbitrary: restarts)
  case (Cons e apps)
  obtain n a where e: "e = (n, a)" by (cases e)
  have ok: "apps_ok apps" and fresh: "map_of apps n = None"
    using Cons.prems by (auto simp: apps_ok_def e map_of_eq_None_iff)
  have hit: "some_rule zero_type event (app_restart_on a) = Some (fires zero_type event a)"
    using Cons.prems rule_matches_ends by (auto simp: some_rule_fires apps_ok_def e fires_def)
  obtain rs where rs: "record_apps zero_type event apps (if fires zero_type event a then AList.update n a restarts else restarts) = Some rs"
    and m: "\<forall>k. map_of rs k = (case map_of apps k of
        Some b \<Rightarrow> if fires zero_type event b then Some b else map_of (if fires zero_type event a then AList.update n a restarts else restarts) k
      | None \<Rightarrow> map_of (if fires zero_type event a then AList.update n a restarts else restarts) k)"
    using Cons.IH [OF ok] by blast
  show ?case
    using rs m fresh by (auto simp: e hit update_conv' split: option.splits)
qed simp

subsection \<open>Nothing recorded is forgotten\<close>

text \<open>Requests name the applications of the configuration last sent.\<close>

definition watch_ok :: "watching \<Rightarrow> bool" where
  "watch_ok w \<longleftrightarrow> apps_ok (sn_apps (wa_initial w))
     \<and> (\<forall>n a. map_of (wa_restarts w) n = Some a \<longrightarrow> map_of (sn_apps (wa_initial w)) n = Some a)"

definition keeps :: "restarts \<Rightarrow> restarts \<Rightarrow> bool" where
  "keeps old new \<longleftrightarrow> (\<forall>n a. map_of old n = Some a \<longrightarrow> map_of new n = Some a)"

lemma keeps_refl [simp]: "keeps rs rs"
  by (simp add: keeps_def)

lemma record_event_total:
  assumes "watch_ok w"
  shows "\<exists>rs. record_event zero_type event w = Some (w\<lparr>wa_restarts := rs\<rparr>) \<and> watch_ok (w\<lparr>wa_restarts := rs\<rparr>)
    \<and> keeps (wa_restarts w) rs
    \<and> (\<forall>n a. map_of (sn_apps (wa_initial w)) n = Some a \<and> fires zero_type event a \<longrightarrow> map_of rs n = Some a)"
proof -
  obtain rs where rs: "record_apps zero_type event (sn_apps (wa_initial w)) (wa_restarts w) = Some rs"
    and m: "\<forall>n. map_of rs n = (case map_of (sn_apps (wa_initial w)) n of
        Some a \<Rightarrow> if fires zero_type event a then Some a else map_of (wa_restarts w) n
      | None \<Rightarrow> map_of (wa_restarts w) n)"
    using record_apps_exact assms unfolding watch_ok_def by blast
  have "record_event zero_type event w = Some (w\<lparr>wa_restarts := rs\<rparr>)" by (simp add: record_event_def rs)
  moreover have "map_of (sn_apps (wa_initial w)) n = Some a" if "map_of rs n = Some a" for n a
  proof (cases "map_of (wa_restarts w) n")
    case None
    then show ?thesis using that m [rule_format, of n] by (auto split: option.splits if_splits)
  next
    case (Some b)
    then have "map_of (sn_apps (wa_initial w)) n = Some b" using assms by (simp add: watch_ok_def)
    then show ?thesis using that m [rule_format, of n] Some by (auto split: if_splits)
  qed
  then have "watch_ok (w\<lparr>wa_restarts := rs\<rparr>)" using assms by (simp add: watch_ok_def)
  moreover have "keeps (wa_restarts w) rs"
    using assms m by (auto simp: watch_ok_def keeps_def split: option.splits)
  ultimately show ?thesis using m by auto
qed

lemma watch_ok_frame [simp]:
  "watch_ok (w\<lparr>wa_lost := l\<rparr>) = watch_ok w"
  "watch_ok (w\<lparr>wa_queue := q\<rparr>) = watch_ok w"
  by (simp_all add: watch_ok_def)

lemma count_lost_total:
  assumes "watch_ok w"
  shows "\<exists>w'. count_lost zero_type lost w = Some w' \<and> watch_ok w' \<and> wa_initial w' = wa_initial w
    \<and> keeps (wa_restarts w) (wa_restarts w')
    \<and> (wa_lost w < lost \<longrightarrow> (\<forall>n a. map_of (sn_apps (wa_initial w)) n = Some a \<and> app_restart_on a \<noteq> []
         \<longrightarrow> map_of (wa_restarts w') n = Some a))"
proof (cases "wa_lost w < lost")
  case True
  let ?e = "\<lparr>we_path = [], we_types = [EventOverflow]\<rparr>"
  have f: "fires zero_type ?e a" if "app_restart_on a \<noteq> []" for a
    using that by (cases "app_restart_on a") (auto simp: fires_def)
  obtain rs where "record_event zero_type ?e w = Some (w\<lparr>wa_restarts := rs\<rparr>)" "watch_ok (w\<lparr>wa_restarts := rs\<rparr>)"
    "keeps (wa_restarts w) rs"
    "\<forall>n a. map_of (sn_apps (wa_initial w)) n = Some a \<and> fires zero_type ?e a \<longrightarrow> map_of rs n = Some a"
    using record_event_total [OF assms] by blast
  then show ?thesis using True f by (auto simp: count_lost_def)
qed (use assms in \<open>simp add: count_lost_def\<close>)

lemma reread_spec:
  assumes "reread name r w = (w', changed)"
  shows "wa_initial w' = wa_initial w \<and> wa_restarts w' = wa_restarts w
    \<and> (\<forall>sn. changed = Some sn \<longrightarrow> load (rd_load r) name = Inr sn \<and> sn \<noteq> wa_initial w)"
  using assms by (auto simp: reread_def split: sum.splits if_splits)

text \<open>What one step sends and keeps.\<close>

lemma watch_step_spec:
  assumes "watch_ok w" and "input_ok i"
  shows "\<exists>w' out. watch_step zero_type name i w = Some (w', out) \<and> watch_ok w' \<and>
    (case out of
       Silent \<Rightarrow> keeps (wa_restarts w) (wa_restarts w') \<and> wa_initial w' = wa_initial w
     | Sent changed rs \<Rightarrow> keeps (wa_restarts w) rs \<and> (changed \<noteq> None \<or> rs \<noteq> [])
         \<and> (\<forall>n a. map_of rs n = Some a \<longrightarrow> map_of (sn_apps (wa_initial w)) n = Some a)
         \<and> (\<forall>sn. changed = Some sn \<longrightarrow> sn \<noteq> wa_initial w)
         \<and> wa_initial w' = (case changed of None \<Rightarrow> wa_initial w | Some sn \<Rightarrow> sn) \<and> wa_restarts w' = []
     | Returned \<Rightarrow> True)"
proof (cases i)
  case (Occurs event)
  then show ?thesis using assms(1) by simp
next
  case Receives
  then show ?thesis
    using assms(1) record_event_total [of "w\<lparr>wa_queue := tl (wa_queue w)\<rparr>" zero_type "hd (wa_queue w)"]
    by (cases "wa_queue w") auto
next
  case (Rounds r)
  obtain w1 where w1: "count_lost zero_type (rd_lost r) w = Some w1" "watch_ok w1" "wa_initial w1 = wa_initial w"
    "keeps (wa_restarts w) (wa_restarts w1)"
    using count_lost_total [OF assms(1)] by blast
  obtain w2 changed where w2: "reread name r w1 = (w2, changed)" by (cases "reread name r w1")
  note spec = reread_spec [OF w2]
  have ok: "watch_ok w2" using spec w1(2) by (simp add: watch_ok_def)
  have loaded: "apps_ok (sn_apps sn)" if "changed = Some sn" for sn
    using loaded_apps_ok spec that assms(2) Rounds by auto
  have "watch_step zero_type name i w = Some (send_update r changed w2)" by (simp add: Rounds w1(1) w2)
  then show ?thesis
    using ok loaded spec w1(3,4)
    by (auto simp: send_update_def watch_ok_def split: option.splits)
qed

lemma round_taken:
  assumes "watch_ok w" and "absolute_files (rd_load r)" and "rd_taken r" and "map_of (wa_restarts w) n = Some a"
    and "watch_step zero_type name (Rounds r) w = Some (w', out)"
  shows "\<exists>changed rs. out = Sent changed rs \<and> map_of rs n = Some a"
proof -
  obtain w1 where w1: "count_lost zero_type (rd_lost r) w = Some w1" "keeps (wa_restarts w) (wa_restarts w1)"
    using count_lost_total [OF assms(1)] by blast
  obtain w2 changed where w2: "reread name r w1 = (w2, changed)" by (cases "reread name r w1")
  have "map_of (wa_restarts w2) n = Some a" using reread_spec [OF w2] w1(2) assms(4) by (simp add: keeps_def)
  then show ?thesis using assms(3,5) w1(1) w2 by (auto simp: send_update_def split: if_splits)
qed

lemma watch_run_keeps:
  assumes "watch_run zero_type name w us w'" and "watch_ok w"
  shows "watch_ok w' \<and> (map_of (wa_restarts w) n = Some a \<longrightarrow>
    (case us of [] \<Rightarrow> map_of (wa_restarts w') n = Some a | u # rest \<Rightarrow> map_of (snd u) n = Some a))"
  using assms
proof (induction rule: watch_run.induct)
  case (silent i w w' us w'')
  then show ?case using watch_step_spec [of w i zero_type name] by (auto simp: keeps_def)
next
  case (sent i w w' changed restarts us w'')
  then show ?case using watch_step_spec [of w i zero_type name] by (auto simp: keeps_def)
qed simp

text \<open>
  C15: When an event is received that a rule of an application fires for, or that says events were
  lost, the next update that is sent asks to restart the application; until then the request stays,
  and every turn of the timers sends it, whether the configuration has changed, is rejected or cannot
  be watched.
\<close>

theorem matched_event_delivered:
  assumes "watch_ok w" and "wa_queue w = event # queue"
    and "map_of (sn_apps (wa_initial w)) n = Some a" and "fires zero_type event a"
    and "watch_step zero_type name Receives w = Some (w1, out)" and "watch_run zero_type name w1 us w2"
  shows "(case us of
      u # rest \<Rightarrow> map_of (snd u) n = Some a
    | [] \<Rightarrow> map_of (wa_restarts w2) n = Some a
        \<and> (\<forall>r. absolute_files (rd_load r) \<and> rd_taken r \<longrightarrow>
             (\<exists>w3 changed rs. watch_step zero_type name (Rounds r) w2 = Some (w3, Sent changed rs) \<and> map_of rs n = Some a)))"
proof -
  obtain rs where "record_event zero_type event (w\<lparr>wa_queue := queue\<rparr>) = Some (w\<lparr>wa_queue := queue, wa_restarts := rs\<rparr>)"
    "watch_ok (w\<lparr>wa_queue := queue, wa_restarts := rs\<rparr>)" "map_of rs n = Some a"
    using record_event_total [of "w\<lparr>wa_queue := queue\<rparr>" zero_type event] assms(1,3,4) by auto
  then have "watch_ok w1" and "map_of (wa_restarts w1) n = Some a" using assms(2,5) by auto
  then have run: "watch_ok w2" "case us of [] \<Rightarrow> map_of (wa_restarts w2) n = Some a | u # rest \<Rightarrow> map_of (snd u) n = Some a"
    using watch_run_keeps [OF assms(6), of n a] by auto
  have "\<exists>w3 changed rs. watch_step zero_type name (Rounds r) w2 = Some (w3, Sent changed rs) \<and> map_of rs n = Some a"
    if "absolute_files (rd_load r)" "rd_taken r" "map_of (wa_restarts w2) n = Some a" for r
    using watch_step_spec [OF run(1), of "Rounds r" zero_type name] round_taken [OF run(1) that] that(1) by fastforce
  then show ?thesis using run(2) by (auto split: list.splits)
qed

definition sample_watched :: app where
  "sample_watched = default_app\<lparr>app_restart_on := [\<lparr>rule_glob = ''/srv/*.php'', rule_events = [''write'']\<rparr>]\<rparr>"

definition sample_watching :: watching where
  "sample_watching = \<lparr>wa_initial = \<lparr>sn_apps = [(''web'', sample_watched)], sn_roots = [''/srv''], sn_cgroup = [],
       sn_resources = \<lparr>max_cpu_percent = 90, min_available_memory_percent = 10\<rparr>\<rparr>,
     wa_restarts = [], wa_lost = 0, wa_queue = [\<lparr>we_path = [], we_types = [EventOverflow]\<rparr>]\<rparr>"

lemma sample_watching_ok: "watch_ok sample_watching"
proof -
  have "absolute ''/srv/*.php''" by code_simp
  then show ?thesis by (simp add: watch_ok_def apps_ok_def sample_watching_def sample_watched_def)
qed

lemma matched_event_delivered_witness:
  "watch_step EventChmod ''ooth.yaml'' Receives sample_watching
     = Some (sample_watching\<lparr>wa_restarts := [(''web'', sample_watched)], wa_queue := []\<rparr>, Silent)
   \<and> map_of (wa_restarts (sample_watching\<lparr>wa_restarts := [(''web'', sample_watched)], wa_queue := []\<rparr>)) ''web'' = Some sample_watched"
proof -
  have step: "watch_step EventChmod ''ooth.yaml'' Receives sample_watching
     = Some (sample_watching\<lparr>wa_restarts := [(''web'', sample_watched)], wa_queue := []\<rparr>, Silent)"
    by (simp add: sample_watching_def record_event_def sample_watched_def)
  have "fires EventChmod \<lparr>we_path = [], we_types = [EventOverflow]\<rparr> sample_watched"
    by (simp add: fires_def sample_watched_def)
  from matched_event_delivered [OF sample_watching_ok _ _ this step watch_run.idle, of "[]" "''web''"] step
  show ?thesis by (simp add: sample_watching_def)
qed

subsection \<open>The configurations sent\<close>

text \<open>
  What is sent from one configuration to another: no update is empty, none repeats the configuration
  before it, and restarts name its applications.
\<close>

fun updates_ok :: "snapshot \<Rightarrow> (snapshot option \<times> restarts) list \<Rightarrow> snapshot \<Rightarrow> bool" where
  "updates_ok sn [] sn' \<longleftrightarrow> sn = sn'"
| "updates_ok sn ((changed, rs) # us) sn' \<longleftrightarrow> (changed \<noteq> None \<or> rs \<noteq> []) \<and> changed \<noteq> Some sn
     \<and> (\<forall>n \<in> set (map fst rs). map_of rs n = map_of (sn_apps sn) n)
     \<and> updates_ok (case changed of None \<Rightarrow> sn | Some next \<Rightarrow> next) us sn'"


definition sample_round :: round where
  "sample_round = \<lparr>rd_lost = 0, rd_load = sample_load\<lparr>lw_abs := (\<lambda>name. None)\<rparr>, rd_watches = True, rd_taken = True\<rparr>"


subsection \<open>Events the replaced watcher held\<close>

text \<open>
  When the directories change, the events the old watcher still holds are gone with it, an event that
  tells of lost events among them: no application is restarted for them, in this update or later.
\<close>

lemma replaced_watcher_drops:
  assumes "load (rd_load r) name = Inr sn" and "sn_roots sn \<noteq> sn_roots (wa_initial w)"
    and "rd_watches r" and "rd_taken r" and "rd_lost r \<le> wa_lost w" and "wa_restarts w = []"
  shows "watch_step zero_type name (Rounds r) w
    = Some (\<lparr>wa_initial = sn, wa_restarts = [], wa_lost = 0, wa_queue = []\<rparr>, Sent (Some sn) [])"
  using assms by (auto simp: count_lost_def reread_def send_update_def)

end
