(* ===== verification/Scm.thy ===== *)
theory Scm
  imports Prelude "HOL-Library.Word"
begin

text \<open>
  The service of the Windows service control manager, \<^verbatim>\<open>src/scm_windows.go\<close>: \<^verbatim>\<open>scmHost.Execute\<close>
  reports the states of the supervisor it runs.  The package that talks to the manager is outside
  the repository: its requests are the inputs of the loop, the statuses sent to it the outputs.
\<close>

datatype service_state = StartPending | ServiceRunning | StopPending

datatype accepted = AcceptStop | AcceptShutdown

text \<open>\<^verbatim>\<open>CheckPoint\<close> is a 32-bit counter, \<^verbatim>\<open>WaitHint\<close> in milliseconds.\<close>

record service_status =
  ss_state :: service_state
  ss_accepts :: "accepted list"
  ss_checkpoint :: "32 word"
  ss_wait_hint :: "32 word"

datatype service_command = StopCommand | ShutdownCommand | Interrogate | OtherCommand

text \<open>What the \<^verbatim>\<open>select\<close> receives; \<open>RunEnded\<close> tells whether \<^verbatim>\<open>run\<close> has returned an error.\<close>

datatype 'error scm_input =
    RunReady
  | Requested service_command
  | Heartbeat
  | RunEnded "'error option"

text \<open>
  The local variables: the status, whether the context of \<^verbatim>\<open>run\<close> is cancelled and whether the channel
  \<^verbatim>\<open>ready\<close> has not been set to \<^verbatim>\<open>nil\<close>.
\<close>

record scm =
  sc_status :: service_status
  sc_cancelled :: bool
  sc_ready :: bool

abbreviation pending :: "service_state \<Rightarrow> service_status" where
  "pending s \<equiv> \<lparr>ss_state = s, ss_accepts = [], ss_checkpoint = 1, ss_wait_hint = 10000\<rparr>"

definition initial_scm :: scm where
  "initial_scm = \<lparr>sc_status = pending StartPending, sc_cancelled = False, sc_ready = True\<rparr>"

definition report :: "service_status \<Rightarrow> scm \<Rightarrow> scm \<times> service_status list" where
  "report s h = (h\<lparr>sc_status := s\<rparr>, [s])"

text \<open>One turn of the loop, with the statuses it sends; the result is \<open>Inl\<close> when it returns.\<close>

fun scm_step :: "'error scm_input \<Rightarrow> scm \<Rightarrow> ('error option \<times> bool \<times> 32 word) + scm \<times> service_status list" where
  "scm_step RunReady h =
     Inr (if \<not> sc_ready h then (h, [])
          else (let h = h\<lparr>sc_ready := False\<rparr>
                in if sc_cancelled h then (h, [])
                   else report \<lparr>ss_state = ServiceRunning, ss_accepts = [AcceptStop, AcceptShutdown],
                          ss_checkpoint = 0, ss_wait_hint = 0\<rparr> h))"
| "scm_step (Requested c) h =
     Inr (case c of
            Interrogate \<Rightarrow> (h, [sc_status h])
          | OtherCommand \<Rightarrow> (h, [])
          | _ \<Rightarrow> if sc_cancelled h then (h, [])
                 else (case report (pending StopPending) h of (h, sent) \<Rightarrow> (h\<lparr>sc_cancelled := True\<rparr>, sent)))"
| "scm_step Heartbeat h =
     Inr (if ss_state (sc_status h) = StartPending \<or> ss_state (sc_status h) = StopPending
          then report ((sc_status h)\<lparr>ss_checkpoint := ss_checkpoint (sc_status h) + 1\<rparr>) h
          else (h, []))"
| "scm_step (RunEnded e) h = Inl (e, if e \<noteq> None then (True, 1) else (False, 0))"

text \<open>
  \<^verbatim>\<open>scmHost.Execute\<close> on a sequence of inputs: the error kept, what is returned, and all statuses sent;
  no result while it runs.
\<close>

fun scm_loop :: "'error scm_input list \<Rightarrow> scm \<Rightarrow> ('error option \<times> bool \<times> 32 word) option \<times> service_status list" where
  "scm_loop [] h = (None, [])"
| "scm_loop (i # is) h =
     (case scm_step i h of
        Inl result \<Rightarrow> (Some result, [])
      | Inr (h, sent) \<Rightarrow> (case scm_loop is h of (result, more_sent) \<Rightarrow> (result, sent @ more_sent)))"

definition execute_service :: "'error scm_input list \<Rightarrow> ('error option \<times> bool \<times> 32 word) option \<times> service_status list" where
  "execute_service is = (case scm_loop is initial_scm of (result, sent) \<Rightarrow> (result, sc_status initial_scm # sent))"

text \<open>
  \<^verbatim>\<open>runSCM\<close>: the path must be absolute; then the error of the manager, else the one of \<^verbatim>\<open>run\<close>.  No
  result while the service runs.
\<close>

datatype 'error scm_error = RelativeConfig | ManagerFailed | RunFailed 'error

definition run_scm :: "bool \<Rightarrow> bool \<Rightarrow> 'error scm_input list \<Rightarrow> 'error scm_error option option" where
  "run_scm absolute_path manager_works is =
     (if \<not> absolute_path then Some (Some RelativeConfig)
      else if \<not> manager_works then Some (Some ManagerFailed)
      else case fst (execute_service is) of
             None \<Rightarrow> None
           | Some (e, code) \<Rightarrow> Some (map_option RunFailed e))"

subsection \<open>The life of the service\<close>

text \<open>
  What the manager may be told after a status: the same again, the next checkpoint of a start or a
  stop, that a start is done, or once that the service stops.
\<close>

definition follows :: "service_status \<Rightarrow> service_status \<Rightarrow> bool" where
  "follows s t \<longleftrightarrow> t = s
     \<or> (ss_state s \<noteq> ServiceRunning \<and> t = s\<lparr>ss_checkpoint := ss_checkpoint s + 1\<rparr>)
     \<or> (ss_state s = StartPending \<and> t = \<lparr>ss_state = ServiceRunning, ss_accepts = [AcceptStop, AcceptShutdown],
          ss_checkpoint = 0, ss_wait_hint = 0\<rparr>)
     \<or> (ss_state s \<noteq> StopPending \<and> t = pending StopPending)"

fun chain :: "('a \<Rightarrow> 'a \<Rightarrow> bool) \<Rightarrow> 'a \<Rightarrow> 'a list \<Rightarrow> bool" where
  "chain r x [] \<longleftrightarrow> True"
| "chain r x (y # ys) \<longleftrightarrow> r x y \<and> chain r y ys"

lemma chain_append: "chain r x (ys @ zs) \<longleftrightarrow> chain r x ys \<and> chain r (last (x # ys)) zs"
  by (induction ys arbitrary: x) auto

definition scm_ok :: "scm \<Rightarrow> bool" where
  "scm_ok h \<longleftrightarrow> (sc_cancelled h \<longleftrightarrow> ss_state (sc_status h) = StopPending)
     \<and> (ss_state (sc_status h) = StartPending \<longleftrightarrow> sc_ready h \<and> \<not> sc_cancelled h)"

lemma initial_scm_ok: "scm_ok initial_scm"
  by (simp add: scm_ok_def initial_scm_def)

lemma scm_step_ok:
  assumes "scm_step i h = Inr (h', sent)" and "scm_ok h"
  shows "scm_ok h' \<and> chain follows (sc_status h) sent \<and> last (sc_status h # sent) = sc_status h'
    \<and> (sc_cancelled h \<longrightarrow> sc_cancelled h')
    \<and> (i = Requested StopCommand \<or> i = Requested ShutdownCommand \<longrightarrow> sc_cancelled h')"
  using assms
  by (cases i) (auto simp: scm_ok_def report_def follows_def Let_def split: service_command.splits if_splits)

lemma scm_loop_ok:
  assumes "scm_loop is h = (result, sent)" and "scm_ok h"
  shows "chain follows (sc_status h) sent"
  using assms
proof (induction "is" arbitrary: h result sent)
  case (Cons i "is")
  show ?case
  proof (cases "scm_step i h")
    case (Inl r)
    then show ?thesis using Cons.prems(1) by simp
  next
    case (Inr s)
    obtain h' now where s: "s = (h', now)" by (cases s)
    obtain rest where r: "scm_loop is h' = (result, rest)" "sent = now @ rest"
      using Cons.prems(1) Inr s by (auto split: prod.splits)
    have ok: "scm_ok h'" "chain follows (sc_status h) now" "last (sc_status h # now) = sc_status h'"
      using scm_step_ok [of i h h' now] Inr s Cons.prems(2) by auto
    then show ?thesis using Cons.IH [OF r(1) ok(1)] by (simp add: r(2) chain_append)
  qed
qed simp

lemma scm_step_ends:
  "(\<exists>h' sent. scm_step i h = Inr (h', sent) \<and> (\<forall>e. i \<noteq> RunEnded e))
   \<or> (\<exists>e. i = RunEnded e \<and> scm_step i h = Inl (e, if e = None then (False, 0) else (True, 1)))"
proof (cases "scm_step i h")
  case (Inl r)
  then show ?thesis by (cases i) auto
next
  case (Inr p)
  then show ?thesis by (cases i; cases p) auto
qed

lemma scm_loop_ends:
  "(fst (scm_loop is h) = None \<longleftrightarrow> (\<forall>e. RunEnded e \<notin> set is))
   \<and> (\<forall>e r. fst (scm_loop is h) = Some (e, r) \<longrightarrow> RunEnded e \<in> set is \<and> r = (if e = None then (False, 0) else (True, 1)))"
proof (induction "is" arbitrary: h)
  case (Cons i "is")
  from scm_step_ends [of i h] consider
    h' sent where "scm_step i h = Inr (h', sent)" "\<forall>e. i \<noteq> RunEnded e"
  | e where "i = RunEnded e" "scm_step i h = Inl (e, if e = None then (False, 0) else (True, 1))" by blast
  then show ?case
  proof cases
    case 1
    then have f: "fst (scm_loop (i # is) h) = fst (scm_loop is h')" by (simp split: prod.splits)
    show ?thesis unfolding f using Cons.IH [of h'] 1(2) by fastforce
  next
    case 2
    then have f: "fst (scm_loop (i # is) h) = Some (e, if e = None then (False, 0) else (True, 1))" by simp
    show ?thesis unfolding f using 2(1) by auto
  qed
qed simp

text \<open>
  C38: The service reports first that it starts, and every status follows the one before as the life of
  a service requires: checkpoints of a start or a stop count up by one, it is running only after a
  start and never after a stop, and it stops once.  It returns exactly when the supervisor has, with
  exit code 1 exactly for an error.
\<close>

theorem service_life:
  assumes "execute_service is = (result, sent)"
  shows "hd sent = pending StartPending \<and> chain follows (hd sent) (tl sent)
    \<and> (result = None \<longleftrightarrow> (\<forall>e. RunEnded e \<notin> set is))
    \<and> (\<forall>e r. result = Some (e, r) \<longrightarrow> RunEnded e \<in> set is \<and> r = (if e = None then (False, 0) else (True, 1)))"
proof -
  obtain rest where r: "scm_loop is initial_scm = (result, rest)" and s: "sent = sc_status initial_scm # rest"
    using assms by (auto simp: execute_service_def split: prod.splits)
  have "chain follows (pending StartPending) rest"
    using scm_loop_ok [OF r initial_scm_ok] by (simp add: initial_scm_def)
  then have "hd sent = pending StartPending \<and> chain follows (hd sent) (tl sent)"
    by (simp add: s initial_scm_def)
  then show ?thesis using scm_loop_ends [of "is" initial_scm] unfolding r fst_conv by blast
qed

lemma service_life_witness:
  "chain follows (pending StartPending)
     [(pending StartPending)\<lparr>ss_checkpoint := 2\<rparr>,
      \<lparr>ss_state = ServiceRunning, ss_accepts = [AcceptStop, AcceptShutdown], ss_checkpoint = 0, ss_wait_hint = 0\<rparr>,
      pending StopPending, (pending StopPending)\<lparr>ss_checkpoint := 2\<rparr>]"
proof -
  have e: "execute_service [Heartbeat, RunReady, Requested StopCommand, Heartbeat, Requested ShutdownCommand, RunEnded (None :: nat option)]
    = (Some (None, False, 0), pending StartPending #
     [(pending StartPending)\<lparr>ss_checkpoint := 2\<rparr>,
      \<lparr>ss_state = ServiceRunning, ss_accepts = [AcceptStop, AcceptShutdown], ss_checkpoint = 0, ss_wait_hint = 0\<rparr>,
      pending StopPending, (pending StopPending)\<lparr>ss_checkpoint := 2\<rparr>])"
    by (simp add: execute_service_def initial_scm_def report_def Let_def)
  from service_life [OF e] show ?thesis by simp
qed

end
