(* ===== verification/Launch.thy ===== *)
theory Launch
  imports Templates Jobs
begin

text \<open>
  The launch of a worker, \<^verbatim>\<open>manager.startProcess\<close> of \<^verbatim>\<open>src/main.go\<close> on Linux: what is expanded, the
  identity, the environment and the files a worker gets, and which file handles are open when it
  returns.  What a started process changes in the supervisor is in \<open>Manager\<close>, the owner of processes in
  \<open>Jobs\<close>.
\<close>

subsection \<open>The environment of a worker\<close>

text \<open>
  \<^verbatim>\<open>strings.ToUpper\<close> as far as it gives ASCII letters: besides the small ones, the dotless i and the long
  s become capital ASCII letters.
\<close>

definition upper_char :: "char \<Rightarrow> char" where
  "upper_char c =
     (let n = of_char c :: nat in if 97 \<le> n \<and> n \<le> 122 then char_of (n - 32) else c)"

fun upper :: "go_string \<Rightarrow> go_string" where
  "upper [] = []"
| "upper [c] = [upper_char c]"
| "upper (c # d # cs) =
     (if c = CHR 0xC4 \<and> d = CHR 0xB1 then CHR ''I'' # upper cs
      else if c = CHR 0xC5 \<and> d = CHR 0xBF then CHR ''S'' # upper cs
      else upper_char c # upper (d # cs))"

definition listen_handle :: go_string where
  "listen_handle = ''OOTH_LISTEN_HANDLE=''"

definition inherited :: "go_string list \<Rightarrow> go_string list" where
  "inherited environ = filter (\<lambda>variable. \<not> prefix listen_handle (upper variable)) environ"

definition worker_environment :: "go_string list \<Rightarrow> (go_string \<times> go_string) list \<Rightarrow> app \<Rightarrow> go_string list" where
  "worker_environment environ env app =
     inherited environ @ map (\<lambda>(key, val). key @ ''='' @ val) env
     @ [''OOTH_WORKER=1'', ''OOTH_CONCURRENCY='' @ show_int (app_concurrency app)]"

text \<open>What a process with these entries reads for a name: the last one wins.\<close>

definition getenv :: "go_string list \<Rightarrow> go_string \<Rightarrow> go_string option" where
  "getenv entries name = map_option (drop (Suc (length name))) (find (prefix (name @ ''='')) (rev entries))"

subsection \<open>Files\<close>

datatype worker_handle = ListenerFile | ControlRead | ControlWrite | OutputRead | OutputWrite

text \<open>The \<^verbatim>\<open>exec.Cmd\<close> that is started; its standard output is always \<open>OutputWrite\<close>.\<close>

record exec_command =
  ex_command :: "go_string list"
  ex_directory :: go_string
  ex_credential :: "credential option"
  ex_environment :: "go_string list"
  ex_stdin :: worker_handle
  ex_extra :: "worker_handle option list"

datatype launch_error =
    NoListenerFile
  | ExpandFailed expand_error
  | WorkerIdentity identity_error
  | NoPipe
  | NotStarted

record launch_world =
  la_child_file :: bool
  la_values :: "expand_error + template_values"
  la_template :: template
  la_users :: user_world
  la_environ :: "go_string list"
  la_control_pipe :: bool
  la_output_pipe :: bool
  la_start :: start_world

text \<open>\<^verbatim>\<open>Identity.apply\<close>.\<close>

definition apply_identity :: "user_world \<Rightarrow> identity \<Rightarrow> exec_command \<Rightarrow> identity_error + exec_command" where
  "apply_identity w i cmd = and_then (credentials w i) (\<lambda>c. Inr (case c of None \<Rightarrow> cmd | Some c \<Rightarrow> cmd\<lparr>ex_credential := Some c\<rparr>))"

text \<open>
  The file number asked for, 3 when none is; \<^verbatim>\<open>strconv.Atoi\<close> gives 0 for the other hand-offs a valid
  configuration can have.
\<close>

definition handoff_number :: "go_string \<Rightarrow> int" where
  "handoff_number handoff = (case atoi handoff of None \<Rightarrow> 3 | Some fd \<Rightarrow> if fd = 0 then 3 else fd)"

definition on_stdin :: "bool \<Rightarrow> app \<Rightarrow> bool" where
  "on_stdin listens app \<longleftrightarrow> listens \<and> (app_socket_handoff app = ''stdin'' \<or> app_socket_handoff app = ''0'')"

text \<open>The listener as a numbered file, with its number in the environment.\<close>

definition hand_over :: "bool \<Rightarrow> app \<Rightarrow> exec_command \<Rightarrow> exec_command" where
  "hand_over listens app cmd =
     (if \<not> listens then cmd
      else (case inherit_listener ListenerFile (handoff_number (app_socket_handoff app)) (ex_extra cmd) of
              (extra, number) \<Rightarrow> cmd\<lparr>ex_extra := extra,
                ex_environment := ex_environment cmd @ [listen_handle @ show_int number]\<rparr>))"

text \<open>The command up to the pipes.\<close>

definition prepare :: "launch_world \<Rightarrow> app \<Rightarrow> launch_error + exec_command" where
  "prepare w app =
     (case and_then (la_values w) (expand_command (la_template w) app) of
        Inl e \<Rightarrow> Inl (ExpandFailed e)
      | Inr (command, env) \<Rightarrow>
          (case apply_identity (la_users w) (app_identity app)
             \<lparr>ex_command = command, ex_directory = app_directory app, ex_credential = None,
              ex_environment = [], ex_stdin = ControlRead, ex_extra = []\<rparr> of
             Inl e \<Rightarrow> Inl (WorkerIdentity e)
           | Inr cmd \<Rightarrow> Inr (cmd\<lparr>ex_environment := worker_environment (la_environ w) env app\<rparr>)))"

text \<open>
  \<^verbatim>\<open>manager.startProcess\<close> up to the registration of the process: the owner afterwards, the error or the
  command and its job, the handles opened and those closed again, and the effects.  \<open>None\<close> while it
  waits for the family of a process that failed to start to end.
\<close>

record worker_launch =
  lc_command :: exec_command
  lc_job :: job

definition start_worker :: "launch_world \<Rightarrow> bool \<Rightarrow> app \<Rightarrow> command \<Rightarrow> owner
    \<Rightarrow> (owner \<times> (launch_error + worker_launch) \<times> worker_handle list \<times> worker_handle list \<times> os_effect list) option" where
  "start_worker w listens app cm ow =
     (if listens \<and> \<not> la_child_file w then Some (ow, Inl NoListenerFile, [], [], [])
      else
        (let first = (if listens then [ListenerFile] else [])
         in case prepare w app of
              Inl e \<Rightarrow> Some (ow, Inl e, first, first, [])
            | Inr cmd \<Rightarrow>
                if \<not> on_stdin listens app \<and> \<not> la_control_pipe w then Some (ow, Inl NoPipe, first, first, [])
                else
                  (let cmd = (if on_stdin listens app then cmd\<lparr>ex_stdin := ListenerFile\<rparr>
                              else hand_over listens app cmd);
                       input = (if on_stdin listens app then [] else [ControlRead]);
                       control = (if on_stdin listens app then [] else [ControlWrite]);
                       before = first @ input @ control
                   in if \<not> la_output_pipe w then Some (ow, Inl NoPipe, before, before, [])
                      else (case start_job (la_start w) cm ow of
                              None \<Rightarrow> None
                            | Some (ow, None, es) \<Rightarrow>
                                Some (ow, Inl NotStarted, before @ [OutputRead, OutputWrite], [OutputRead, OutputWrite] @ before, es)
                            | Some (ow, Some j, es) \<Rightarrow>
                                Some (ow, Inr \<lparr>lc_command = cmd, lc_job = j\<rparr>, before @ [OutputRead, OutputWrite],
                                      [OutputWrite] @ first @ input, es)))))"

subsection \<open>What a worker is given\<close>

lemma find_append: "find P (xs @ ys) = (case find P xs of None \<Rightarrow> find P ys | Some x \<Rightarrow> Some x)"
  by (induction xs) auto

lemma getenv_append:
  "getenv (xs @ ys) name = (case getenv ys name of None \<Rightarrow> getenv xs name | Some v \<Rightarrow> Some v)"
  by (simp add: getenv_def find_append split: option.splits)

lemma getenv_none: "(\<And>e. e \<in> set es \<Longrightarrow> \<not> prefix (name @ ''='') e) \<Longrightarrow> getenv es name = None"
  by (simp add: getenv_def find_None_iff)

lemma upper_listen_handle: "upper (listen_handle @ rest) = listen_handle @ upper rest"
  by (cases rest) (simp_all add: listen_handle_def upper_char_def)

lemma inherited_no_handle: "e \<in> set (inherited environ) \<Longrightarrow> \<not> prefix listen_handle e"
  by (auto simp: inherited_def upper_listen_handle elim: prefixE)

lemma configured_not_reserved:
  assumes "\<not> prefix ''OOTH_'' key" shows "\<not> prefix (''OOTH_'' @ name) (key @ ''='' @ val)"
proof
  assume "prefix (''OOTH_'' @ name) (key @ ''='' @ val)"
  then have "prefix ''OOTH_'' (key @ ''='' @ val)" by (rule append_prefixD)
  then obtain us where us: "''OOTH_'' = key @ us" "prefix us (''='' @ val)"
    using assms by (auto simp: prefix_append)
  show False
  proof (cases us)
    case Nil
    then show ?thesis using us(1) assms by simp
  next
    case (Cons u rest)
    then have "CHR ''='' \<in> set (key @ us)" using us(2) by simp
    then show ?thesis unfolding us(1) [symmetric] by simp
  qed
qed

lemma validate_env:
  assumes "validate goos app = None" and "entry \<in> set (app_env app)" shows "\<not> bad_env_entry entry"
proof -
  have "find bad_env_entry (app_env app) = None"
    using assms(1) unfolding validate_def by (simp split: sum.splits if_splits option.splits prod.splits)
  then show ?thesis using assms(2) by (cases entry) (simp add: find_None_iff)
qed

lemma validate_handoff:
  assumes "validate goos app = None"
  shows "handoff_known (app_socket_handoff app) \<or> (\<exists>fd. atoi (app_socket_handoff app) = Some fd \<and> 3 \<le> fd)"
  using assms unfolding validate_def by (auto simp: not_less split: sum.splits if_splits option.splits)

lemma handoff_number_least:
  assumes "validate goos app = None" and "\<not> on_stdin True app"
  shows "3 \<le> handoff_number (app_socket_handoff app)"
proof -
  have "atoi [] = None" and "atoi ''env'' = None" by code_simp+
  then show ?thesis
    using validate_handoff [OF assms(1)] assms(2)
    by (auto simp: handoff_number_def handoff_known_def on_stdin_def)
qed

lemma prepared:
  assumes "prepare w app = Inr cmd"
  shows "\<exists>env c. map fst env = map fst (app_env app) \<and> credentials (la_users w) (app_identity app) = Inr c
    \<and> ex_credential cmd = c \<and> ex_environment cmd = worker_environment (la_environ w) env app
    \<and> ex_extra cmd = [] \<and> ex_stdin cmd = ControlRead"
proof -
  obtain vals command env where v: "la_values w = Inr vals" and e: "expand_command (la_template w) app vals = Inr (command, env)"
    using assms by (auto simp: prepare_def and_then_Inr split: sum.splits)
  have "map fst env = map fst (app_env app)"
    using e expand_vals_keys by (auto simp: expand_command_def and_then_Inr Let_def split: if_splits)
  then show ?thesis
    using assms v e
    by (auto simp: prepare_def apply_identity_def and_then_Inr split: sum.splits option.splits)
qed

lemma getenv_worker:
  assumes "validate goos app = None" and "map fst env = map fst (app_env app)"
  shows "getenv (worker_environment environ env app) ''OOTH_LISTEN_HANDLE'' = None"
    and "getenv (worker_environment environ env app) ''OOTH_WORKER'' = Some ''1''"
    and "getenv (worker_environment environ env app) ''OOTH_CONCURRENCY'' = Some (show_int (app_concurrency app))"
proof -
  have "\<not> prefix ''OOTH_'' key" if "(key, val) \<in> set env" for key val
  proof -
    have "key \<in> set (map fst (app_env app))" using that assms(2) by (metis fst_conv in_set_conv_nth nth_map length_map nth_mem)
    then obtain val' where "(key, val') \<in> set (app_env app)" by auto
    from validate_env [OF assms(1) this] show ?thesis by (simp add: bad_env_entry_def)
  qed
  then have "getenv (map (\<lambda>(key, val). key @ ''='' @ val) env) (''OOTH_'' @ name) = None" for name
    using configured_not_reserved by (fastforce intro!: getenv_none)
  note none = this [of "''LISTEN_HANDLE''", simplified]
  have "getenv (inherited environ) ''OOTH_LISTEN_HANDLE'' = None"
    using inherited_no_handle by (intro getenv_none) (fastforce simp: listen_handle_def)
  then show "getenv (worker_environment environ env app) ''OOTH_LISTEN_HANDLE'' = None"
    using none by (simp add: worker_environment_def getenv_append) (simp add: getenv_def)
  show "getenv (worker_environment environ env app) ''OOTH_WORKER'' = Some ''1''"
    and "getenv (worker_environment environ env app) ''OOTH_CONCURRENCY'' = Some (show_int (app_concurrency app))"
    by (simp_all add: worker_environment_def getenv_append) (simp_all add: getenv_def)
qed

lemma start_worker_started:
  assumes "start_worker w listens app cm ow = Some (ow', Inr l, opened, shut, es)"
  shows "\<exists>cmd. prepare w app = Inr cmd \<and> lc_command l = (if on_stdin listens app then cmd\<lparr>ex_stdin := ListenerFile\<rparr>
      else hand_over listens app cmd)
    \<and> start_job (la_start w) cm ow = Some (ow', Some (lc_job l), es)"
  using assms by (auto simp: start_worker_def Let_def split: if_splits sum.splits option.splits)

text \<open>
  C16: A worker that is started gets its listener exactly once: as its standard input, or under the
  file number that is the only \<^verbatim>\<open>OOTH_LISTEN_HANDLE\<close> it can read, whatever the supervisor itself has
  inherited and whatever is configured; without a listener it reads none.
\<close>

theorem listener_handed_over:
  assumes "start_worker w listens app cm ow = Some (ow', Inr l, opened, shut, es)" and "validate goos app = None"
  shows "(let cmd = lc_command l; number = handoff_number (app_socket_handoff app)
      in getenv (ex_environment cmd) ''OOTH_LISTEN_HANDLE'' =
           (if listens \<and> \<not> on_stdin listens app then Some (show_int number) else None)
         \<and> (if listens \<and> \<not> on_stdin listens app
            then 3 \<le> number \<and> ex_extra cmd = replicate (nat (number - 3)) None @ [Some ListenerFile]
            else ex_extra cmd = [])
         \<and> ex_stdin cmd = (if on_stdin listens app then ListenerFile else ControlRead)
         \<and> getenv (ex_environment cmd) ''OOTH_WORKER'' = Some ''1''
         \<and> getenv (ex_environment cmd) ''OOTH_CONCURRENCY'' = Some (show_int (app_concurrency app))
         \<and> credentials (la_users w) (app_identity app) = Inr (ex_credential cmd))"
proof -
  obtain cmd where p: "prepare w app = Inr cmd"
    and l: "lc_command l = (if on_stdin listens app then cmd\<lparr>ex_stdin := ListenerFile\<rparr> else hand_over listens app cmd)"
    using start_worker_started [OF assms(1)] by blast
  obtain env c where env: "map fst env = map fst (app_env app)" and c: "credentials (la_users w) (app_identity app) = Inr c"
    and cmd: "ex_credential cmd = c" "ex_environment cmd = worker_environment (la_environ w) env app"
      "ex_extra cmd = []" "ex_stdin cmd = ControlRead"
    using prepared [OF p] by blast
  note vars = getenv_worker [OF assms(2) env, of "la_environ w"]
  show ?thesis
  proof (cases "listens \<and> \<not> on_stdin listens app")
    case True
    then have on: listens "\<not> on_stdin True app" by auto
    define number where "number = handoff_number (app_socket_handoff app)"
    have n: "3 \<le> number" using handoff_number_least [OF assms(2) on(2)] by (simp add: number_def)
    have own: "getenv [listen_handle @ show_int number] ''OOTH_LISTEN_HANDLE'' = Some (show_int number)"
      "getenv [listen_handle @ show_int number] ''OOTH_WORKER'' = None"
      "getenv [listen_handle @ show_int number] ''OOTH_CONCURRENCY'' = None"
      by (simp_all add: getenv_def listen_handle_def)
    have "lc_command l = cmd\<lparr>ex_extra := replicate (nat (number - 3)) None @ [Some ListenerFile],
        ex_environment := ex_environment cmd @ [listen_handle @ show_int number]\<rparr>"
      using on n by (simp add: l hand_over_def cmd inherit_listener_def number_def)
    then show ?thesis
      using on n own vars c by (simp add: cmd getenv_append number_def [symmetric])
  next
    case False
    then show ?thesis using l vars c cmd by (auto simp: hand_over_def Let_def)
  qed
qed

text \<open>
  C39: However a launch ends, no file handle leaks: when it fails every handle it has opened is closed
  again, and when it succeeds the supervisor keeps the reading end of the output and, unless the
  listener is the standard input, the writing end of the control pipe, nothing else.
\<close>

theorem launch_handles:
  assumes "start_worker w listens app cm ow = Some (ow', result, opened, shut, es)"
  shows "distinct opened \<and> (case result of
      Inl e \<Rightarrow> mset shut = mset opened \<and> (e \<noteq> NotStarted \<longrightarrow> ow' = ow \<and> es = [])
    | Inr l \<Rightarrow> mset opened = mset shut + mset ((if on_stdin listens app then [] else [ControlWrite]) @ [OutputRead]))"
  using assms by (auto simp: start_worker_def Let_def split: if_splits sum.splits option.splits)

text \<open>A supervisor that has itself been given a listener, under a name in small letters.\<close>

definition sample_worker :: app where
  "sample_worker = default_app\<lparr>app_name := ''web'', app_command := [''/srv/run''], app_ready := ''started'',
     app_scale_window := second, app_listen := \<lparr>network = ''tcp'', address = '':80''\<rparr>, app_socket_handoff := ''5''\<rparr>"

definition sample_launch_world :: launch_world where
  "sample_launch_world = \<lparr>la_child_file = True,
     la_values = Inr \<lparr>tv_name = [], tv_directory = [], tv_source = [], tv_env = [], tv_vars = [], tv_config = YamlNull,
       tv_runtime = zero_runtime, tv_listen = None\<rparr>,
     la_template = sample_template, la_users = sample_users,
     la_environ = [''PATH=/bin'', ''ooth_listen_handle=9'', ''OOTH_LISTEN_HANDLE=7''],
     la_control_pipe = True, la_output_pipe = True, la_start = sample_start\<lparr>sw_started := Running 12\<rparr>\<rparr>"

lemma sample_worker_valid: "validate Linux sample_worker = None"
  by code_simp

lemma sample_launched:
  "start_worker sample_launch_world True sample_worker \<lparr>cm_id = 0, cm_pid = None, cm_grouped = False\<rparr> sample_owner
   = Some (sample_owner\<lparr>ow_managed := ow_managed sample_owner @ [(12, \<lparr>cm_id = 0, cm_pid = Some 12, cm_grouped = True\<rparr>)]\<rparr>,
       Inr \<lparr>lc_command = \<lparr>ex_command = [''/srv/run''], ex_directory = [], ex_credential = None,
           ex_environment = [''PATH=/bin'', ''OOTH_WORKER=1'', ''OOTH_CONCURRENCY=1'', ''OOTH_LISTEN_HANDLE=5''],
           ex_stdin = ControlRead, ex_extra = [None, None, Some ListenerFile]\<rparr>,
         lc_job = \<lparr>jb_command = \<lparr>cm_id = 0, cm_pid = Some 12, cm_grouped = True\<rparr>, jb_path = ''/g/worker-1'', jb_open = True\<rparr>\<rparr>,
       [ListenerFile, ControlRead, ControlWrite, OutputRead, OutputWrite], [OutputWrite, ListenerFile, ControlRead],
       [MadeDirectory ''/g/worker-1''])"
  by code_simp

lemma listener_handed_over_witness:
  "getenv [''PATH=/bin'', ''OOTH_WORKER=1'', ''OOTH_CONCURRENCY=1'', ''OOTH_LISTEN_HANDLE=5''] ''OOTH_LISTEN_HANDLE'' = Some ''5''"
  using listener_handed_over [OF sample_launched sample_worker_valid]
  by (simp add: Let_def on_stdin_def sample_worker_def handoff_number_def getenv_def)

lemma launch_handles_witness:
  "mset [ListenerFile, ControlRead, ControlWrite, OutputRead, OutputWrite]
   = mset [OutputWrite, ListenerFile, ControlRead] + mset [ControlWrite, OutputRead]"
proof -
  have "\<not> on_stdin True sample_worker" by code_simp
  then show ?thesis using launch_handles [OF sample_launched] by simp
qed

end
