(* ===== verification/Endpoints.thy ===== *)
theory Endpoints
  imports Prelude "HOL-Library.Multiset"
begin

text \<open>
  The listening sockets and the poller of \<^verbatim>\<open>src/main.go\<close>, \<^verbatim>\<open>OpenListener\<close>, \<^verbatim>\<open>NewPoller\<close>,
  \<^verbatim>\<open>watchListeners\<close> and \<^verbatim>\<open>startWatcher\<close>.  Whether a call of the system works is an argument; what is
  opened and closed again is a result, so that a handle that leaks shows.
\<close>

subsection \<open>Listeners\<close>

datatype endpoint_handle = ListenSocket | ListenFile | PollFd | WakeSocket | WakeSender | FileWatcher

record listener_world =
  li_listen :: bool
  li_file :: bool

text \<open>Whether it works, the handles opened and those closed again.\<close>

definition open_listener :: "listener_world \<Rightarrow> bool \<times> endpoint_handle list \<times> endpoint_handle list" where
  "open_listener w =
     (if \<not> li_listen w then (False, [], [])
      else if \<not> li_file w then (False, [ListenSocket], [ListenSocket])
      else (True, [ListenSocket, ListenFile], []))"

definition listener_close :: "endpoint_handle list" where
  "listener_close = [ListenFile, ListenSocket]"

subsection \<open>The poller\<close>

record poller_world =
  pw_epoll :: bool
  pw_wake :: bool
  pw_waker :: bool
  pw_conn :: bool
  pw_control :: bool
  pw_add :: bool

definition close_poller :: "endpoint_handle list" where
  "close_poller = [PollFd, WakeSender, WakeSocket]"

definition new_poller :: "poller_world \<Rightarrow> bool \<times> endpoint_handle list \<times> endpoint_handle list" where
  "new_poller w =
     (if \<not> pw_epoll w then (False, [], [])
      else if \<not> pw_wake w then (False, [PollFd], [PollFd])
      else if \<not> pw_waker w then (False, [PollFd, WakeSocket], [WakeSocket, PollFd])
      else (let opened = [PollFd, WakeSocket, WakeSender]
            in if pw_conn w \<and> pw_control w \<and> pw_add w then (True, opened, [])
               else (False, opened, close_poller)))"

lemma open_listener_handles:
  "open_listener w = (works, opened, shut)
   \<Longrightarrow> mset opened = mset shut + (if works then mset listener_close else {#})"
  by (auto simp: open_listener_def listener_close_def split: if_splits)

lemma new_poller_handles:
  "new_poller w = (works, opened, shut)
   \<Longrightarrow> mset opened = mset shut + (if works then mset close_poller else {#})"
  by (auto simp: new_poller_def close_poller_def Let_def split: if_splits)

subsection \<open>The loop over the poller\<close>

text \<open>
  One return of \<^verbatim>\<open>EpollWait\<close>, with the time it is observed at: interrupted, failed, or the numbers of
  the listeners that are ready, 0 for the socket that wakes it.
\<close>

datatype poll_result = Interrupted | PollFailed int | Ready int "int list"

text \<open>A message with its time, its listeners and whether it reports an error.\<close>

type_synonym poll_message = "int \<times> int list \<times> bool"

text \<open>
  \<^verbatim>\<open>watchListeners\<close> over the successive results and whether the manager takes the message, rather than
  being done: the messages sent and whether it has returned.
\<close>

fun watch_listeners :: "(poll_result \<times> bool) list \<Rightarrow> poll_message list \<times> bool" where
  "watch_listeners [] = ([], False)"
| "watch_listeners ((Interrupted, taken) # rs) = watch_listeners rs"
| "watch_listeners ((PollFailed observed, taken) # rs) = (if taken then [(observed, [], True)] else [], True)"
| "watch_listeners ((Ready observed ids, taken) # rs) =
     (if 0 \<in> set ids \<or> \<not> taken then ([], True)
      else (case watch_listeners rs of (messages, returned) \<Rightarrow> ((observed, ids, False) # messages, returned)))"

text \<open>What ends the loop.\<close>

fun ends :: "poll_result \<times> bool \<Rightarrow> bool" where
  "ends (Interrupted, taken) = False"
| "ends (PollFailed observed, taken) = True"
| "ends (Ready observed ids, taken) \<longleftrightarrow> 0 \<in> set ids \<or> \<not> taken"

fun ready_message :: "poll_result \<times> bool \<Rightarrow> poll_message list" where
  "ready_message (Ready observed ids, taken) = [(observed, ids, False)]"
| "ready_message r = []"

text \<open>
  Every batch of ready listeners before the end is sent, once and in order, and only a failure of the
  poller is sent after them.
\<close>

lemma watch_listeners_exact:
  "watch_listeners rs = (concat (map ready_message (takeWhile (\<lambda>r. \<not> ends r) rs))
     @ (case dropWhile (\<lambda>r. \<not> ends r) rs of (PollFailed observed, True) # rest \<Rightarrow> [(observed, [], True)] | _ \<Rightarrow> []),
   \<exists>r \<in> set rs. ends r)"
proof (induction rs rule: watch_listeners.induct)
  case (4 observed ids taken rs)
  then show ?case by (cases "0 \<in> set ids \<or> \<not> taken") auto
qed (auto split: bool.splits)

subsection \<open>Starting the watcher of files\<close>

text \<open>What the goroutine of the watcher does first: it becomes ready, it ends, or the context does.\<close>

datatype watcher_start = BecameReady | Ended "go_string option" | ContextDone

datatype watcher_error = CannotCreate | WatcherEnded go_string | NotReady | ContextEnded

definition start_watcher :: "bool \<Rightarrow> watcher_start \<Rightarrow> watcher_error option \<times> endpoint_handle list \<times> endpoint_handle list" where
  "start_watcher created first =
     (if \<not> created then (Some CannotCreate, [], [])
      else case first of
        BecameReady \<Rightarrow> (None, [FileWatcher], [])
      | Ended (Some e) \<Rightarrow> (Some (WatcherEnded e), [FileWatcher], [FileWatcher])
      | Ended None \<Rightarrow> (Some NotReady, [FileWatcher], [FileWatcher])
      | ContextDone \<Rightarrow> (Some ContextEnded, [FileWatcher], [FileWatcher]))"

lemma start_watcher_handles:
  "start_watcher created first = (failure, opened, shut)
   \<Longrightarrow> mset opened = mset shut + (if failure = None then {#FileWatcher#} else {#})"
  by (auto simp: start_watcher_def split: if_splits watcher_start.splits option.splits)

end
