(* ===== verification/Startup.thy ===== *)
theory Startup
  imports Reloading Watcher Launch Endpoints
begin

text \<open>
  The program as a whole: how \<^verbatim>\<open>run\<close> of \<^verbatim>\<open>src/main.go\<close> comes up, with what it undoes when it cannot,
  and the supervisor together with the watcher of its configuration, which hands it updates over a
  channel without a buffer.
\<close>

subsection \<open>Coming up\<close>

record begin_world =
  bg_load :: load_world
  bg_owner :: owner_world
  bg_poller :: poller_world
  bg_apply :: world
  bg_collected :: "int \<Rightarrow> bool"
  bg_children :: "go_string list"

datatype begin_error = ConfigRejected load_error | PollerUnavailable | NotApplied apply_error

text \<open>What has happened to the machine: effects on processes, handles opened and closed.\<close>

record trace =
  tc_effects :: "os_effect list"
  tc_opened :: "endpoint_handle list"
  tc_closed :: "endpoint_handle list"

definition begin_run :: "begin_world \<Rightarrow> go_string \<Rightarrow> (begin_error + snapshot \<times> owner \<times> supervisor) \<times> trace" where
  "begin_run w name =
     (case load (bg_load w) name of
        Inl e \<Rightarrow> (Inl (ConfigRejected e), \<lparr>tc_effects = [], tc_opened = [], tc_closed = []\<rparr>)
      | Inr sn \<Rightarrow>
          (case new_process_owner (bg_owner w) (sn_cgroup sn) of (ow, made) \<Rightarrow>
            let undone = close_owner (bg_collected w) (bg_children w) ow
            in case new_poller (bg_poller w) of
                 (False, opened, shut) \<Rightarrow>
                   (Inl PollerUnavailable, \<lparr>tc_effects = made @ undone, tc_opened = opened, tc_closed = shut\<rparr>)
               | (True, opened, shut) \<Rightarrow>
                   (case apply_snapshot (bg_apply w) sn (empty_store (sn_cgroup sn)) of
                      (st, Some e) \<Rightarrow> (Inl (NotApplied e),
                        \<lparr>tc_effects = made @ undone, tc_opened = opened, tc_closed = shut @ close_poller\<rparr>)
                    | (st, None) \<Rightarrow> (Inr (sn, ow, initial st),
                        \<lparr>tc_effects = made, tc_opened = opened, tc_closed = shut\<rparr>))))"

lemma new_process_owner_root:
  assumes "new_process_owner w configured = (ow, es)"
  shows "ow_managed ow = [] \<and> (ow_root ow \<noteq> [] \<longrightarrow> MadeDirectory (ow_root ow) \<in> set es)
    \<and> (\<forall>path. MadeDirectory path \<in> set es \<longrightarrow> path \<noteq> [] \<longrightarrow> path = ow_root ow \<or> RemovedDirectory path \<in> set es)
    \<and> (ow_reset_subreaper ow \<longleftrightarrow> SubreaperSet True \<in> set es)"
  using assms
  by (auto simp: new_process_owner_def Let_def split: if_splits option.splits prod.splits)

lemma reap_words_effects: "e \<in> set (reap_words collected ow ws) \<Longrightarrow> \<exists>pid. e = Reaped pid"
  by (induction ws) (auto split: option.splits if_splits)

lemma reap_effects: "e \<in> set (reap collected files ow) \<Longrightarrow> \<exists>pid. e = Reaped pid"
  using reap_words_effects by (fastforce simp: reap_def split: if_splits)

lemma begin_run_outcome:
  assumes "begin_run w name = (result, trace)" and "absolute_files (bg_load w)" and "ranges (lw_order (bg_load w))"
    and "world_ok (bg_apply w)"
  shows "case result of
      Inl e \<Rightarrow> mset (tc_opened trace) = mset (tc_closed trace)
        \<and> (\<forall>path. path \<noteq> [] \<and> MadeDirectory path \<in> set (tc_effects trace) \<longrightarrow> RemovedDirectory path \<in> set (tc_effects trace))
        \<and> (SubreaperSet True \<in> set (tc_effects trace) \<longrightarrow> SubreaperSet False \<in> set (tc_effects trace))
    | Inr (sn, ow, su) \<Rightarrow> started su \<and> config_of (su_store su) = map_of (sn_apps sn)
        \<and> distinct (map fst (sn_apps sn)) \<and> dependencies_ok (sn_apps sn)
        \<and> mset (tc_opened trace) = mset (tc_closed trace) + mset close_poller"
proof (cases "load (bg_load w) name")
  case (Inl e)
  then show ?thesis using assms(1) by (auto simp: begin_run_def)
next
  case (Inr sn)
  obtain ow made where o: "new_process_owner (bg_owner w) (sn_cgroup sn) = (ow, made)"
    by (cases "new_process_owner (bg_owner w) (sn_cgroup sn)")
  obtain works opened shut where p: "new_poller (bg_poller w) = (works, opened, shut)" by (metis prod_cases3)
  obtain st failure where a: "apply_snapshot (bg_apply w) sn (empty_store (sn_cgroup sn)) = (st, failure)" by fastforce
  note handles = new_poller_handles [OF p]
  have undone: "(\<forall>path. path \<noteq> [] \<and> MadeDirectory path \<in> set (made @ close_owner c f ow) \<longrightarrow>
        RemovedDirectory path \<in> set (made @ close_owner c f ow))
      \<and> (SubreaperSet True \<in> set (made @ close_owner c f ow) \<longrightarrow> SubreaperSet False \<in> set (made @ close_owner c f ow))" for c f
    using new_process_owner_root [OF o] reap_effects [of _ c f ow] by (auto simp: close_owner_def)
  show ?thesis
  proof (cases "works \<and> failure = None")
    case True
    then have r: "result = Inr (sn, ow, initial st)" "trace = \<lparr>tc_effects = made, tc_opened = opened, tc_closed = shut\<rparr>"
      using assms(1) by (auto simp: begin_run_def Inr o p a)
    obtain ld where ld: "loading_ok ld" "validate_dependencies (lw_order (bg_load w)) (ld_apps ld) = Some None"
      "sn_apps sn = ld_apps ld"
      using load_loading_ok [OF Inr assms(2)] by blast
    have d: "distinct (map fst (sn_apps sn))" using ld(1) unfolding ld(3) loading_ok_def by blast
    have "started (initial st)"
      using started.Started [OF assms(4), of sn] d a True by (simp add: snapshot_ok_def)
    moreover have "config_of st = map_of (sn_apps sn)"
      using apply_installs [OF inv_empty assms(4) d] a True by (auto simp: config_of_def)
    moreover have "dependencies_ok (sn_apps sn)" using dependencies_accepted [OF assms(3) ld(2)] ld(3) by simp
    ultimately show ?thesis using d handles True by (simp add: r initial_def)
  next
    case False
    then have "\<exists>e. result = Inl e" and t: "tc_effects trace = made @ close_owner (bg_collected w) (bg_children w) ow"
      "mset (tc_opened trace) = mset (tc_closed trace)"
      using assms(1) handles by (auto simp: begin_run_def Inr o p a Let_def split: bool.splits option.splits)
    then show ?thesis using undone by auto
  qed
qed


lemma begin_run_started:
  assumes "begin_run w name = (Inr (sn, ow, su), trace)" and "absolute_files (bg_load w)" and "ranges (lw_order (bg_load w))"
    and "world_ok (bg_apply w)"
  shows "started su \<and> config_of (su_store su) = map_of (sn_apps sn)"
  using begin_run_outcome [OF assms] by simp

subsection \<open>The supervisor and the watcher\<close>

record system =
  sy_run :: supervisor
  sy_watch :: watching

definition system_of :: "snapshot \<Rightarrow> supervisor \<Rightarrow> system" where
  "system_of sn su = \<lparr>sy_run = su, sy_watch = \<lparr>wa_initial = sn, wa_restarts = [], wa_lost = 0, wa_queue = []\<rparr>\<rparr>"

text \<open>
  A step: the watcher on its own, the hand-over of an update, which is an iteration of the loop that
  receives it, or an iteration with another input.
\<close>

inductive system_step :: "event_type \<Rightarrow> go_string \<Rightarrow> system \<Rightarrow> system \<Rightarrow> bool"
  for zero_type :: event_type and name :: go_string
where
  Watches: "watch_step zero_type name i (sy_watch s) = Some (w, Silent) \<Longrightarrow> input_ok i \<Longrightarrow>
    system_step zero_type name s (s\<lparr>sy_watch := w\<rparr>)"
| Updates: "watch_step zero_type name i (sy_watch s) = Some (w, Sent changed restarts) \<Longrightarrow> input_ok i \<Longrightarrow>
    moment_ok before \<Longrightarrow> moment_ok after \<Longrightarrow>
    iteration before after (Updated changed restarts) (sy_run s) = Inr su \<Longrightarrow>
    system_step zero_type name s \<lparr>sy_run = su, sy_watch = w\<rparr>"
| Runs: "moment_ok before \<Longrightarrow> moment_ok after \<Longrightarrow>
    admissible (check_fatal (fst before) (snd before) (sy_run s)) input \<Longrightarrow>
    (\<And>changed restarts. input \<noteq> Updated changed restarts) \<Longrightarrow>
    iteration before after input (sy_run s) = Inr su \<Longrightarrow>
    system_step zero_type name s (s\<lparr>sy_run := su\<rparr>)"

inductive_cases system_stepE: "system_step zero_type name s s'"

text \<open>The system once \<^verbatim>\<open>run\<close> has come up, and every state it can reach from there.\<close>

inductive system_start :: "go_string \<Rightarrow> system \<Rightarrow> bool" for name :: go_string where
  Begins: "begin_run w name = (Inr (sn, ow, su), trace) \<Longrightarrow> absolute_files (bg_load w) \<Longrightarrow>
    ranges (lw_order (bg_load w)) \<Longrightarrow> world_ok (bg_apply w) \<Longrightarrow> system_start name (system_of sn su)"

definition system_reachable :: "event_type \<Rightarrow> go_string \<Rightarrow> system \<Rightarrow> bool" where
  "system_reachable zero_type name s \<longleftrightarrow>
     (\<exists>s0. system_start name s0 \<and> (system_step zero_type name)\<^sup>*\<^sup>* s0 s)"

text \<open>
  The configuration that runs is the last one sent, or the last one sent waits to be applied again.
\<close>

definition agrees :: "supervisor \<Rightarrow> snapshot \<Rightarrow> bool" where
  "agrees su sn \<longleftrightarrow> su_stopping su \<or>
     (case su_pending su of
        None \<Rightarrow> config_of (su_store su) = map_of (sn_apps sn)
      | Some pending \<Rightarrow> pending = sn)"

lemma config_of_stable: "stable st st' \<Longrightarrow> config_of st' = config_of st"
  by (rule ext) (simp add: config_of_def current_service_def stable_def option.map_comp comp_def)

lemma config_of_moves: "moves st st' \<Longrightarrow> config_of st' = config_of st"
  by (intro config_of_stable moves_stable)

text \<open>Applying a configuration: either it runs then or the one before still does.\<close>

lemma apply_config:
  assumes "apply_snapshot w sn st = (st', failure)" and "inv st" and "world_ok w" and "snapshot_ok sn"
  shows "config_of st' = (if failure = None then map_of (sn_apps sn) else config_of st)"
proof (cases failure)
  case None
  then show ?thesis
    using apply_installs [OF assms(2,3), of sn st'] assms(1,4) by (auto simp: snapshot_ok_def config_of_def)
next
  case (Some e)
  then show ?thesis using rejected_same assms(1) config_of_same by fastforce
qed

lemma check_fatal_agrees:
  assumes "moment_ok (w, now)" and "inv (su_store su)" and "agrees su sn"
  shows "agrees (check_fatal w now su) sn"
  using assms by (auto simp: check_fatal_def Let_def agrees_def split: option.splits)

lemma restart_all_moves:
  assumes "inv st" and "world_ok w"
  shows "moves st (fold (restart_named w) entries st)"
  using assms(1)
proof (induction entries arbitrary: st)
  case (Cons e entries)
  have m: "moves st (restart_named w e st)"
    using restart_moves [OF Cons.prems] assms(2)
    by (auto simp: restart_named_def world_ok_def split: option.split prod.split)
  from rtranclp_trans [OF m Cons.IH [OF moves_inv [OF m Cons.prems]]] show ?case by simp
qed simp

lemma update_agrees:
  assumes m: "moment_ok (w, now)" and i: "inv (su_store su)" and a: "agrees su sn"
    and ok: "case changed of None \<Rightarrow> True | Some sn' \<Rightarrow> snapshot_ok sn'"
  shows "agrees (react w now (Updated changed restarts) su) (case changed of None \<Rightarrow> sn | Some sn' \<Rightarrow> sn')"
proof (cases "su_stopping su")
  case True
  then show ?thesis by (simp add: react_def agrees_def)
next
  case False
  have w: "world_ok w" using m by (simp add: moment_ok_def)
  have "agrees (update_snapshot w now changed su) (case changed of None \<Rightarrow> sn | Some sn' \<Rightarrow> sn')"
  proof (cases changed)
    case (Some sn')
    obtain st failure where s: "apply_snapshot w sn' (su_store su) = (st, failure)" by fastforce
    show ?thesis
      using apply_config [OF s i w] ok Some s by (cases failure) (simp_all add: update_snapshot_def agrees_def)
  qed (use a in \<open>simp add: update_snapshot_def\<close>)
  moreover have "inv (su_store (update_snapshot w now changed su))"
  proof (cases changed)
    case (Some sn')
    obtain st failure where s: "apply_snapshot w sn' (su_store su) = (st, failure)" by fastforce
    have "inv st" using steps_inv [OF apply_steps [OF i w, of sn'] i] s ok Some by (simp add: snapshot_ok_def)
    then show ?thesis using s Some by (cases failure) (simp_all add: update_snapshot_def)
  qed (use i in \<open>simp add: update_snapshot_def\<close>)
  ultimately show ?thesis
    using config_of_moves [OF restart_all_moves [OF _ w]] False by (simp add: react_def Let_def agrees_def split: option.splits)
qed

lemma other_agrees:
  assumes m: "moment_ok (w, now)" and i: "inv (su_store su)" and p: "case su_pending su of None \<Rightarrow> True | Some sn \<Rightarrow> snapshot_ok sn"
    and a: "agrees su sn" and ok: "admissible su input" and other: "\<And>changed restarts. input \<noteq> Updated changed restarts"
  shows "agrees (react w now input su) sn"
proof (cases input)
  case (Updated changed restarts)
  then show ?thesis using other by blast
next
  case (Received msg)
  have "moves (su_store su) (handle w msg now (su_store su))"
    using i ok m by (intro handle_moves) (simp_all add: moment_ok_def admissible_def Received)
  then show ?thesis using a config_of_moves by (auto simp: react_def Received agrees_def split: option.splits)
next
  case (Sampled sample)
  have "config_of ((su_store su)\<lparr>st_resources := sample\<rparr>) = config_of (su_store su)"
    by (intro config_of_same) (simp add: same_core_def)
  then show ?thesis using a by (simp add: react_def Sampled agrees_def split: option.splits)
next
  case Ticked
  have w: "world_ok w" "0 < now" using m by (simp_all add: moment_ok_def)
  let ?su = "retry_pending w now su"
  have "agrees ?su sn \<and> inv (su_store ?su)"
  proof (cases "su_pending su")
    case (Some pending)
    obtain st failure where s: "apply_snapshot w pending (su_store su) = (st, failure)" by fastforce
    have "inv st" using steps_inv [OF apply_steps [OF i w(1), of pending] i] s p Some by (simp add: snapshot_ok_def)
    then show ?thesis
      using apply_config [OF s i w(1)] p a i s Some by (auto simp: retry_pending_def agrees_def Let_def)
  qed (use a i in \<open>simp add: retry_pending_def\<close>)
  moreover from this have "moves (su_store ?su) (tick w now (su_stopping ?su) (su_store ?su))"
    using w by (intro tick_moves) auto
  ultimately show ?thesis
    using config_of_moves by (auto simp: react_def Ticked agrees_def Let_def split: option.splits)
qed (auto simp: react_def agrees_def Let_def)

lemma iteration_react:
  "iteration before after input su = Inr su' \<Longrightarrow>
    su' = react (fst after) (snd after) input (check_fatal (fst before) (snd before) su)"
  by (simp add: iteration_def Let_def split: if_splits)

lemma check_fatal_ok:
  assumes "moment_ok before" and "supervisor_ok su"
  shows "supervisor_ok (check_fatal (fst before) (snd before) su)"
  using check_fatal_advances [of "fst before" "snd before" su] assms by (simp add: advances_def)

lemma reachable_run_step: "reachable su \<Longrightarrow> run_step su su' \<Longrightarrow> reachable su'"
  unfolding reachable_def by (meson rtranclp.rtrancl_into_rtrancl)

definition system_ok :: "system \<Rightarrow> bool" where
  "system_ok s \<longleftrightarrow> reachable (sy_run s) \<and> watch_ok (sy_watch s) \<and> agrees (sy_run s) (wa_initial (sy_watch s))"

lemma system_step_ok:
  assumes "system_step zero_type name s s'" and "system_ok s"
  shows "system_ok s'"
  using assms
proof (induction rule: system_step.induct)
  case (Watches i s w)
  then show ?case using watch_step_spec [of "sy_watch s" i zero_type name] by (auto simp: system_ok_def)
next
  case (Updates i s w changed restarts before after su)
  let ?su = "check_fatal (fst before) (snd before) (sy_run s)"
  have spec: "watch_ok w" "wa_initial w = (case changed of None \<Rightarrow> wa_initial (sy_watch s) | Some sn \<Rightarrow> sn)"
    using watch_step_spec [of "sy_watch s" i zero_type name] Updates by (auto simp: system_ok_def)
  then have sn: "case changed of None \<Rightarrow> True | Some sn \<Rightarrow> snapshot_ok sn"
    by (auto simp: watch_ok_def apps_ok_def snapshot_ok_def split: option.splits)
  have ok: "supervisor_ok ?su"
    using check_fatal_ok reachable_ok Updates by (simp add: system_ok_def)
  have "run_step (sy_run s) su"
    using run_step.Iterate [OF Updates(3,4) _ Updates(5)] sn by (simp add: admissible_def split: option.splits)
  moreover have "agrees ?su (wa_initial (sy_watch s))"
    using check_fatal_agrees [of "fst before" "snd before"] Updates reachable_inv by (simp add: system_ok_def)
  then have "agrees su (wa_initial w)"
    using update_agrees [of "fst after" "snd after" ?su] iteration_react [OF Updates(5)] Updates(4) ok sn spec(2)
    by (simp add: supervisor_ok_def)
  ultimately show ?case using Updates spec(1) reachable_run_step [of "sy_run s" su] by (simp add: system_ok_def)
next
  case (Runs before after s input su)
  let ?su = "check_fatal (fst before) (snd before) (sy_run s)"
  have ok: "supervisor_ok ?su"
    using check_fatal_ok reachable_ok Runs by (simp add: system_ok_def)
  have "agrees ?su (wa_initial (sy_watch s))"
    using check_fatal_agrees [of "fst before" "snd before"] Runs reachable_inv by (simp add: system_ok_def)
  then have "agrees su (wa_initial (sy_watch s))"
    using other_agrees [of "fst after" "snd after" ?su _ input] iteration_react [OF Runs(5)] Runs(2-4) ok
    by (simp add: supervisor_ok_def)
  then show ?case
    using Runs reachable_run_step [OF _ run_step.Iterate [OF Runs(1-3,5)]] by (simp add: system_ok_def)
qed

lemma system_start_ok: "system_start name s \<Longrightarrow> system_ok s"
proof (induction rule: system_start.induct)
  case (Begins w sn ow su trace)
  obtain sn' where l: "load (bg_load w) name = Inr sn'" using Begins(1) by (auto simp: begin_run_def split: sum.splits)
  then have "sn' = sn" using Begins(1) by (auto simp: begin_run_def Let_def split: prod.splits bool.splits option.splits)
  then have apps: "apps_ok (sn_apps sn)" using loaded_apps_ok [OF l Begins(2)] by simp
  have su: "started su" "config_of (su_store su) = map_of (sn_apps sn)"
    using begin_run_started [OF Begins] by auto
  then have "reachable su" by (auto simp: reachable_def)
  moreover have "watch_ok (sy_watch (system_of sn su))" using apps by (simp add: watch_ok_def system_of_def)
  moreover have "su_pending su = None" using su(1) by (auto simp: Supervisor.started.simps initial_def)
  ultimately show ?case using su(2) by (simp add: system_ok_def agrees_def system_of_def)
qed

interpretation whole: guarded_system "system_start name" "system_step zero_type name" system_ok for name zero_type
  by unfold_locales (rule system_start_ok, assumption, rule system_step_ok)

lemma system_reachable_ok: "system_reachable zero_type name s \<Longrightarrow> system_ok s"
  unfolding system_reachable_def using whole.reached_good by blast

text \<open>
  C6: In every state the program can reach, the services that run are exactly the applications of the
  configuration the watcher has sent last and compares with, unless the supervisor is stopping or
  could not apply that configuration, and then it waits to be applied again.
\<close>

theorem configuration_agrees:
  assumes "system_reachable zero_type name s"
  shows "reachable (sy_run s) \<and> (su_stopping (sy_run s) \<or>
    (case su_pending (sy_run s) of
       None \<Rightarrow> (\<forall>n. map_option s_config (current_service (su_store (sy_run s)) n) = map_of (sn_apps (wa_initial (sy_watch s))) n)
     | Some sn \<Rightarrow> sn = wa_initial (sy_watch s)))"
  using system_reachable_ok [OF assms]
  by (auto simp: system_ok_def agrees_def config_of_def fun_eq_iff split: option.splits)

subsection \<open>From a file event to the workers\<close>

lemma restart_fold:
  assumes "inv st" and "0 < now" and "set ps \<subseteq> {..<st_next_proc st}"
  shows "let st' = fst (fold (restart_one w now) ps (st, active)) in moves st st'
    \<and> (\<forall>p \<in> set ps. p_stopping (st_procs st' p) \<noteq> 0)
    \<and> (\<forall>s. set (s_workers (st_servs st' s)) \<subseteq> set (s_workers (st_servs st s)))"
  using assms(1,3)
proof (induction ps arbitrary: st active)
  case (Cons p ps)
  obtain st1 active1 where one: "restart_one w now p (st, active) = (st1, active1)"
    by (cases "restart_one w now p (st, active)")
  have m: "moves st st1"
    using one stop_moves [OF Cons.prems(1) assms(2)] by (auto simp: restart_one_def split: if_splits)
  have p: "p_stopping (st_procs st1 p) \<noteq> 0"
    using one stop_stopping [OF Cons.prems(1) assms(2)] Cons.prems(2) by (auto simp: restart_one_def split: if_splits)
  have workers: "\<forall>s. set (s_workers (st_servs st1 s)) \<subseteq> set (s_workers (st_servs st s))"
    using one stop_others [OF Cons.prems(1) assms(2), of p w, unfolded releases_def]
    by (cases "p_stopping (st_procs st p) = 0") (simp_all add: restart_one_def)
  have le: "st_next_proc st \<le> st_next_proc st1" using moves_evolves [OF m] by (simp add: evolves_def)
  then have "set ps \<subseteq> {..<st_next_proc st1}" using Cons.prems(2) by auto
  from Cons.IH [OF moves_inv [OF m Cons.prems(1)] this, of active1]
  have IH: "moves st1 (fst (fold (restart_one w now) ps (st1, active1)))"
    "\<forall>q \<in> set ps. p_stopping (st_procs (fst (fold (restart_one w now) ps (st1, active1))) q) \<noteq> 0"
    "\<forall>s. set (s_workers (st_servs (fst (fold (restart_one w now) ps (st1, active1))) s)) \<subseteq> set (s_workers (st_servs st1 s))"
    by (simp_all add: Let_def)
  have "p < st_next_proc st1" using Cons.prems(2) le by auto
  then have "p_stopping (st_procs (fst (fold (restart_one w now) ps (st1, active1))) p) \<noteq> 0"
    using moves_evolves [OF IH(1)] p by (simp add: evolves_def Let_def)
  moreover have "\<forall>s. set (s_workers (st_servs (fst (fold (restart_one w now) ps (st1, active1))) s)) \<subseteq> set (s_workers (st_servs st s))"
    using IH(3) workers by blast
  ultimately show ?case using IH(2) rtranclp_trans [OF m IH(1)] one by (simp add: Let_def)
qed simp

lemma restart_drains:
  assumes "inv st" and "0 < now" and "world_ok w" and s: "s \<in> snd ` set (st_services st)"
  shows "moves st (restart w s now st)" and "draining (restart w s now st) s"
    and "t \<in> snd ` set (st_services st) \<Longrightarrow> draining st t \<Longrightarrow> draining (restart w s now st) t"
proof -
  show m: "moves st (restart w s now st)" by (rule restart_moves [OF assms(1,2)])
  let ?ps = "w_order w LoopRestart (s_workers (st_servs st s))"
  have ps: "set ?ps = set (s_workers (st_servs st s))" by (rule world_order [OF assms(3)])
  have below: "set ?ps \<subseteq> {..<st_next_proc st}" unfolding ps by (rule workers_of_below [OF assms(1) s])
  obtain st1 active where f: "fold (restart_one w now) ?ps (st, False) = (st1, active)" by fastforce
  have st1: "\<forall>p \<in> set ?ps. p_stopping (st_procs st1 p) \<noteq> 0"
    "\<forall>s. set (s_workers (st_servs st1 s)) \<subseteq> set (s_workers (st_servs st s))"
    using restart_fold [OF assms(1,2) below, of w False] f by (simp_all add: Let_def)
  have procs: "st_procs (restart w s now st) = st_procs st1"
    and workers: "\<And>t. s_workers (st_servs (restart w s now st) t) = s_workers (st_servs st1 t)"
    by (simp_all add: restart_def f upd_serv_def)
  show "draining (restart w s now st) s"
    using st1 ps unfolding draining_def procs workers by blast
  assume t: "t \<in> snd ` set (st_services st)" "draining st t"
  show "draining (restart w s now st) t"
    unfolding draining_def
  proof
    fix p assume "p \<in> set (s_workers (st_servs (restart w s now st) t))"
    with st1(2) have p: "p \<in> set (s_workers (st_servs st t))" unfolding workers by blast
    with workers_of_below [OF assms(1) t(1)] have "p < st_next_proc st" by auto
    with moves_evolves [OF m] t(2) p show "p_stopping (st_procs (restart w s now st) p) \<noteq> 0"
      by (auto simp: evolves_def draining_def Let_def)
  qed
qed

lemma restart_all_drains:
  assumes "inv st" and "world_ok w" and "map_of (st_services st) n = Some s"
    and "(n, s_config (st_servs st s)) \<in> set entries \<or> draining st s"
  shows "draining (fold (restart_named w) entries st) s"
  using assms(1,3,4)
proof (induction entries arbitrary: st)
  case (Cons e entries)
  have s: "s \<in> snd ` set (st_services st)" using map_of_SomeD [OF Cons.prems(2)] by force
  obtain m config where e: "e = (m, config)" by (cases e)
  have clock: "0 < w_clock w k" for k using assms(2) by (simp add: world_ok_def)
  have "restart_named w e st = st \<or> (\<exists>t. map_of (st_services st) m = Some t \<and> s_config (st_servs st t) = config
      \<and> restart_named w e st = restart w t (w_clock w t) st)"
    by (auto simp: restart_named_def e split: option.split)
  then consider (same) "restart_named w e st = st"
    | (restarts) t where "map_of (st_services st) m = Some t" "s_config (st_servs st t) = config"
        "restart_named w e st = restart w t (w_clock w t) st"
    by blast
  then show ?case
  proof cases
    case same
    have "(n, s_config (st_servs st s)) \<in> set entries \<or> draining st s"
      using Cons.prems(2,3) same restart_drains(2) [OF Cons.prems(1) clock assms(2) s, of s]
      by (auto simp: restart_named_def)
    then show ?thesis using Cons.IH [OF Cons.prems(1,2)] same by simp
  next
    case restarts
    have t: "t \<in> snd ` set (st_services st)" using map_of_SomeD [OF restarts(1)] by force
    note r = restart_drains(1,2) [OF Cons.prems(1) clock [of t] assms(2) t]
      and r' = restart_drains(3) [OF Cons.prems(1) clock [of t] assms(2) t s]
    have st: "st_services (restart w t (w_clock w t) st) = st_services st"
      "s_config (st_servs (restart w t (w_clock w t) st) s) = s_config (st_servs st s)"
      using moves_stable [OF r(1)] by (simp_all add: stable_def)
    have "(n, s_config (st_servs st s)) \<in> set entries \<or> draining (restart w t (w_clock w t) st) s"
      using Cons.prems(2,3) r(2) r' restarts(1) e by auto
    then show ?thesis
      using Cons.IH [OF moves_inv [OF r(1) Cons.prems(1)]] Cons.prems(2) st restarts(3) by simp
  qed
qed simp


subsection \<open>A scenario\<close>

text \<open>One application whose files are watched; the first step of the system hands over a request.\<close>

definition watched_load :: load_world where
  "watched_load = sample_load\<lparr>lw_fields := (\<lambda>app document. Some (app\<lparr>app_name := ''web'', app_command := [''./run''],
     app_restart_on := [\<lparr>rule_glob = ''*.yaml'', rule_events = [''write'']\<rparr>]\<rparr>))\<rparr>"

definition watched_app :: app where
  "watched_app = sample_loaded\<lparr>app_restart_on := [\<lparr>rule_glob = ''/etc/ooth/*.yaml'', rule_events = [''write'']\<rparr>]\<rparr>"

definition watched_snapshot :: snapshot where
  "watched_snapshot = \<lparr>sn_apps = [(''web'', watched_app)], sn_roots = [''/etc''], sn_cgroup = [],
     sn_resources = \<lparr>max_cpu_percent = 90, min_available_memory_percent = 10\<rparr>\<rparr>"

lemma watched_root: "watch_root (lw_stat watched_load) ''/etc/ooth/*.yaml'' = Some (Inr ''/etc/ooth'')"
proof -
  have "file_match ''/etc/ooth/*.yaml'' [] = Some False" "index_any ''/etc/ooth/*.yaml'' ''*?['' = Some 10"
    "dir (take 10 ''/etc/ooth/*.yaml'') = ''/etc/ooth''"
    by code_simp+
  then show ?thesis
    unfolding watch_root_def by (simp only: option.case) (simp add: watched_load_def sample_load_def nearest_dir.simps)
qed

lemma watched_file:
  defines "ld \<equiv> \<lparr>ld_apps = [], ld_sockets = [], ld_roots = [''/etc'', ''/etc/ooth'']\<rparr>"
  shows "load_file watched_load None ''/etc/ooth/web.yaml'' ld
    = Inr \<lparr>ld_apps = [(''web'', watched_app)], ld_sockets = [], ld_roots = [''/etc'', ''/etc/ooth'', ''/etc/ooth'']\<rparr>"
proof -
  let ?file = "''/etc/ooth/web.yaml''"
  let ?rules = "[\<lparr>rule_glob = ''*.yaml'', rule_events = [''write'']\<rparr>]"
  define app where "app = default_app\<lparr>app_values := YamlMap [], app_name := ''web'', app_command := [''./run''],
     app_restart_on := ?rules\<rparr>"
  define checked where "checked = sample_loaded\<lparr>app_restart_on := ?rules\<rparr>"
  have "read_file watched_load (unmarshal_app watched_load) ?file default_app = Inr app"
    "app_scale_window app = 0" "app_name (named ?file (scale_defaults app)) = ''web''"
    unfolding app_def by code_simp+
  moreover have "validate Linux (ready_default (named ?file (scale_defaults app))) = None"
    unfolding app_def by code_simp
  moreover have "resolved ?file (password_default Linux None (ready_default (named ?file (scale_defaults app)))) = checked"
    unfolding app_def checked_def by code_simp
  moreover have "\<exists>launch. expand_launch (tl_template sample_tools) (tl_marshal sample_tools) (tl_environ sample_tools)
      checked (address (app_listen checked)) = Inr launch"
    unfolding checked_def
    by (rule exI [of _ "([''/etc/ooth/run''], [])"]) code_simp
  moreover have "validate_actions sample_tools checked = Inr checked" "app_restart_on checked = ?rules"
    "network (app_listen watched_app) = []" "app_name watched_app = ''web''"
    unfolding checked_def by code_simp+
  moreover have "resolve (dir ?file) ''*.yaml'' = ''/etc/ooth/*.yaml''" by code_simp
  then have "check_rules watched_load ?file ?rules = Inr ([\<lparr>rule_glob = ''/etc/ooth/*.yaml'', rule_events = [''write'']\<rparr>], [''/etc/ooth''])"
    using watched_root by (simp add: root_result_def file_events_def)
  moreover have "checked\<lparr>app_restart_on := [\<lparr>rule_glob = ''/etc/ooth/*.yaml'', rule_events = [''write'']\<rparr>]\<rparr> = watched_app"
    by (simp add: checked_def watched_app_def)
  moreover have "lw_tools watched_load = sample_tools" "lw_goos watched_load = Linux" by (simp_all add: watched_load_def sample_load_def)
  ultimately show ?thesis
    by (auto simp: load_file_def complete_app_def add_loaded_def ld_def Let_def)
qed

lemma watched_loaded: "load watched_load ''ooth.yaml'' = Inr watched_snapshot"
proof -
  let ?cfg = "default_config\<lparr>cfg_watch := [''ooth/*.yaml'']\<rparr>"
  have read: "read_file watched_load (lw_config watched_load) ''/etc/ooth.yaml'' default_config = Inr ?cfg" by code_simp
  have glob: "resolve (dir ''/etc/ooth.yaml'') ''ooth/*.yaml'' = ''/etc/ooth/*.yaml''" "dir ''/etc/ooth.yaml'' = ''/etc''"
    by code_simp+
  have files: "expand_glob watched_load ''/etc/ooth/*.yaml'' ''/etc/ooth'' = Some [''/etc/ooth/web.yaml'']" by code_simp
  have globs: "load_globs watched_load None ''/etc/ooth.yaml'' (cfg_watch ?cfg) \<lparr>ld_apps = [], ld_sockets = [], ld_roots = [''/etc'']\<rparr>
      = Inr \<lparr>ld_apps = [(''web'', watched_app)], ld_sockets = [], ld_roots = [''/etc'', ''/etc/ooth'', ''/etc/ooth'']\<rparr>"
    using watched_root glob files watched_file by (simp add: root_result_def)
  have "validate_dependencies (lw_order watched_load) [(''web'', watched_app)] = Some None"
    "outer_roots [''/etc'', ''/etc/ooth'', ''/etc/ooth''] = [''/etc'']" "percent_ok 90" "percent_ok 10"
    by code_simp+
  with globs glob have "load_config watched_load ''/etc/ooth.yaml'' ?cfg None = Inr watched_snapshot"
    by (simp add: load_config_def default_config_def watched_snapshot_def)
  moreover have "lw_abs watched_load ''ooth.yaml'' = Some ''/etc/ooth.yaml''" by code_simp
  ultimately show ?thesis using read by (simp add: load_def default_config_def)
qed

definition watched_begin :: begin_world where
  "watched_begin = \<lparr>bg_load = watched_load,
     bg_owner = \<lparr>nw_environment = ''/g'', nw_membership = None, nw_mkdir = (\<lambda>folder. Some ''/g/ooth-1''),
       nw_kill_file = (\<lambda>path. True), nw_pid = 5, nw_subreaper = Some 0, nw_set_subreaper = True\<rparr>,
     bg_poller = \<lparr>pw_epoll = True, pw_wake = True, pw_waker = True, pw_conn = True, pw_control = True, pw_add = True\<rparr>,
     bg_apply = demo_world, bg_collected = (\<lambda>pid. True), bg_children = []\<rparr>"

definition watched_store :: store where
  "watched_store = fst (apply_snapshot demo_world watched_snapshot (empty_store []))"

lemma watched_applied:
  "apply_snapshot demo_world watched_snapshot (empty_store []) = (watched_store, None)"
proof -
  have "snd (apply_snapshot demo_world watched_snapshot (empty_store [])) = None" by code_simp
  then show ?thesis by (simp add: watched_store_def prod_eq_iff)
qed

lemma watched_store_fatal: "st_fatal watched_store = None"
  unfolding watched_store_def by code_simp

lemma watched_ok: "absolute_files (bg_load watched_begin)" "ranges (lw_order (bg_load watched_begin))" "world_ok (bg_apply watched_begin)"
  using demo_world_ok [of 1]
  by (auto simp: watched_begin_def watched_load_def sample_load_def absolute_files_def is_abs_def ranges_def moment_ok_def)

lemma watched_begun: "\<exists>ow trace. begin_run watched_begin ''ooth.yaml'' = (Inr (watched_snapshot, ow, initial watched_store), trace)"
proof -
  have "sn_cgroup watched_snapshot = []" by (simp add: watched_snapshot_def)
  then show ?thesis
    using watched_loaded watched_applied
    by (simp add: begin_run_def watched_begin_def new_poller_def Let_def split: prod.splits)
qed


definition watched_system :: system where
  "watched_system = system_of watched_snapshot (initial watched_store)"

lemma watched_reachable: "system_reachable EventChmod ''ooth.yaml'' watched_system"
  unfolding system_reachable_def watched_system_def
  using watched_begun system_start.Begins [OF _ watched_ok] by blast

lemma configuration_agrees_witness:
  "map_option s_config (current_service (su_store (sy_run watched_system)) ''web'') = Some watched_app"
  using configuration_agrees [OF watched_reachable]
  by (simp add: watched_system_def system_of_def initial_def watched_snapshot_def)

definition lost_round :: round where
  "lost_round = \<lparr>rd_lost = 1, rd_load = watched_load\<lparr>lw_abs := (\<lambda>name. None)\<rparr>, rd_watches = True, rd_taken = True\<rparr>"


end
