(* ===== verification/WindowsJobs.thy ===== *)
theory WindowsJobs
  imports Config "HOL-Library.Multiset"
begin

text \<open>
  Processes and identities on Windows, \<^verbatim>\<open>src/job_windows.go\<close>: the token of an \<^verbatim>\<open>Identity\<close>, the
  security of its socket with its rollback, and the job object that holds the family of a process.
  The answers of the Windows API are arguments; what is opened, waited for and closed is a result.
\<close>

subsection \<open>Listeners and tokens\<close>

definition inherit_handle :: "bool \<Rightarrow> nat \<Rightarrow> nat list \<Rightarrow> (nat list \<times> nat) option" where
  "inherit_handle works handle inherited = (if works then Some (inherited @ [handle], handle) else None)"

record logon_world =
  lg_lookup :: "go_string \<Rightarrow> go_string option"
  lg_current :: "go_string option"
  lg_logon :: "go_string \<Rightarrow> go_string option \<Rightarrow> go_string \<Rightarrow> nat option"

datatype logon_error =
    GroupUnsupported
  | PasswordRequiresUser
  | AccountUnknown
  | CurrentUnknown
  | PasswordNeeded
  | NulInText
  | LogonFailed

text \<open>The account and the domain it is looked up in; a name with an at sign carries its own.\<close>

definition split_account :: "go_string \<Rightarrow> go_string \<times> go_string option" where
  "split_account user =
     (case cut user [CHR 0x5C] of (domain, name, found) \<Rightarrow>
        if found then (name, if domain = [] then None else Some domain)
        else (user, if contains user ''@'' then None else Some ''.''))"

definition no_nul :: "go_string \<Rightarrow> bool" where
  "no_nul s \<longleftrightarrow> CHR 0x00 \<notin> set s"

text \<open>\<^verbatim>\<open>Identity.apply\<close>: no token for the supervisor's own account.\<close>

definition windows_token :: "logon_world \<Rightarrow> identity \<Rightarrow> logon_error + nat option" where
  "windows_token w i =
     (if id_group i \<noteq> [] then Inl GroupUnsupported
      else if id_user i = [] then (if id_password i \<noteq> None then Inl PasswordRequiresUser else Inr None)
      else case id_password i of
        None \<Rightarrow>
          (case lg_lookup w (id_user i) of None \<Rightarrow> Inl AccountUnknown | Some uid \<Rightarrow>
          (case lg_current w of None \<Rightarrow> Inl CurrentUnknown | Some current \<Rightarrow>
             if uid \<noteq> current then Inl PasswordNeeded else Inr None))
      | Some password \<Rightarrow>
          (case split_account (id_user i) of (name, domain) \<Rightarrow>
             if \<not> no_nul name \<or> (domain \<noteq> None \<and> \<not> no_nul (the domain)) \<or> \<not> no_nul password then Inl NulInText
             else (case lg_logon w name domain password of None \<Rightarrow> Inl LogonFailed | Some token \<Rightarrow> Inr (Some token))))"

subsection \<open>The security of a socket\<close>

text \<open>Owner, access list and whether the list is protected from the directory's.\<close>

record secured =
  sf_owner :: go_string
  sf_access :: go_string
  sf_protected :: bool
  sf_socket :: bool

record security_world =
  se_current :: "go_string option"
  se_lookup :: "go_string \<Rightarrow> go_string option"
  se_sid :: "go_string \<Rightarrow> bool"
  se_descriptor :: bool
  se_list :: bool
  se_name :: bool
  se_open :: bool
  se_read :: bool
  se_control :: bool
  se_write :: bool
  se_restore :: bool
  se_close :: bool

datatype security_handle = Descriptor | PreviousDescriptor | SocketHandle

datatype security_error =
    NoAccount
  | NoSid
  | NoDescriptor
  | NoSocketFile
  | NoSocket
  | NotOpened
  | NotRead
  | NotWritten bool

text \<open>Full access for the system, the account and, when it is another, the supervisor's own.\<close>

definition access_list :: "go_string \<Rightarrow> go_string \<Rightarrow> go_string" where
  "access_list account current =
     ''D:P(A;;FA;;;SY)(A;;FA;;;'' @ account @ '')''
     @ (if current \<noteq> account then ''(A;;FA;;;'' @ current @ '')'' else [])"

text \<open>The function returned: whether it works, the file afterwards and what it closes.\<close>

definition finish_security :: "security_world \<Rightarrow> secured \<Rightarrow> bool \<Rightarrow> secured \<Rightarrow> bool \<times> secured \<times> security_handle list" where
  "finish_security w previous commit file =
     (let restored = (if commit \<or> \<not> se_restore w then file
        else file\<lparr>sf_owner := sf_owner previous, sf_access := sf_access previous, sf_protected := sf_protected previous\<rparr>)
      in ((commit \<or> se_restore w) \<and> se_close w, restored, [SocketHandle, PreviousDescriptor]))"

text \<open>\<^verbatim>\<open>Identity.socket\<close>: the error or what to restore, the file, and the handles opened and closed.\<close>

definition secure_socket :: "security_world \<Rightarrow> identity \<Rightarrow> secured option
    \<Rightarrow> (security_error + secured) \<times> secured option \<times> security_handle list \<times> security_handle list" where
  "secure_socket w i file =
     (case se_current w of None \<Rightarrow> (Inl NoAccount, file, [], []) | Some current \<Rightarrow>
     (case (if id_user i = [] then Some current else se_lookup w (id_user i)) of
        None \<Rightarrow> (Inl NoAccount, file, [], [])
      | Some account \<Rightarrow>
          if \<not> se_sid w account then (Inl NoSid, file, [], [])
          else if \<not> se_descriptor w then (Inl NoDescriptor, file, [], [])
          else if \<not> se_list w then (Inl NoDescriptor, file, [Descriptor], [Descriptor])
          else (case file of
            None \<Rightarrow> (Inl NoSocketFile, file, [Descriptor], [Descriptor])
          | Some previous \<Rightarrow>
              if \<not> sf_socket previous then (Inl NoSocket, file, [Descriptor], [Descriptor])
              else if \<not> se_name w \<or> \<not> se_open w then (Inl NotOpened, file, [Descriptor], [Descriptor])
              else if \<not> se_read w then (Inl NotRead, file, [Descriptor, SocketHandle], [SocketHandle, Descriptor])
              else if \<not> se_control w
              then (Inl NotRead, file, [Descriptor, SocketHandle, PreviousDescriptor], [PreviousDescriptor, SocketHandle, Descriptor])
              else if se_write w
              then (Inr previous, Some (previous\<lparr>sf_owner := account, sf_access := access_list account current, sf_protected := True\<rparr>),
                    [Descriptor, SocketHandle, PreviousDescriptor], [Descriptor])
              else (case finish_security w previous False previous of
                      (works, restored, shut) \<Rightarrow> (Inl (NotWritten works), Some restored,
                        [Descriptor, SocketHandle, PreviousDescriptor], shut @ [Descriptor])))))"

lemma finish_security_restores:
  assumes "secure_socket w i (Some file) = (Inr previous, Some file', opened, shut)" and "se_restore w" and "se_close w"
  shows "previous = file \<and> finish_security w previous False file' = (True, file, [SocketHandle, PreviousDescriptor])
    \<and> finish_security w previous True file' = (True, file', [SocketHandle, PreviousDescriptor])
    \<and> mset opened = mset shut + {#SocketHandle, PreviousDescriptor#}"
  using assms
  by (auto simp: secure_socket_def finish_security_def Let_def split: option.splits if_splits prod.splits)

lemma secure_socket_failed:
  assumes "secure_socket w i file = (Inl e, file', opened, shut)"
  shows "file' = file \<and> mset opened = mset shut"
  using assms
  by (cases "file") (auto simp: secure_socket_def finish_security_def Let_def split: option.splits if_splits)

subsection \<open>The family of a process\<close>

datatype job_effect =
    JobCreated
  | JobTerminated
  | JobClosed
  | ProcessOpened int
  | ProcessWaited int
  | ProcessClosed int

text \<open>Whether the job's handle is open, and whether the command is placed in it when it starts.\<close>

record windows_job =
  wj_open :: bool
  wj_placed :: bool

datatype query_answer = MoreData | QueryFailed | Listed "int list"

datatype process_answer = Gone | NotOpenable | Unknown | Foreign | Member bool

record windows_world =
  ww_create :: bool
  ww_limit :: bool
  ww_terminate :: bool
  ww_query :: "nat \<Rightarrow> query_answer"
  ww_process :: "int \<Rightarrow> process_answer"
  ww_close :: bool

definition terminate_job :: "windows_world \<Rightarrow> windows_job \<Rightarrow> bool \<times> job_effect list" where
  "terminate_job w j =
     (if \<not> wj_open j then (True, []) else if ww_terminate w then (True, [JobTerminated]) else (False, []))"

text \<open>The list of members, asked for with larger and larger buffers.\<close>

partial_function (option) members_from :: "(nat \<Rightarrow> query_answer) \<Rightarrow> nat \<Rightarrow> int list option option" where
  "members_from query capacity =
     (case query capacity of
        MoreData \<Rightarrow> members_from query (2 * capacity)
      | QueryFailed \<Rightarrow> Some None
      | Listed pids \<Rightarrow> Some (Some pids))"

definition job_members :: "windows_world \<Rightarrow> windows_job \<Rightarrow> int list option option" where
  "job_members w j = (if \<not> wj_open j then Some (Some []) else members_from (ww_query w) 16)"

fun drain :: "(int \<Rightarrow> process_answer) \<Rightarrow> int list \<Rightarrow> bool \<times> job_effect list" where
  "drain answer [] = (True, [])"
| "drain answer (pid # pids) =
     (case answer pid of
        Gone \<Rightarrow> drain answer pids
      | NotOpenable \<Rightarrow> (False, [])
      | Unknown \<Rightarrow> (False, [ProcessOpened pid, ProcessClosed pid])
      | Foreign \<Rightarrow> (case drain answer pids of (fine, es) \<Rightarrow> (fine, [ProcessOpened pid, ProcessClosed pid] @ es))
      | Member True \<Rightarrow> (case drain answer pids of (fine, es) \<Rightarrow>
          (fine, [ProcessOpened pid, ProcessWaited pid, ProcessClosed pid] @ es))
      | Member False \<Rightarrow> (False, [ProcessOpened pid, ProcessClosed pid]))"

text \<open>\<^verbatim>\<open>processJob.Close\<close>; \<open>None\<close> if the query of the members never ended.\<close>

definition close_windows_job :: "windows_world \<Rightarrow> windows_job \<Rightarrow> (windows_job \<times> bool \<times> job_effect list) option" where
  "close_windows_job w j =
     (if \<not> wj_open j then Some (j, True, [])
      else case terminate_job w j of
        (False, es) \<Rightarrow> Some (j, False, es)
      | (True, es) \<Rightarrow>
          (case job_members w j of
             None \<Rightarrow> None
           | Some None \<Rightarrow> Some (j, False, es)
           | Some (Some pids) \<Rightarrow>
               (case drain (ww_process w) pids of
                  (False, ds) \<Rightarrow> Some (j, False, es @ ds)
                | (True, ds) \<Rightarrow>
                    if ww_close w then Some (j\<lparr>wj_open := False\<rparr>, True, es @ ds @ [JobClosed])
                    else Some (j, False, es @ ds))))"

text \<open>\<^verbatim>\<open>newProcessJob\<close> and \<^verbatim>\<open>processOwner.Start\<close>, whose last argument tells whether the command starts.\<close>

definition new_windows_job :: "windows_world \<Rightarrow> (windows_job option \<times> job_effect list) option" where
  "new_windows_job w =
     (if \<not> ww_create w then Some (None, [])
      else if ww_limit w then Some (Some \<lparr>wj_open = True, wj_placed = True\<rparr>, [JobCreated])
      else map_option (\<lambda>(j, fine, es). (None, JobCreated # es)) (close_windows_job w \<lparr>wj_open = True, wj_placed = False\<rparr>))"

definition start_windows_job :: "windows_world \<Rightarrow> bool \<Rightarrow> (windows_job option \<times> job_effect list) option" where
  "start_windows_job w starts =
     (case new_windows_job w of
        None \<Rightarrow> None
      | Some (None, es) \<Rightarrow> Some (None, es)
      | Some (Some j, es) \<Rightarrow>
          if starts then Some (Some j, es)
          else map_option (\<lambda>(j, fine, ds). (None, es @ ds)) (close_windows_job w j))"

subsection \<open>Closing ends, and waits for the whole family and for nothing else\<close>

lemma members_from_ends:
  assumes "query (2 ^ d * capacity) \<noteq> MoreData"
  shows "members_from query capacity \<noteq> None"
  using assms
proof (induction d arbitrary: capacity)
  case 0
  then show ?case by (subst members_from.simps) (simp split: query_answer.split)
next
  case (Suc d)
  then have "members_from query (2 * capacity) \<noteq> None" by (simp add: mult_ac)
  then show ?case by (subst members_from.simps) (simp split: query_answer.split)
qed

lemma drain_Cons_fine:
  assumes "drain answer (pid # pids) = (True, es)"
  shows "\<exists>ds rest. drain answer pids = (True, rest) \<and> es = ds @ rest
    \<and> (answer pid = Gone \<and> ds = [] \<or> answer pid = Foreign \<and> ds = [ProcessOpened pid, ProcessClosed pid]
       \<or> answer pid = Member True \<and> ds = [ProcessOpened pid, ProcessWaited pid, ProcessClosed pid])"
proof (cases "answer pid")
  case (Member works)
  then show ?thesis using assms by (cases works) (auto split: prod.splits)
qed (use assms in \<open>auto split: prod.splits\<close>)

lemma drain_fine:
  assumes "drain answer pids = (True, es)"
  shows "(\<forall>pid \<in> set pids. answer pid = Gone \<or> answer pid = Foreign \<or> answer pid = Member True \<and> ProcessWaited pid \<in> set es)"
  using assms
proof (induction pids arbitrary: es)
  case (Cons pid pids)
  obtain ds rest where d: "drain answer pids = (True, rest)" "es = ds @ rest"
    and a: "answer pid = Gone \<and> ds = [] \<or> answer pid = Foreign \<and> ds = [ProcessOpened pid, ProcessClosed pid]
       \<or> answer pid = Member True \<and> ds = [ProcessOpened pid, ProcessWaited pid, ProcessClosed pid]"
    using drain_Cons_fine [OF Cons.prems] by blast
  from Cons.IH [OF d(1)] a show ?case unfolding d(2) by auto
qed simp

lemma drain_waits: "drain answer pids = (fine, es) \<Longrightarrow> \<forall>p. ProcessWaited p \<in> set es \<longrightarrow> answer p = Member True"
proof (induction pids arbitrary: fine es)
  case (Cons p pids)
  obtain fine' rest where d: "drain answer pids = (fine', rest)" by (cases "drain answer pids")
  note IH = Cons.IH [OF d]
  show ?case
  proof (cases "answer p")
    case (Member works)
    then show ?thesis using Cons.prems IH d by (cases works) auto
  qed (use Cons.prems IH d in auto)
qed simp

text \<open>Every process handle that is opened is closed, however it ends.\<close>

lemma drain_handles:
  "drain answer pids = (fine, es) \<Longrightarrow> count_list es (ProcessOpened pid) = count_list es (ProcessClosed pid)"
proof (induction pids arbitrary: fine es)
  case (Cons p pids)
  obtain fine' rest where d: "drain answer pids = (fine', rest)" by (cases "drain answer pids")
  note IH = Cons.IH [OF d]
  show ?case
  proof (cases "answer p")
    case (Member works)
    then show ?thesis using Cons.prems IH d by (cases works) auto
  qed (use Cons.prems IH d in auto)
qed simp

text \<open>
  C40: Closing the family of a process on Windows ends as soon as the job's members fit into a buffer
  of 16, 32, 64, ... entries.  When it works, the job has been terminated first, every member that
  still existed has been waited for and no process that only has a member's number; afterwards the
  handle is closed and nothing is terminated any more.
\<close>

theorem closed_job_waits:
  assumes "wj_open j" and "ww_query w (2 ^ d * 16) \<noteq> MoreData"
  shows "\<exists>j' fine es. close_windows_job w j = Some (j', fine, es)
    \<and> count_list es (ProcessOpened pid) = count_list es (ProcessClosed pid)
    \<and> (\<forall>p. ProcessWaited p \<in> set es \<longrightarrow> ww_process w p = Member True)
    \<and> (fine \<longrightarrow> (\<exists>pids ds. job_members w j = Some (Some pids) \<and> es = JobTerminated # ds @ [JobClosed]
         \<and> (\<forall>p \<in> set pids. ww_process w p = Gone \<or> ww_process w p = Foreign \<or> ProcessWaited p \<in> set ds))
         \<and> \<not> wj_open j' \<and> terminate_job w j' = (True, []))"
proof -
  obtain answer where m: "job_members w j = Some answer"
    using members_from_ends [where query = "ww_query w" and d = d and capacity = 16] assms by (auto simp: job_members_def)
  show ?thesis
  proof (cases "ww_terminate w")
    case False
    then show ?thesis
      using assms(1) by (intro exI [of _ j] exI [of _ False] exI [of _ "[]"]) (simp add: close_windows_job_def terminate_job_def)
  next
    case t: True
    show ?thesis
    proof (cases answer)
      case None
      then show ?thesis
        using assms(1) t m
        by (intro exI [of _ j] exI [of _ False] exI [of _ "[JobTerminated]"]) (simp add: close_windows_job_def terminate_job_def)
    next
      case (Some pids)
      obtain fine ds where d: "drain (ww_process w) pids = (fine, ds)" by (cases "drain (ww_process w) pids")
      have waited: "\<forall>p. ProcessWaited p \<in> set ds \<longrightarrow> ww_process w p = Member True" by (rule drain_waits [OF d])
      show ?thesis
        using assms(1) t m Some d waited drain_handles [OF d, of pid] drain_fine [of "ww_process w" pids ds]
        by (cases fine) (auto simp: close_windows_job_def terminate_job_def)
    qed
  qed
qed

definition sample_windows :: windows_world where
  "sample_windows = \<lparr>ww_create = True, ww_limit = True, ww_terminate = True,
     ww_query = (\<lambda>capacity. if capacity < 32 then MoreData else Listed [7, 8, 9]),
     ww_process = (\<lambda>pid. if pid = 7 then Member True else if pid = 8 then Gone else Foreign), ww_close = True\<rparr>"

lemma closed_job_waits_witness:
  "\<exists>es. close_windows_job sample_windows \<lparr>wj_open = True, wj_placed = True\<rparr> = Some (\<lparr>wj_open = False, wj_placed = True\<rparr>, True, es)
     \<and> ProcessWaited 7 \<in> set es \<and> ProcessWaited 9 \<notin> set es"
proof -
  let ?j = "\<lparr>wj_open = True, wj_placed = True\<rparr>"
  have m: "job_members sample_windows ?j = Some (Some [7, 8, 9])"
    by (simp add: job_members_def sample_windows_def members_from.simps)
  have "drain (ww_process sample_windows) [7, 8, 9]
      = (True, [ProcessOpened 7, ProcessWaited 7, ProcessClosed 7, ProcessOpened 9, ProcessClosed 9])"
    by (simp add: sample_windows_def)
  then have c: "close_windows_job sample_windows ?j = Some (\<lparr>wj_open = False, wj_placed = True\<rparr>, True,
      [JobTerminated, ProcessOpened 7, ProcessWaited 7, ProcessClosed 7, ProcessOpened 9, ProcessClosed 9, JobClosed])"
    using m by (simp add: close_windows_job_def terminate_job_def) (simp add: sample_windows_def)
  have "ww_query sample_windows (2 ^ 1 * 16) \<noteq> MoreData" by (simp add: sample_windows_def)
  from closed_job_waits [of ?j, OF _ this, of 7] c show ?thesis by simp
qed

end
