(* ===== verification/Toolchain.thy ===== *)
theory Toolchain
  imports Paths "HOL-Library.Multiset"
begin

text \<open>
  The tool of \<^verbatim>\<open>src/golang_patch/main.go\<close>, which patches the Go distribution ooth is built with: every
  patch replaces a text that must occur exactly once, or finds its replacement already there.  The
  file system is a map from paths to contents.
\<close>

subsection \<open>Replacing a text\<close>

abbreviation (input) carriage_return :: char where "carriage_return \<equiv> CHR 0x0D"
abbreviation (input) line_feed :: char where "line_feed \<equiv> CHR 0x0A"

text \<open>\<^verbatim>\<open>strings.ReplaceAll\<close> of the line ends of Windows.\<close>

fun unix_lines :: "go_string \<Rightarrow> go_string" where
  "unix_lines [] = []"
| "unix_lines (c # cs) =
     (if c = carriage_return \<and> take 1 cs = [line_feed] then unix_lines cs else c # unix_lines cs)"

text \<open>\<^verbatim>\<open>strings.Count\<close> for a text that is not empty, of occurrences that do not overlap.\<close>

function count_of :: "go_string \<Rightarrow> go_string \<Rightarrow> nat" where
  "count_of s sub =
     (if sub = [] then Suc (length s)
      else case index_of sub s of None \<Rightarrow> 0 | Some i \<Rightarrow> Suc (count_of (drop (i + length sub) s) sub))"
  by pat_completeness auto

lemma index_of_Some: "index_of sub s = Some i \<Longrightarrow> s = take i s @ sub @ drop (i + length sub) s"
proof (induction s arbitrary: i)
  case (Cons c s)
  show ?case
  proof (cases "prefix sub (c # s)")
    case True
    then show ?thesis using Cons.prems by (auto simp: prefix_def)
  next
    case False
    then obtain k where "index_of sub s = Some k" "i = Suc k" using Cons.prems by auto
    then show ?thesis using Cons.IH by simp
  qed
qed (auto split: if_splits)

termination count_of
proof (relation "measure (\<lambda>(s, sub). length s)")
  fix s sub :: go_string and i assume "sub \<noteq> []" and "index_of sub s = Some i"
  then show "((drop (i + length sub) s, sub), (s, sub)) \<in> measure (\<lambda>(s, sub). length s)"
    by (cases s) auto
qed simp

declare count_of.simps [simp del]

text \<open>\<^verbatim>\<open>strings.Replace\<close> of the first occurrence.\<close>

definition replace_first :: "go_string \<Rightarrow> go_string \<Rightarrow> go_string \<Rightarrow> go_string" where
  "replace_first s before after =
     (case index_of before s of
        None \<Rightarrow> s
      | Some i \<Rightarrow> take i s @ after @ drop (i + length before) s)"

record patch =
  pt_path :: go_string
  pt_before :: go_string
  pt_after :: go_string

record patch_world =
  pw_writable :: "go_string \<Rightarrow> bool"
  pw_embedded :: "go_string \<Rightarrow> go_string option"
  pw_templates :: "(go_string \<times> go_string) list \<Rightarrow> (go_string \<times> go_string) list"

type_synonym files = "go_string \<Rightarrow> go_string option"

datatype patch_error = RootRequired | NoVersion | WrongVersion | NotRead go_string | NotOnce go_string | NotWritten go_string | NoTemplate go_string

text \<open>\<^verbatim>\<open>replace\<close>; it ends the program where this gives an error.\<close>

definition replace_in :: "patch_world \<Rightarrow> go_string \<Rightarrow> patch \<Rightarrow> files \<Rightarrow> patch_error option \<times> files" where
  "replace_in w folder p fs =
     (let path = join_path folder (pt_path p)
      in case fs path of
           None \<Rightarrow> (Some (NotRead path), fs)
         | Some data \<Rightarrow>
             (let source = unix_lines data
              in if contains source (pt_after p) then (None, fs)
                 else if count_of source (pt_before p) \<noteq> 1 then (Some (NotOnce path), fs)
                 else if \<not> pw_writable w path then (Some (NotWritten path), fs)
                 else (None, fs(path \<mapsto> replace_first source (pt_before p) (pt_after p)))))"

fun replace_all :: "patch_world \<Rightarrow> go_string \<Rightarrow> patch list \<Rightarrow> files \<Rightarrow> patch_error option \<times> files" where
  "replace_all w folder [] fs = (None, fs)"
| "replace_all w folder (p # ps) fs =
     (case replace_in w folder p fs of
        (Some e, fs) \<Rightarrow> (Some e, fs)
      | (None, fs) \<Rightarrow> replace_all w folder ps fs)"

fun write_templates :: "patch_world \<Rightarrow> go_string \<Rightarrow> (go_string \<times> go_string) list \<Rightarrow> files \<Rightarrow> patch_error option \<times> files" where
  "write_templates w folder [] fs = (None, fs)"
| "write_templates w folder ((template, target) # ts) fs =
     (case pw_embedded w (''patches/'' @ template) of
        None \<Rightarrow> (Some (NoTemplate template), fs)
      | Some data \<Rightarrow>
          if \<not> pw_writable w (join_path folder target) then (Some (NotWritten (join_path folder target)), fs)
          else write_templates w folder ts (fs(join_path folder target \<mapsto> data)))"

subsection \<open>The patches\<close>

definition indent :: "nat \<Rightarrow> go_string \<Rightarrow> go_string" where
  "indent n s = replicate n (CHR 0x09) @ s"

definition line :: "nat \<Rightarrow> go_string \<Rightarrow> go_string" where
  "line n s = indent n s @ [line_feed]"

definition patches :: "patch list" where
  "patches = [
   \<lparr>pt_path = ''src/internal/poll/fd_windows.go'',
     pt_before = line 1 ''err := fd.pd.init(fd)'' @ line 1 ''if err != nil {'' @ line 2 ''return err'' @
       line 1 ''}'',
     pt_after = line 1 ''err := fd.pd.init(fd)'' @ line 1 ''if err != nil {'' @
       line 2 (''// ooth: like libuv'' @ [CHR 0x27] @ ''s imported-socket fallback, retain normal IOCP'') @
       line 2 (''// unless a shared listener cannot join this process'' @ [CHR 0x27] @ ''s completion port.'') @
       line 2 ''if err != windows.ERROR_INVALID_PARAMETER || fd.kind != kindNet {'' @
       line 3 ''return err'' @ line 2 ''}'' @
       line 2 ''listening, socketErr := syscall.GetsockoptInt(fd.Sysfd, syscall.SOL_SOCKET, 2)'' @
       line 2 ''if socketErr != nil || listening == 0 {'' @ line 3 ''return err'' @ line 2 ''}'' @
       line 2 ''ctx, errno := runtime_pollOpen(uintptr(syscall.InvalidHandle))'' @
       line 2 ''if errno != 0 {'' @ line 3 ''return syscall.Errno(errno)'' @ line 2 ''}'' @
       line 2 ''fd.pd.runtimeCtx = ctx'' @ line 2 ''return nil'' @ line 1 ''}''\<rparr>,
   \<lparr>pt_path = ''src/runtime/netpoll_windows.go'',
     pt_before = line 0 ''func netpollopen(fd uintptr, pd *pollDesc) int32 {'',
     pt_after = line 0 ''func netpollopen(fd uintptr, pd *pollDesc) int32 {'' @
       line 1 ''// ooth: deadline/close tracking for a listener shared between processes.'' @
       line 1 ''if fd == ^uintptr(0) { return 0 }''\<rparr>,
   \<lparr>pt_path = ''src/internal/poll/fd_windows.go'',
     pt_before = line 2 ''_, err := syscall.WaitForSingleObject(o.o.HEvent, syscall.INFINITE)'' @
       indent 2 ''return err'',
     pt_after = indent 2 ''return fd.waitSharedIO(o)''\<rparr>,
   \<lparr>pt_path = ''src/os/exec/exec.go'',
     pt_before = line 1 ''SysProcAttr *syscall.SysProcAttr'',
     pt_after = line 1 ''SysProcAttr *syscall.SysProcAttr'' @ line 0 '''' @
       line 1 ''// NewProcessGroup creates a separately signalable console group on Windows.'' @
       line 1 ''// It has no effect on other platforms. Added by the ooth toolchain patch.'' @
       line 1 ''NewProcessGroup bool''\<rparr>,
   \<lparr>pt_path = ''src/os/exec/exec.go'',
     pt_before = indent 1 ''c.Process, err = os.StartProcess(lp, c.argv(), &os.ProcAttr{'',
     pt_after = line 1 ''if err := c.prepareProcessGroup(); err != nil {'' @ line 2 ''return err'' @
       line 1 ''}'' @ indent 1 ''c.Process, err = os.StartProcess(lp, c.argv(), &os.ProcAttr{''\<rparr>,
   \<lparr>pt_path = ''src/os/exec_windows.go'',
     pt_before = indent 1 ''if sig == Kill {'',
     pt_after = line 1 ''// ooth: CTRL_BREAK supports graceful shutdown of a console process group.'' @
       line 1 ''if sig == Interrupt {'' @ line 2 ''return signalConsoleGroup(p.Pid)'' @
       line 1 ''}'' @ indent 1 ''if sig == Kill {''\<rparr>,
   \<lparr>pt_path = ''src/syscall/exec_windows.go'',
     pt_before = line 0 ''type SysProcAttr struct {'',
     pt_after = line 0 ''type SysProcAttr struct {'' @
       line 1 ''// JobObjects assigns the child to these jobs during creation, before it runs.'' @
       line 1 ''// Requires Windows 10 / Server 2016. Added by the ooth toolchain patch.'' @
       line 1 ''JobObjects []Handle''\<rparr>,
   \<lparr>pt_path = ''src/syscall/exec_windows.go'',
     pt_before = indent 0 ''procAttrList, err := newProcThreadAttributeList(2)'',
     pt_after = indent 0 ''procAttrList, err := newProcThreadAttributeList(3)''\<rparr>,
   \<lparr>pt_path = ''src/syscall/exec_windows.go'',
     pt_before = line 1 ''si.StdInput = fd[0]'',
     pt_after = line 1 ''if len(sys.JobObjects) > 0 {'' @
       line 2 ''const procThreadAttributeJobList = 0x0002000D'' @
       line 2 ''err = procAttrList.update(procThreadAttributeJobList, unsafe.Pointer(&sys.JobObjects[0]), uintptr(len(sys.JobObjects))*unsafe.Sizeof(sys.JobObjects[0]))'' @
       line 2 ''if err != nil {'' @ line 3 ''return 0, 0, err'' @ line 2 ''}'' @ line 1 ''}'' @
       line 1 ''si.StdInput = fd[0]''\<rparr>]"

definition templates :: "(go_string \<times> go_string) list" where
  "templates = [
   (''epoll_linux.txt'', ''src/syscall/ooth_epoll_linux.go''),
   (''epoll_windows.txt'', ''src/syscall/ooth_epoll_windows.go''),
   (''poll_windows.txt'', ''src/internal/poll/ooth_windows.go''),
   (''exec_windows.txt'', ''src/os/exec/ooth_windows.go''),
   (''exec_other.txt'', ''src/os/exec/ooth_other.go''),
   (''os_windows.txt'', ''src/os/ooth_windows.go'')]"

text \<open>\<^verbatim>\<open>main\<close>, given the flag.\<close>

definition patch_toolchain :: "patch_world \<Rightarrow> go_string \<Rightarrow> files \<Rightarrow> patch_error option \<times> files" where
  "patch_toolchain w folder fs =
     (if folder = [] then (Some RootRequired, fs)
      else case fs (join_path folder ''VERSION'') of
        None \<Rightarrow> (Some NoVersion, fs)
      | Some version \<Rightarrow>
          if hd (split_on line_feed version) \<noteq> ''go1.27.1'' then (Some WrongVersion, fs)
          else case replace_all w folder patches fs of
            (Some e, fs) \<Rightarrow> (Some e, fs)
          | (None, fs) \<Rightarrow> write_templates w folder (pw_templates w templates) fs)"

subsection \<open>Patching again changes nothing\<close>

lemma index_of_prefix: "prefix sub s \<Longrightarrow> index_of sub s = Some 0"
  by (cases s) auto

lemma contains_iff: "contains s sub \<longleftrightarrow> (\<exists>u v. s = u @ sub @ v)"
proof
  assume "contains s sub"
  then obtain i where "index_of sub s = Some i" by (auto simp: contains_def)
  from index_of_Some [OF this] show "\<exists>u v. s = u @ sub @ v" by blast
next
  have "contains (u @ sub @ v) sub" for u v
  proof (induction u)
    case Nil
    have "prefix sub (sub @ v)" by simp
    then show ?case using index_of_prefix [of sub "sub @ v"] by (simp add: contains_def)
  next
    case (Cons c u)
    then show ?case by (auto simp: contains_def)
  qed
  then show "\<exists>u v. s = u @ sub @ v \<Longrightarrow> contains s sub" by blast
qed

lemma unix_lines_front: "carriage_return \<notin> set x \<Longrightarrow> unix_lines (x @ v) = x @ unix_lines v"
  by (induction x) auto

lemma unix_lines_back: "\<exists>u'. unix_lines (u @ y) = u' @ unix_lines y"
proof (induction u)
  case (Cons c u)
  then obtain u' where "unix_lines (u @ y) = u' @ unix_lines y" by blast
  then show ?case by (auto intro: exI [of _ "c # u'"])
qed simp

lemma unix_lines_contains:
  assumes "carriage_return \<notin> set x" shows "contains (unix_lines (u @ x @ v)) x"
  using unix_lines_back [of u "x @ v"] unix_lines_front [OF assms, of v] by (fastforce simp: contains_iff)

lemma replace_first_once:
  assumes "count_of s before = 1" and "before \<noteq> []"
  shows "\<exists>u v. s = u @ before @ v \<and> replace_first s before after = u @ after @ v"
proof -
  obtain i where "index_of before s = Some i"
    using assms by (auto simp: count_of.simps [of s] split: option.splits)
  then show ?thesis using index_of_Some by (fastforce simp: replace_first_def)
qed

text \<open>A rest of the first text is how the second one starts.\<close>

fun runs_into :: "go_string \<Rightarrow> go_string \<Rightarrow> bool" where
  "runs_into [] b = False"
| "runs_into (c # cs) b \<longleftrightarrow> prefix (c # cs) b \<or> runs_into cs b"

lemma runs_into_iff: "runs_into x b \<longleftrightarrow> (\<exists>u y. x = u @ y \<and> y \<noteq> [] \<and> prefix y b)"
proof (induction x)
  case (Cons c cs)
  show ?case
  proof
    assume "runs_into (c # cs) b"
    then show "\<exists>u y. c # cs = u @ y \<and> y \<noteq> [] \<and> prefix y b"
      using Cons.IH by (metis append_Cons append_Nil list.distinct(1) runs_into.simps(2))
  next
    assume "\<exists>u y. c # cs = u @ y \<and> y \<noteq> [] \<and> prefix y b"
    then obtain u y where "c # cs = u @ y" "y \<noteq> []" "prefix y b" by blast
    then show "runs_into (c # cs) b" using Cons.IH by (cases u) auto
  qed
qed simp

text \<open>Two texts that cannot share a character of a third.\<close>

definition apart :: "go_string \<Rightarrow> go_string \<Rightarrow> bool" where
  "apart b x \<longleftrightarrow> \<not> runs_into x b \<and> \<not> runs_into b x \<and> \<not> contains x b \<and> \<not> contains b x"

lemma append_cases:
  assumes "xs @ ys = zs @ ts"
  obtains (left) us where "xs = zs @ us" "us @ ys = ts" | (right) us where "xs @ us = zs" "ys = us @ ts"
  using assms unfolding append_eq_append_conv2 by blast

lemma apart_rest:
  assumes "b @ v = ts @ z" and "x = us @ ts" and "apart b x"
  shows "ts = []"
proof (rule ccontr)
  assume ne: "ts \<noteq> []"
  from assms(1) show False
  proof (cases rule: append_cases)
    case (left rs)
    then have "prefix ts b" by simp
    then show False using ne assms(2,3) by (auto simp: apart_def runs_into_iff)
  next
    case (right rs)
    then show False using assms(2,3) by (auto simp: apart_def contains_iff)
  qed
qed

lemma apart_commute: "apart b x = apart x b"
  by (auto simp: apart_def)

lemma apart_occurrences:
  assumes "u @ b @ v = y @ x @ z" and "apart b x"
  shows "(\<exists>w. u = y @ x @ w) \<or> (\<exists>w. v = w @ x @ z)"
  using assms(1)
proof (cases rule: append_cases)
  case (left us)
  from left(2) show ?thesis
  proof (cases rule: append_cases)
    case (left ts)
    then show ?thesis using \<open>u = y @ us\<close> by auto
  next
    case (right ts)
    then have "ts = []" using apart_rest [of b v ts z x us] assms(2) by simp
    then show ?thesis using right \<open>u = y @ us\<close> by auto
  qed
next
  case (right us)
  from right(2) show ?thesis
  proof (cases rule: append_cases)
    case (left ts)
    then have "ts = []" using apart_rest [of x z ts v b us] assms(2) apart_commute by simp
    then show ?thesis using left by auto
  next
    case (right ts)
    then show ?thesis by auto
  qed
qed

text \<open>A text that is there, also after the line ends have been converted, stays there.\<close>

lemma replace_keeps:
  assumes "count_of s before = 1" and "before \<noteq> []" and "contains s x" and "apart before x" and "carriage_return \<notin> set x"
  shows "contains (unix_lines (replace_first s before after)) x"
proof -
  obtain u v where s: "s = u @ before @ v" "replace_first s before after = u @ after @ v"
    using replace_first_once [OF assms(1,2)] by blast
  obtain y z where "s = y @ x @ z" using assms(3) contains_iff by blast
  then consider w where "u = y @ x @ w" | w where "v = w @ x @ z"
    using apart_occurrences [of u before v y x z] s(1) assms(4) by auto
  then show ?thesis
  proof cases
    case 1
    then show ?thesis using unix_lines_contains [OF assms(5), of y "w @ after @ v"] s(2) by simp
  next
    case 2
    then show ?thesis using unix_lines_contains [OF assms(5), of "u @ after @ w" z] s(2) by simp
  qed
qed

definition patched :: "go_string \<Rightarrow> files \<Rightarrow> patch \<Rightarrow> bool" where
  "patched folder fs p \<longleftrightarrow> (\<exists>data. fs (join_path folder (pt_path p)) = Some data \<and> contains (unix_lines data) (pt_after p))"

text \<open>What every patch and every two of them must satisfy.\<close>

definition patch_ok :: "patch \<Rightarrow> bool" where
  "patch_ok p \<longleftrightarrow> pt_before p \<noteq> [] \<and> carriage_return \<notin> set (pt_after p)"

definition compatible :: "go_string \<Rightarrow> patch \<Rightarrow> patch \<Rightarrow> bool" where
  "compatible folder p q \<longleftrightarrow> join_path folder (pt_path p) \<noteq> join_path folder (pt_path q) \<or> apart (pt_before p) (pt_after q)"

lemma replace_in_patched:
  assumes "replace_in w folder p fs = (None, fs')" and "patch_ok p"
  shows "patched folder fs' p"
proof -
  obtain data where d: "fs (join_path folder (pt_path p)) = Some data"
    using assms(1) by (auto simp: replace_in_def Let_def split: option.splits)
  show ?thesis
  proof (cases "contains (unix_lines data) (pt_after p)")
    case True
    then show ?thesis using assms(1) d by (auto simp: replace_in_def Let_def patched_def)
  next
    case False
    then have c: "count_of (unix_lines data) (pt_before p) = 1"
      and fs': "fs' = fs(join_path folder (pt_path p) \<mapsto> replace_first (unix_lines data) (pt_before p) (pt_after p))"
      using assms(1) d by (auto simp: replace_in_def Let_def split: if_splits)
    obtain u v where "replace_first (unix_lines data) (pt_before p) (pt_after p) = u @ pt_after p @ v"
      using replace_first_once [OF c] assms(2) unfolding patch_ok_def by blast
    then show ?thesis using unix_lines_contains assms(2) by (simp add: fs' patched_def patch_ok_def)
  qed
qed

lemma replace_in_keeps:
  assumes "replace_in w folder p fs = (None, fs')" and "patch_ok p" and "patch_ok q" and "compatible folder p q"
    and "patched folder fs q"
  shows "patched folder fs' q"
proof (cases "fs' = fs")
  case False
  then obtain data where d: "fs (join_path folder (pt_path p)) = Some data"
    and c: "count_of (unix_lines data) (pt_before p) = 1"
    and fs': "fs' = fs(join_path folder (pt_path p) \<mapsto> replace_first (unix_lines data) (pt_before p) (pt_after p))"
    using assms(1) by (auto simp: replace_in_def Let_def split: option.splits if_splits)
  show ?thesis
  proof (cases "join_path folder (pt_path p) = join_path folder (pt_path q)")
    case True
    then have "contains (unix_lines (replace_first (unix_lines data) (pt_before p) (pt_after p))) (pt_after q)"
      using assms(2-5) d by (intro replace_keeps c) (auto simp: patch_ok_def compatible_def patched_def)
    then show ?thesis using True by (simp add: fs' patched_def)
  next
    case False
    then show ?thesis using assms(5) by (simp add: fs' patched_def)
  qed
qed (use assms in simp)

lemma replace_all_patched:
  assumes "replace_all w folder ps fs = (None, fs')" and "\<forall>p \<in> set ps. patch_ok p"
    and "\<forall>q \<in> Q. patch_ok q \<and> patched folder fs q" and "\<forall>p \<in> set ps. \<forall>q \<in> Q. compatible folder p q"
    and "sorted_wrt (\<lambda>q p. compatible folder p q) ps"
  shows "\<forall>p \<in> Q \<union> set ps. patched folder fs' p"
  using assms
proof (induction ps arbitrary: fs Q)
  case (Cons p ps)
  obtain fs1 where one: "replace_in w folder p fs = (None, fs1)" and rest: "replace_all w folder ps fs1 = (None, fs')"
    using Cons.prems(1) by (auto split: prod.splits option.splits)
  have "\<forall>q \<in> insert p Q. patch_ok q \<and> patched folder fs1 q"
    using replace_in_patched [OF one] replace_in_keeps [OF one] Cons.prems(2-4) by simp
  from Cons.IH [OF rest _ this] Cons.prems(2,4,5) show ?case by auto
qed auto

lemma replace_all_again: "\<forall>p \<in> set ps. patched folder fs p \<Longrightarrow> replace_all w folder ps fs = (None, fs)"
  by (induction ps) (auto simp: replace_in_def patched_def)

lemma replace_all_append:
  "replace_all w folder ps fs = (None, fs') \<Longrightarrow> replace_all w folder (ps @ qs) fs = replace_all w folder qs fs'"
  by (induction ps arbitrary: fs) (auto split: prod.splits option.splits)

lemma write_templates_files:
  assumes "write_templates w folder ts fs = (None, fs')" and "distinct (map (\<lambda>t. join_path folder (snd t)) ts)"
  shows "(\<forall>(template, target) \<in> set ts. pw_writable w (join_path folder target)
      \<and> (\<exists>data. pw_embedded w (''patches/'' @ template) = Some data \<and> fs' (join_path folder target) = Some data))
    \<and> (\<forall>path. path \<notin> (\<lambda>t. join_path folder (snd t)) ` set ts \<longrightarrow> fs' path = fs path)"
  using assms
proof (induction ts arbitrary: fs)
  case (Cons t ts)
  obtain template target where t: "t = (template, target)" by (cases t)
  obtain data where d: "pw_embedded w (''patches/'' @ template) = Some data" "pw_writable w (join_path folder target)"
    "write_templates w folder ts (fs(join_path folder target \<mapsto> data)) = (None, fs')"
    using Cons.prems(1) by (auto simp: t split: option.splits if_splits)
  from Cons.IH [OF d(3)] Cons.prems(2) d(1,2) show ?case by (force simp: t)
qed simp

lemma write_templates_again:
  assumes "\<forall>(template, target) \<in> set ts. pw_writable w (join_path folder target)
      \<and> (\<exists>data. pw_embedded w (''patches/'' @ template) = Some data \<and> fs (join_path folder target) = Some data)"
  shows "write_templates w folder ts fs = (None, fs)"
  using assms
proof (induction ts)
  case (Cons t ts)
  then show ?case by (cases t) (auto simp: fun_upd_idem)
qed simp

subsection \<open>The whole tool\<close>

text \<open>Names below the distribution that stay what they are when joined with its directory.\<close>

definition plain_name :: "go_string \<Rightarrow> bool" where
  "plain_name name \<longleftrightarrow> name \<noteq> [] \<and> list_all plain (split_on slash name)"

lemma join_plain_name:
  assumes "is_abs folder" and "plain_name name"
  shows "join_path folder name = abs_path (clean_parts folder @ split_on slash name)"
proof -
  have "split_on slash name \<noteq> []" by (cases name) (auto split: list.splits)
  then show ?thesis
    using join_down [OF assms(1), of "split_on slash name"] assms(2) joined_split [of name]
    by (simp add: plain_name_def list_all_iff)
qed

lemma join_plain_name_inject:
  assumes "is_abs folder" and "plain_name m" and "plain_name n" and "join_path folder m = join_path folder n"
  shows "m = n"
proof -
  have "clean_parts (join_path folder k) = clean_parts folder @ split_on slash k" if "plain_name k" for k
  proof -
    have "\<forall>w \<in> set (clean_parts folder @ split_on slash k). plain w"
      using that clean_parts_plain [OF assms(1)] by (auto simp: plain_name_def list_all_iff)
    then show ?thesis unfolding join_plain_name [OF assms(1) that] by (rule clean_parts_abs_path)
  qed
  then have "split_on slash m = split_on slash n" using assms(2-4) by (metis append_same_eq same_append_eq)
  then show ?thesis using joined_split by metis
qed

definition names :: "go_string list" where
  "names = map pt_path patches @ map snd templates"

text \<open>What is checked of the patches and templates themselves.\<close>

lemma patches_fit:
  "list_all patch_ok patches" "list_all plain_name (''VERSION'' # names)"
  "sorted_wrt (\<lambda>q p. pt_path p \<noteq> pt_path q \<or> apart (pt_before p) (pt_after q)) patches"
  by code_simp+

lemma names_fit:
  "distinct (map snd templates)" "list_all (\<lambda>name. name \<notin> set (map snd templates)) (''VERSION'' # map pt_path patches)"
  "''VERSION'' \<notin> set names"
  by code_simp+

lemma replace_in_frame:
  "replace_in w folder p fs = (e, fs') \<Longrightarrow> path \<noteq> join_path folder (pt_path p) \<Longrightarrow> fs' path = fs path"
  by (auto simp: replace_in_def Let_def split: option.splits if_splits)

lemma replace_all_frame:
  "replace_all w folder ps fs = (e, fs') \<Longrightarrow> path \<notin> (\<lambda>p. join_path folder (pt_path p)) ` set ps \<Longrightarrow> fs' path = fs path"
proof (induction ps arbitrary: fs)
  case (Cons p ps)
  obtain e1 fs1 where one: "replace_in w folder p fs = (e1, fs1)" by fastforce
  then have "fs1 path = fs path" using replace_in_frame Cons.prems(2) by simp
  then show ?case using Cons one by (cases e1) auto
qed simp

text \<open>
  C37: When the tool has patched a distribution, running it again changes nothing, in whatever order the
  templates are written; every patch is in place, and no other file has been touched.
\<close>

theorem patch_twice:
  assumes "patch_toolchain w folder fs = (None, fs')" and "is_abs folder" and "\<And>ts. mset (pw_templates w ts) = mset ts"
  shows "patch_toolchain w folder fs' = (None, fs') \<and> (\<forall>p \<in> set patches. patched folder fs' p)
    \<and> (\<forall>path. path \<notin> join_path folder ` set names \<longrightarrow> fs' path = fs path)"
proof -
  let ?ts = "pw_templates w templates"
  have ts: "set ?ts = set templates" using assms(3) mset_eq_setD by blast
  have plain: "plain_name n" if "n = ''VERSION'' \<or> n \<in> set names" for n
    using patches_fit(2) that by (auto simp: list_all_iff)
  note differ = join_plain_name_inject [OF assms(2) plain plain]
  obtain version where v: "fs (join_path folder ''VERSION'') = Some version" "hd (split_on line_feed version) = ''go1.27.1''"
    using assms(1) by (auto simp: patch_toolchain_def split: option.splits if_splits)
  obtain fs1 where all: "replace_all w folder patches fs = (None, fs1)"
    and written: "write_templates w folder ?ts fs1 = (None, fs')"
    using assms(1) v by (auto simp: patch_toolchain_def split: if_splits prod.splits option.splits)
  have "sorted_wrt (\<lambda>q p. compatible folder p q) patches"
  proof (rule sorted_wrt_mono_rel [OF _ patches_fit(3)])
    fix q p assume "p \<in> set patches" "q \<in> set patches" and "pt_path p \<noteq> pt_path q \<or> apart (pt_before p) (pt_after q)"
    moreover from this have "pt_path p \<in> set names" "pt_path q \<in> set names"
      unfolding names_def set_append set_map by blast+
    ultimately show "compatible folder p q" using differ unfolding compatible_def by blast
  qed
  then have patched1: "\<forall>p \<in> set patches. patched folder fs1 p"
    using replace_all_patched [OF all, of "{}"] patches_fit(1) by (simp add: list_all_iff)
  have "distinct (map (\<lambda>t. join_path folder (snd t)) ?ts)"
  proof -
    have "mset (map (\<lambda>t. join_path folder (snd t)) ?ts) = mset (map (join_path folder) (map snd templates))"
      by (simp add: assms(3) multiset.map_comp comp_def)
    moreover have "distinct (map (join_path folder) (map snd templates))"
    proof -
      have "inj_on (join_path folder) (set (map snd templates))"
      proof (rule inj_onI)
        fix m n assume "m \<in> set (map snd templates)" "n \<in> set (map snd templates)" and eq: "join_path folder m = join_path folder n"
        then have "m \<in> set names" "n \<in> set names" unfolding names_def set_append by blast+
        then show "m = n" using differ eq by blast
      qed
      then show ?thesis unfolding distinct_map [of "join_path folder"] using names_fit(1) by blast
    qed
    ultimately show ?thesis using mset_eq_imp_distinct_iff by blast
  qed
  note files = write_templates_files [OF written this]
  have kept: "fs' (join_path folder n) = fs1 (join_path folder n)" if "n = ''VERSION'' \<or> n \<in> set (map pt_path patches)" for n
  proof -
    have "n \<notin> set (map snd templates)" using names_fit(2) that unfolding list_all_iff list.set(2) by blast
    then have "join_path folder n \<notin> (\<lambda>t. join_path folder (snd t)) ` set ?ts"
    proof -
      have "join_path folder n \<noteq> join_path folder m" if m: "m \<in> set (map snd templates)" for m
      proof
        assume eq: "join_path folder n = join_path folder m"
        have "m \<in> set names" "n = ''VERSION'' \<or> n \<in> set names"
          using m \<open>n = ''VERSION'' \<or> n \<in> set (map pt_path patches)\<close> unfolding names_def set_append by blast+
        then have "n = m" using differ eq by blast
        then show False using m \<open>n \<notin> set (map snd templates)\<close> by blast
      qed
      then show ?thesis unfolding ts by fastforce
    qed
    then show ?thesis using files by blast
  qed
  have patched': "\<forall>p \<in> set patches. patched folder fs' p" using patched1 kept by (auto simp: patched_def)
  have "fs' (join_path folder ''VERSION'') = Some version"
  proof -
    have "join_path folder ''VERSION'' \<notin> (\<lambda>p. join_path folder (pt_path p)) ` set patches"
    proof
      assume "join_path folder ''VERSION'' \<in> (\<lambda>p. join_path folder (pt_path p)) ` set patches"
      then obtain p where "p \<in> set patches" and eq: "join_path folder ''VERSION'' = join_path folder (pt_path p)" by blast
      then have "pt_path p \<in> set names" unfolding names_def set_append set_map by blast
      moreover from this have "''VERSION'' = pt_path p" using differ eq by blast
      ultimately show False using names_fit(3) by simp
    qed
    then show ?thesis using replace_all_frame [OF all] kept [of "''VERSION''"] v(1) by simp
  qed
  moreover have "write_templates w folder ?ts fs' = (None, fs')" using files by (intro write_templates_again) auto
  moreover have "folder \<noteq> []" using assms(2) by (auto simp: is_abs_def)
  ultimately have "patch_toolchain w folder fs' = (None, fs')"
    using v(2) replace_all_again [OF patched'] by (simp add: patch_toolchain_def)
  moreover have "fs' path = fs path" if "path \<notin> join_path folder ` set names" for path
  proof -
    have "path \<notin> (\<lambda>t. join_path folder (snd t)) ` set ?ts" "path \<notin> (\<lambda>p. join_path folder (pt_path p)) ` set patches"
      using that unfolding ts names_def set_append set_map by blast+
    then show ?thesis using files replace_all_frame [OF all] by simp
  qed
  ultimately show ?thesis using patched' by blast
qed

text \<open>A distribution, with the line ends of Windows, that has all the patches but one.\<close>

definition missing :: "patch \<Rightarrow> bool" where
  "missing p \<longleftrightarrow> pt_path p = ''src/runtime/netpoll_windows.go''"

definition sample_distribution :: files where
  "sample_distribution path =
     (if path = ''/go/VERSION'' then Some (line 0 ''go1.27.1'')
      else case filter (\<lambda>p. ''/go/'' @ pt_path p = path) patches of
        [] \<Rightarrow> None
      | ps \<Rightarrow> Some (concat (map (\<lambda>p.
          (if missing p then pt_before p else pt_after p) @ [carriage_return, line_feed]) ps)))"

definition sample_patch_world :: patch_world where
  "sample_patch_world = \<lparr>pw_writable = (\<lambda>path. True), pw_embedded = (\<lambda>name. Some name), pw_templates = rev\<rparr>"

definition in_place :: "files \<Rightarrow> patch \<Rightarrow> bool" where
  "in_place fs p = (case fs (join_path ''/go'' (pt_path p)) of None \<Rightarrow> False | Some data \<Rightarrow> contains (unix_lines data) (pt_after p))"

lemma patched_in_place: "patched ''/go'' fs p \<longleftrightarrow> in_place fs p"
  by (auto simp: patched_def in_place_def split: option.splits)

lemma sample_paths:
  "list_all (\<lambda>p. join_path ''/go'' (pt_path p) = ''/go/'' @ pt_path p \<and> ''/go/'' @ pt_path p \<noteq> ''/go/VERSION'') patches"
  "list_all (\<lambda>p. \<not> missing p) (take 1 patches)" "list_all (\<lambda>p. \<not> missing p) (drop 2 patches)"
  by code_simp+

lemma sample_in_place:
  assumes "p \<in> set patches" and "\<not> missing p"
  shows "patched ''/go'' sample_distribution p"
proof -
  let ?text = "\<lambda>p. (if missing p then pt_before p else pt_after p) @ [carriage_return, line_feed]"
  have path: "join_path ''/go'' (pt_path p) = ''/go/'' @ pt_path p" "''/go/'' @ pt_path p \<noteq> ''/go/VERSION''"
    using sample_paths(1) assms(1) by (simp_all add: list_all_iff)
  define ps where "ps = filter (\<lambda>q. ''/go/'' @ pt_path q = ''/go/'' @ pt_path p) patches"
  have "p \<in> set ps" using assms(1) by (simp add: ps_def)
  then obtain ys zs where "ps = ys @ p # zs" by (meson split_list)
  then have "concat (map ?text ps) = concat (map ?text ys) @ pt_after p @ ([carriage_return, line_feed] @ concat (map ?text zs))"
    using assms(2) by simp
  moreover have "sample_distribution (join_path ''/go'' (pt_path p)) = Some (concat (map ?text ps))"
    using path(2) \<open>p \<in> set ps\<close> unfolding path(1) sample_distribution_def ps_def [symmetric]
    by (cases ps) (auto simp only: if_False list.case list.set empty_iff)
  moreover have "carriage_return \<notin> set (pt_after p)"
    using patches_fit(1) assms(1) by (simp add: list_all_iff patch_ok_def)
  ultimately show ?thesis using unix_lines_contains by (simp only: patched_def) blast
qed

lemma sample_missing: "fst (replace_in sample_patch_world ''/go'' (patches ! 1) sample_distribution) = None
  \<and> \<not> in_place sample_distribution (patches ! 1)"
  by code_simp

lemma sample_unaffected: "list_all (\<lambda>p. compatible ''/go'' (patches ! 1) p) (take 1 patches @ drop 2 patches)"
  by code_simp

lemma patches_split: "patches = take 1 patches @ patches ! 1 # drop 2 patches"
proof -
  have "1 < length patches" by (simp add: patches_def)
  then show ?thesis using id_take_nth_drop [of 1 patches] by (simp add: numeral_2_eq_2)
qed

lemma sample_templates: "fst (write_templates sample_patch_world ''/go'' (rev templates) fs) = None"
proof -
  have "fst (write_templates sample_patch_world folder ts fs) = None" for folder ts
    by (induction ts arbitrary: fs) (auto simp: sample_patch_world_def)
  then show ?thesis .
qed

lemma patch_twice_witness:
  "\<not> patched ''/go'' sample_distribution (patches ! 1)
    \<and> (\<exists>fs'. patch_toolchain sample_patch_world ''/go'' sample_distribution = (None, fs')
     \<and> patch_toolchain sample_patch_world ''/go'' fs' = (None, fs') \<and> patched ''/go'' fs' (patches ! 1))"
proof -
  let ?w = sample_patch_world
  obtain fs1 where one: "replace_in ?w ''/go'' (patches ! 1) sample_distribution = (None, fs1)"
    using sample_missing by (metis prod.collapse)
  have before: "replace_all ?w ''/go'' (take 1 patches) sample_distribution = (None, sample_distribution)"
    using sample_in_place sample_paths(2) by (intro replace_all_again) (auto simp: list_all_iff dest: in_set_takeD)
  have "patched ''/go'' fs1 p" if that: "p \<in> set (drop 2 patches)" for p
  proof (rule replace_in_keeps [OF one])
    have "patches ! 1 \<in> set patches" by (rule nth_mem) (simp add: patches_def)
    moreover have "p \<in> set patches" using that by (rule in_set_dropD)
    ultimately show "patch_ok (patches ! 1)" "patch_ok p" using patches_fit(1) by (simp_all add: list_all_iff)
    show "compatible ''/go'' (patches ! 1) p" using sample_unaffected that by (simp add: list_all_iff)
    show "patched ''/go'' sample_distribution p" using sample_in_place [OF in_set_dropD [OF that]] sample_paths(3) that by (simp add: list_all_iff)
  qed
  then have "replace_all ?w ''/go'' (drop 2 patches) fs1 = (None, fs1)" by (intro replace_all_again) simp
  then have "replace_all ?w ''/go'' patches sample_distribution = (None, fs1)"
    using replace_all_append [OF before, of "patches ! 1 # drop 2 patches"] one patches_split by simp
  moreover obtain fs2 where "write_templates ?w ''/go'' (rev templates) fs1 = (None, fs2)"
    using sample_templates [of fs1] by (metis prod.collapse)
  moreover have "sample_distribution (join_path ''/go'' ''VERSION'') = Some (line 0 ''go1.27.1'')"
    "hd (split_on line_feed (line 0 ''go1.27.1'')) = ''go1.27.1''" by code_simp+
  ultimately have p: "patch_toolchain ?w ''/go'' sample_distribution = (None, fs2)"
    by (simp add: patch_toolchain_def sample_patch_world_def)
  have "is_abs ''/go''" "\<And>ts. mset (pw_templates ?w ts) = mset ts"
    by (simp_all add: is_abs_def sample_patch_world_def)
  from patch_twice [OF p this] have "patch_toolchain ?w ''/go'' fs2 = (None, fs2)" "\<forall>p \<in> set patches. patched ''/go'' fs2 p"
    by blast+
  moreover have "patches ! 1 \<in> set patches" by (rule nth_mem) (simp add: patches_def)
  ultimately show ?thesis using p sample_missing by (auto simp: patched_in_place)
qed

end
