(* ===== verification/Listening.thy ===== *)
theory Listening
  imports Reloading
begin

text \<open>
  The poller as the kernel keeps it: which listeners are registered, and which of them are armed.  The
  calls of \<^verbatim>\<open>EpollCtl\<close> the supervisor makes are among its effects; a listener is registered for one event
  (\<^verbatim>\<open>EPOLLONESHOT\<close>), so that an event that is received disarms it until \<^verbatim>\<open>tick\<close> arms it again.
\<close>

subsection \<open>The kernel's side\<close>

text \<open>Whether a listener is armed, for those that are registered.\<close>

type_synonym interest = "listener_id \<Rightarrow> bool option"

text \<open>
  The call behind an effect: \<^verbatim>\<open>EPOLL_CTL_ADD\<close> of a registered socket, \<^verbatim>\<open>EPOLL_CTL_MOD\<close> and
  \<^verbatim>\<open>EPOLL_CTL_DEL\<close> of one that is not registered are refused, which is \<open>None\<close>.
\<close>

fun epoll_ctl :: "effect \<Rightarrow> interest option \<Rightarrow> interest option" where
  "epoll_ctl e None = None"
| "epoll_ctl (OpenListener l sock) (Some k) = (if k l = None then Some (k(l \<mapsto> True)) else None)"
| "epoll_ctl (ArmListener l) (Some k) = (if k l \<noteq> None then Some (k(l \<mapsto> True)) else None)"
| "epoll_ctl (CloseListener l) (Some k) = (if k l \<noteq> None then Some (k(l := None)) else None)"
| "epoll_ctl e (Some k) = Some k"

text \<open>The calls made between two stores.\<close>

definition epoll_calls :: "store \<Rightarrow> store \<Rightarrow> interest option \<Rightarrow> interest option" where
  "epoll_calls st st' = fold epoll_ctl (drop (length (st_effects st)) (st_effects st'))"

text \<open>An event that \<^verbatim>\<open>EpollWait\<close> returns disarms its listener.\<close>

definition disarm :: "listener_id \<Rightarrow> interest \<Rightarrow> interest" where
  "disarm l k = (if k l = None then k else k(l \<mapsto> False))"

definition deliver :: "input \<Rightarrow> interest \<Rightarrow> interest" where
  "deliver input k = (case input of
     Received (PollEvents events) \<Rightarrow> fold (\<lambda>(l, bad). disarm l) events k
   | _ \<Rightarrow> k)"

subsection \<open>The supervisor and the kernel\<close>

text \<open>An iteration of the loop together with the calls it makes, and the event it receives.\<close>

inductive listen_step :: "supervisor \<times> interest option \<Rightarrow> supervisor \<times> interest option \<Rightarrow> bool" where
  Listen: "moment_ok before \<Longrightarrow> moment_ok after \<Longrightarrow>
    checked = check_fatal (fst before) (snd before) su \<Longrightarrow> admissible checked input \<Longrightarrow>
    iteration before after input su = Inr su' \<Longrightarrow>
    k1 = map_option (deliver input) (epoll_calls (su_store su) (su_store checked) k) \<Longrightarrow>
    k' = epoll_calls (su_store checked) (su_store su') k1 \<Longrightarrow>
    listen_step (su, k) (su', k')"

inductive listen_start :: "supervisor \<times> interest option \<Rightarrow> bool" where
  Begin: "world_ok w \<Longrightarrow> snapshot_ok sn \<Longrightarrow>
    apply_snapshot w sn (empty_store (sn_cgroup sn)) = (st, None) \<Longrightarrow>
    listen_start (initial st, fold epoll_ctl (st_effects st) (Some Map.empty))"

subsection \<open>What the operations leave alone\<close>

text \<open>Effects that are no calls of \<^verbatim>\<open>EpollCtl\<close>.\<close>

fun no_ctl :: "effect \<Rightarrow> bool" where
  "no_ctl (OpenListener l sock) = False"
| "no_ctl (ArmListener l) = False"
| "no_ctl (CloseListener l) = False"
| "no_ctl e = True"

lemma no_ctl_calls: "\<forall>e \<in> set es. no_ctl e \<Longrightarrow> fold epoll_ctl es k = k"
proof (induction es arbitrary: k)
  case (Cons e es)
  then have "epoll_ctl e k = k" by (cases k; cases e) simp_all
  then show ?case using Cons by simp
qed simp

definition unheard :: "store \<Rightarrow> store \<Rightarrow> bool" where
  "unheard st st' \<longleftrightarrow> st_lists st' = st_lists st \<and> st_listeners st' = st_listeners st
     \<and> st_next_listener st' = st_next_listener st \<and> st_services st' = st_services st
     \<and> (\<forall>s. s_listener (st_servs st' s) = s_listener (st_servs st s))
     \<and> (st_fatal st' = None \<longrightarrow> st_fatal st = None)
     \<and> (\<exists>es. st_effects st' = st_effects st @ es \<and> (\<forall>e \<in> set es. no_ctl e))"

lemma unheard_trans: "unheard st st1 \<Longrightarrow> unheard st1 st2 \<Longrightarrow> unheard st st2"
  unfolding unheard_def by (elim conjE exE) (auto simp: ball_Un)

interpretation unheard: tick_frame unheard
  by unfold_locales
    ((rule unheard_trans, assumption, assumption)
     | simp add: unheard_def start_run_def set_fatal_def alloc_run_def alloc_scope_def alloc_cycle_def alloc_proc_def)+

lemma unheard_effect: "no_ctl e \<Longrightarrow> unheard st (emit e st)"
  by (simp add: unheard_def)

lemma unheard_same: "unheard st (st\<lparr>st_limits := x\<rparr>)" "unheard st (st\<lparr>st_resources := y\<rparr>)"
  by (simp_all add: unheard_def)

subsection \<open>The invariant\<close>

text \<open>Every listener belongs to the service that has it, and the other way around.\<close>

definition assigned :: "store \<Rightarrow> bool" where
  "assigned st \<longleftrightarrow> distinct (map fst (st_listeners st))
     \<and> (\<forall>(l, s) \<in> set (st_listeners st). s \<in> snd ` set (st_services st) \<and> s_listener (st_servs st s) = Some l)
     \<and> (\<forall>(n, s) \<in> set (st_services st). \<forall>l. s_listener (st_servs st s) = Some l \<longrightarrow> (l, s) \<in> set (st_listeners st))"

text \<open>The registered listeners are those of the supervisor and those in \<open>opening\<close>; armed are those that
  \<^verbatim>\<open>tick\<close> need not arm again.\<close>

definition in_step :: "listener_id set \<Rightarrow> store \<Rightarrow> interest \<Rightarrow> bool" where
  "in_step opening st k \<longleftrightarrow> dom k = fst ` set (st_listeners st) \<union> opening
     \<and> opening \<inter> fst ` set (st_listeners st) = {} \<and> (\<forall>l \<in> dom k. l \<le> st_next_listener st)
     \<and> (st_fatal st = None \<longrightarrow> (\<forall>l \<in> dom k. k l = Some (l_rearm_at (st_lists st l) = 0)))"

text \<open>The same for what the calls since an earlier store have made of the kernel's table.\<close>

definition heard :: "store \<Rightarrow> interest option \<Rightarrow> listener_id set \<Rightarrow> store \<Rightarrow> bool" where
  "heard base k opening st \<longleftrightarrow> (\<exists>es k'. st_effects st = st_effects base @ es
     \<and> fold epoll_ctl es k = Some k' \<and> in_step opening st k')"

lemma heard_calls: "heard base k opening st \<Longrightarrow> \<exists>k'. epoll_calls base st k = Some k' \<and> in_step opening st k'"
  by (auto simp: heard_def epoll_calls_def)

lemma heard_start: "in_step opening st k \<Longrightarrow> heard st (Some k) opening st"
  by (simp add: heard_def)

lemma heard_effect:
  assumes "heard base k opening st" and "st_effects st' = st_effects st @ es"
    and "\<And>k'. in_step opening st k' \<Longrightarrow> \<exists>k''. fold epoll_ctl es (Some k') = Some k'' \<and> in_step opening' st' k''"
  shows "heard base k opening' st'"
proof -
  obtain es0 k' where e: "st_effects st = st_effects base @ es0" "fold epoll_ctl es0 k = Some k'" "in_step opening st k'"
    using assms(1) by (auto simp: heard_def)
  obtain k'' where "fold epoll_ctl es (Some k') = Some k''" "in_step opening' st' k''" using assms(3) [OF e(3)] by blast
  then show ?thesis using e assms(2) unfolding heard_def by (intro exI [of _ "es0 @ es"]) auto
qed

lemma heard_unheard:
  assumes "heard base k opening st" and "unheard st st'"
  shows "heard base k opening st'"
proof -
  obtain es where es: "st_effects st' = st_effects st @ es" "\<forall>e \<in> set es. no_ctl e" using assms(2) by (auto simp: unheard_def)
  show ?thesis
    using assms(2) by (intro heard_effect [OF assms(1) es(1)]) (auto simp: no_ctl_calls [OF es(2)] in_step_def unheard_def)
qed

lemma assigned_same:
  assumes "st_listeners st' = st_listeners st" and "st_services st' = st_services st"
    and "\<And>s. s_listener (st_servs st' s) = s_listener (st_servs st s)"
  shows "assigned st' = assigned st"
  by (simp add: assigned_def assms)

lemma assigned_unheard: "unheard st st' \<Longrightarrow> assigned st \<Longrightarrow> assigned st'"
  using assigned_same [of st' st] by (simp add: unheard_def)

subsection \<open>Events and the tick\<close>

lemma assignedD:
  assumes "assigned st"
  shows "distinct (map fst (st_listeners st))"
    and "(l, s) \<in> set (st_listeners st) \<Longrightarrow> s \<in> snd ` set (st_services st) \<and> s_listener (st_servs st s) = Some l"
    and "(n, s) \<in> set (st_services st) \<Longrightarrow> s_listener (st_servs st s) = Some l \<Longrightarrow> (l, s) \<in> set (st_listeners st)"
  using assms by (auto simp: assigned_def)

lemma in_step_disarm: "l \<notin> dom k \<Longrightarrow> disarm l k = k"
  by (simp add: disarm_def dom_def)

lemma handle_socket_in_step:
  assumes a: "in_step {} st k" and t: "assigned st" and now: "0 < now"
  shows "in_step {} (handle_socket now (l, bad) st) (disarm l k) \<and> assigned (handle_socket now (l, bad) st)
    \<and> st_effects (handle_socket now (l, bad) st) = st_effects st"
proof (cases "map_of (st_listeners st) l")
  case None
  then have "l \<notin> dom k" using a by (auto simp: in_step_def map_of_eq_None_iff)
  then show ?thesis using a t None by (simp add: handle_socket_def in_step_disarm)
next
  case (Some s)
  note mem = map_of_SomeD [OF Some]
  have "s_listener (st_servs st s) = Some l" using assignedD(2) [OF t mem] by simp
  then have eq: "handle_socket now (l, bad) st =
      (if bad then set_fatal (ListenerEvent (s_name (st_servs st s))) st
       else upd_list l (\<lambda>li. li\<lparr>l_rearm_at := now + 25 * millisecond\<rparr>) (upd_serv s (\<lambda>service. service\<lparr>s_demand := True\<rparr>) st))"
    by (simp add: handle_socket_def Some Let_def)
  have "l \<in> dom k" using mem a by (force simp: in_step_def)
  then have k: "disarm l k = k(l \<mapsto> False)" by (auto simp: disarm_def)
  have later: "now + 25 * millisecond \<noteq> 0" using now by simp
  have "assigned (handle_socket now (l, bad) st)"
    using t assigned_same [of "handle_socket now (l, bad) st" st] unfolding eq by (simp add: set_fatal_def)
  moreover have "in_step {} (handle_socket now (l, bad) st) (disarm l k)"
    using a \<open>l \<in> dom k\<close> later unfolding eq k by (auto simp: in_step_def set_fatal_def)
  ultimately show ?thesis by (simp add: eq set_fatal_def)
qed

lemma handle_sockets_agree:
  assumes "in_step {} st k" and "assigned st" and "0 < now"
  shows "in_step {} (fold (handle_socket now) es st) (fold (\<lambda>(l, bad). disarm l) es k)
    \<and> assigned (fold (handle_socket now) es st) \<and> st_effects (fold (handle_socket now) es st) = st_effects st"
  using assms(1,2)
proof (induction es arbitrary: st k)
  case (Cons e es)
  obtain l bad where e: "e = (l, bad)" by fastforce
  from handle_socket_in_step [OF Cons.prems assms(3), of l bad]
  show ?case using Cons.IH [of "handle_socket now e st" "disarm l k"] by (simp add: e)
qed simp

lemma handle_unheard: "(\<forall>es. msg \<noteq> PollEvents es) \<Longrightarrow> unheard st (handle w msg now st)"
proof -
  have "unheard st (observe_pressure s now (handle_worker w msg now st))" for s
    by (rule unheard.frame_trans [OF unheard.handle_worker_frame unheard.each.observe_frame])
  then show "(\<forall>es. msg \<noteq> PollEvents es) \<Longrightarrow> unheard st (handle w msg now st)"
    using unheard.action_result_frame unheard.frame_refl unheard.frame_fatal
    by (cases msg) (simp_all add: handle_def del: handle_worker.simps)
qed

lemma handle_heard:
  assumes "in_step {} st k" and "assigned st" and "0 < now"
  shows "heard st (Some (deliver (Received msg) k)) {} (handle w msg now st) \<and> assigned (handle w msg now st)"
proof (cases "\<exists>es. msg = PollEvents es")
  case True
  then obtain es where "msg = PollEvents es" by blast
  with handle_sockets_agree [OF assms, of es] show ?thesis
    by (auto simp: handle_def deliver_def heard_def)
next
  case False
  then have u: "unheard st (handle w msg now st)" by (intro handle_unheard) simp
  have "deliver (Received msg) k = k" using False by (auto simp: deliver_def split: message.split)
  then show ?thesis using heard_unheard [OF heard_start [OF assms(1)] u] assigned_unheard [OF u assms(2)] by simp
qed

text \<open>What the loop over the listeners leaves.\<close>

definition rearmed :: "store \<Rightarrow> store \<Rightarrow> bool" where
  "rearmed st st' \<longleftrightarrow> st_listeners st' = st_listeners st \<and> st_services st' = st_services st \<and> st_servs st' = st_servs st"

lemma rearm_heard:
  assumes h: "heard base k {} st" and t: "assigned st" and s: "(l, s) \<in> set (st_listeners st)"
  shows "heard base k {} (rearm_listener w now s st) \<and> rearmed st (rearm_listener w now s st)
    \<and> st_lists (rearm_listener w now s st) = (if l_rearm_at (st_lists st l) \<noteq> 0 \<and> \<not> now < l_rearm_at (st_lists st l)
        then (st_lists st)(l := (st_lists st l)\<lparr>l_rearm_at := 0\<rparr>) else st_lists st)"
proof (cases "l_rearm_at (st_lists st l) \<noteq> 0 \<and> \<not> now < l_rearm_at (st_lists st l)")
  case True
  define st1 where "st1 = (if w_arm w l then emit (ArmListener l) st
    else set_fatal (RearmFailed (s_name (st_servs st s))) (emit (ArmListener l) st))"
  have eq: "rearm_listener w now s st = upd_list l (\<lambda>li. li\<lparr>l_rearm_at := 0\<rparr>) st1"
    using True assignedD(2) [OF t s] by (simp add: rearm_listener_def Let_def st1_def)
  have "heard base k {} (rearm_listener w now s st)"
  proof (rule heard_effect [OF h, where es = "[ArmListener l]"])
    show "st_effects (rearm_listener w now s st) = st_effects st @ [ArmListener l]"
      by (simp add: eq st1_def set_fatal_def)
    fix k' assume a: "in_step {} st k'"
    have l: "l \<in> dom k'" using a s by (force simp: in_step_def)
    then have "in_step {} (rearm_listener w now s st) (k'(l \<mapsto> True))"
      using a unfolding eq st1_def by (auto simp: in_step_def set_fatal_def)
    then show "\<exists>k''. fold epoll_ctl [ArmListener l] (Some k') = Some k'' \<and> in_step {} (rearm_listener w now s st) k''"
      using l by auto
  qed
  then show ?thesis using True by (simp add: rearmed_def eq st1_def set_fatal_def)
next
  case False
  then have "rearm_listener w now s st = st" using assignedD(2) [OF t s] by (auto simp: rearm_listener_def)
  then show ?thesis using h False by (auto simp: rearmed_def)
qed

lemma assigned_rearmed: "rearmed st st' \<Longrightarrow> assigned st' = assigned st"
  using assigned_same [of st' st] by (simp add: rearmed_def)

lemma rearm_all_heard:
  fixes w :: world and now :: time
  assumes "heard base k {} st" and "assigned st" and "set ls \<subseteq> set (st_listeners st)"
  defines "st' \<equiv> fold (rearm_listener w now) (map snd ls) st"
  shows "heard base k {} st' \<and> rearmed st st'
    \<and> (\<forall>(l, s) \<in> set ls. l_rearm_at (st_lists st' l) = 0 \<or> now < l_rearm_at (st_lists st' l))
    \<and> (\<forall>l. l_rearm_at (st_lists st l) = 0 \<or> now < l_rearm_at (st_lists st l) \<longrightarrow> st_lists st' l = st_lists st l)"
  using assms(1-3) unfolding st'_def
proof (induction ls arbitrary: st)
  case (Cons e ls)
  obtain l s where e: "e = (l, s)" by fastforce
  let ?st = "rearm_listener w now s st"
  have s: "(l, s) \<in> set (st_listeners st)" using Cons.prems(3) e by simp
  note r = rearm_heard [OF Cons.prems(1,2) s, of w now]
  have sub: "set ls \<subseteq> set (st_listeners ?st)" using r Cons.prems(3) by (simp add: rearmed_def)
  have "assigned ?st" using assigned_rearmed r Cons.prems(2) by blast
  from Cons.IH [OF _ this sub] r have IH: "heard base k {} (fold (rearm_listener w now) (map snd ls) ?st)"
    "rearmed ?st (fold (rearm_listener w now) (map snd ls) ?st)"
    "\<forall>(l, s) \<in> set ls. l_rearm_at (st_lists (fold (rearm_listener w now) (map snd ls) ?st) l) = 0
      \<or> now < l_rearm_at (st_lists (fold (rearm_listener w now) (map snd ls) ?st) l)"
    "\<forall>l. l_rearm_at (st_lists ?st l) = 0 \<or> now < l_rearm_at (st_lists ?st l) \<longrightarrow>
      st_lists (fold (rearm_listener w now) (map snd ls) ?st) l = st_lists ?st l" by blast+
  have here: "l_rearm_at (st_lists ?st l) = 0 \<or> now < l_rearm_at (st_lists ?st l)" using r by auto
  have keep: "st_lists ?st m = st_lists st m" if "l_rearm_at (st_lists st m) = 0 \<or> now < l_rearm_at (st_lists st m)" for m
    using r that by auto
  have "rearmed st (fold (rearm_listener w now) (map snd ls) ?st)" using IH(2) r by (simp add: rearmed_def)
  then show ?case using IH here keep by (auto simp: e)
qed (simp add: rearmed_def)

lemma tick_heard:
  assumes "heard base k {} st" and "assigned st"
  shows "heard base k {} (tick w now stopping st) \<and> assigned (tick w now stopping st)
    \<and> (\<not> stopping \<longrightarrow> (\<forall>l \<in> fst ` set (st_listeners (tick w now stopping st)).
        l_rearm_at (st_lists (tick w now stopping st) l) = 0 \<or> now < l_rearm_at (st_lists (tick w now stopping st) l)))
    \<and> st_listeners (tick w now stopping st) = st_listeners st"
proof (cases stopping)
  case True
  have u: "unheard st (tick w now True st)" by (rule unheard.stopping_tick_frame)
  then show ?thesis using True heard_unheard [OF assms(1) u] assigned_unheard [OF u assms(2)] by (simp add: unheard_def)
next
  case False
  define st1 where "st1 = fold (rearm_listener w now) (map snd (st_listeners st)) st"
  define st2 where "st2 = fold (tick_worker w now) (w_order w LoopWorkers (st_workers st1)) st1"
  note r = rearm_all_heard [OF assms subset_refl, of w now, folded st1_def]
  have "unheard st1 st2" unfolding st2_def by (rule unheard.tick_workers_frame)
  then have "unheard st1 (tick_services w now st2)" using unheard.tick_services_frame by (rule unheard_trans)
  moreover have "tick w now stopping st = tick_services w now st2"
    using False by (simp add: tick_def Let_def st1_def st2_def)
  ultimately have u: "unheard st1 (tick w now stopping st)" by simp
  have "assigned st1" using r assigned_rearmed assms(2) by blast
  then show ?thesis
    using heard_unheard [OF _ u] assigned_unheard [OF u] r u by (force simp: unheard_def rearmed_def)
qed

subsection \<open>Shutting down\<close>

lemma close_service_heard:
  assumes h: "heard base k {} st" and t: "assigned st" and s: "s \<in> snd ` set (st_services st)"
  shows "heard base k {} (close_service s st) \<and> assigned (close_service s st)
    \<and> st_services (close_service s st) = st_services st
    \<and> set (st_listeners (close_service s st)) = {(l, r) \<in> set (st_listeners st). r \<noteq> s}"
proof (cases "s_listener (st_servs st s)")
  case None
  then have "s \<notin> snd ` set (st_listeners st)" using assignedD(2) [OF t] by fastforce
  then show ?thesis using h t None by (force simp: close_service_def)
next
  case (Some l)
  define st' where "st' = close_service s st"
  have eq: "st' = upd_serv s (\<lambda>service. service\<lparr>s_listener := None\<rparr>) (close_listener l st)"
    by (simp add: st'_def close_service_def Some)
  obtain n where "(n, s) \<in> set (st_services st)" using s by auto
  then have mem: "(l, s) \<in> set (st_listeners st)" using assignedD(3) [OF t] Some by blast
  note d = assignedD(1) [OF t]
  have rest: "set (st_listeners st') = {(m, r) \<in> set (st_listeners st). m \<noteq> l}"
    by (auto simp: eq close_listener_def AList.delete_eq)
  have other: "m \<noteq> l \<longleftrightarrow> r \<noteq> s" if "(m, r) \<in> set (st_listeners st)" for m r
    using that mem d assignedD(2) [OF t that] assignedD(2) [OF t mem] eq_key_imp_eq_value [OF d] by fastforce
  have set': "set (st_listeners st') = {(m, r) \<in> set (st_listeners st). r \<noteq> s}" using rest other by auto
  have servs: "s_listener (st_servs st' r) = (if r = s then None else s_listener (st_servs st r))" for r
    by (simp add: eq close_listener_def)
  have sv: "st_services st' = st_services st" by (simp add: eq close_listener_def)
  have "assigned st'"
    unfolding assigned_def
  proof (intro conjI)
    show "distinct (map fst (st_listeners st'))" using d by (simp add: eq close_listener_def distinct_delete)
    show "\<forall>(l, r) \<in> set (st_listeners st'). r \<in> snd ` set (st_services st') \<and> s_listener (st_servs st' r) = Some l"
      using assignedD(2) [OF t] unfolding set' servs sv by auto
    show "\<forall>(n, r) \<in> set (st_services st'). \<forall>l. s_listener (st_servs st' r) = Some l \<longrightarrow> (l, r) \<in> set (st_listeners st')"
      using assignedD(3) [OF t] unfolding set' servs sv by (auto split: if_splits)
  qed
  moreover have "heard base k {} st'"
  proof (rule heard_effect [OF h, where es = "[CloseListener l]"])
    show "st_effects st' = st_effects st @ [CloseListener l]" by (simp add: eq close_listener_def)
    fix k' assume a: "in_step {} st k'"
    have l: "l \<in> dom k'" using a mem by (force simp: in_step_def)
    have "fst ` set (st_listeners st') = fst ` set (st_listeners st) - {l}" unfolding rest by force
    then have "in_step {} st' (k'(l := None))" using a by (auto simp: in_step_def eq close_listener_def)
    then show "\<exists>k''. fold epoll_ctl [CloseListener l] (Some k') = Some k'' \<and> in_step {} st' k''" using l by auto
  qed
  ultimately show ?thesis using set' sv by (simp add: st'_def)
qed

lemma shutdown_heard:
  assumes "heard base k {} st" and "assigned st"
  shows "heard base k {} (shutdown w now st) \<and> assigned (shutdown w now st) \<and> st_listeners (shutdown w now st) = []"
proof -
  have all: "heard base k {} (fold close_service ss x) \<and> assigned (fold close_service ss x)
      \<and> set (st_listeners (fold close_service ss x)) = {(l, r) \<in> set (st_listeners x). r \<notin> set ss}"
    if "heard base k {} x" "assigned x" "set ss \<subseteq> snd ` set (st_services x)" for ss x
    using that
  proof (induction ss arbitrary: x)
    case (Cons s ss)
    note c = close_service_heard [OF Cons.prems(1,2), of s]
    from Cons.prems(3) have "s \<in> snd ` set (st_services x)" by simp
    note c = c [OF this]
    with Cons.IH [of "close_service s x"] Cons.prems(3) show ?case by auto
  qed auto
  define st1 where "st1 = fold close_service (map snd (st_services st)) st"
  have h1: "heard base k {} st1" and t1: "assigned st1"
    and l1: "set (st_listeners st1) = {(l, r) \<in> set (st_listeners st). r \<notin> snd ` set (st_services st)}"
    using all [OF assms, of "map snd (st_services st)"] by (simp_all add: st1_def)
  have "set (st_listeners st1) = {}" using l1 assignedD(2) [OF assms(2)] by auto
  then have "st_listeners st1 = []" by simp
  then show ?thesis using tick_heard [OF h1 t1, of w now True] by (simp add: shutdown_def st1_def)
qed

subsection \<open>Applying a configuration\<close>

text \<open>A listener with the next number, and then without it again.\<close>

lemma in_step_next:
  assumes a: "in_step opening st k" and l: "l = st_next_listener st + 1"
    and same: "st_listeners st' = st_listeners st" "st_next_listener st' = l" "st_fatal st' = st_fatal st"
      "st_lists st' = (st_lists st)(l := li)" "l_rearm_at li = 0"
  shows "k l = None" and "l \<notin> opening" and "in_step (insert l opening) st' (k(l \<mapsto> True))" and "in_step opening st' k"
proof -
  have below: "\<forall>m \<in> dom k. m \<le> st_next_listener st" and doms: "dom k = fst ` set (st_listeners st) \<union> opening"
    and apart: "opening \<inter> fst ` set (st_listeners st) = {}"
    and armed: "st_fatal st = None \<Longrightarrow> m \<in> dom k \<Longrightarrow> k m = Some (l_rearm_at (st_lists st m) = 0)" for m
    using a unfolding in_step_def by blast+
  have n: "l \<notin> dom k" using bspec [OF below, of l] l by linarith
  then show "k l = None" "l \<notin> opening" using doms by auto
  have bound: "m \<le> l" if "m \<in> dom k" for m using bspec [OF below that] l by linarith
  have ne: "m \<noteq> l" if "m \<in> dom k" for m using that n by blast
  have armed': "k m = Some (l_rearm_at (st_lists st' m) = 0)" if "st_fatal st' = None" "m \<in> dom k" for m
    using armed [of m] that ne [OF that(2)] by (simp add: same)
  show "in_step opening st' k"
    unfolding in_step_def same(1,2) using doms apart bound armed' by blast
  have "dom (k(l \<mapsto> True)) = fst ` set (st_listeners st) \<union> insert l opening" using doms by auto
  moreover have "insert l opening \<inter> fst ` set (st_listeners st) = {}" using apart n doms by auto
  moreover have "\<forall>m \<in> dom (k(l \<mapsto> True)). m \<le> l" using bound by auto
  moreover have "\<forall>m \<in> dom (k(l \<mapsto> True)). (k(l \<mapsto> True)) m = Some (l_rearm_at (st_lists st' m) = 0)" if "st_fatal st' = None"
  proof
    fix m assume "m \<in> dom (k(l \<mapsto> True))"
    then show "(k(l \<mapsto> True)) m = Some (l_rearm_at (st_lists st' m) = 0)"
      using armed' [OF that, of m] by (cases "m = l") (auto simp: same)
  qed
  ultimately show "in_step (insert l opening) st' (k(l \<mapsto> True))" unfolding in_step_def same(1,2) by blast
qed

lemma open_listeners_heard:
  assumes "open_listeners w apps st opened = (st', failure, opened')"
    and "heard base k (snd ` set opened) st" and "distinct (map snd opened)"
  shows "heard base k (snd ` set opened') st' \<and> distinct (map snd opened')"
  using assms
proof (induction w apps st opened arbitrary: st' rule: open_listeners.induct)
  case (2 w name app apps st opened)
  let ?l = "st_next_listener st + 1"
  consider (skip) "\<not> needs_listener st name app"
    | (stop) "needs_listener st name app" "w_open w name = None \<or> st_next_listener st = 2 ^ 31 - 1"
    | (bind) bound where "needs_listener st name app" "w_open w name = Some bound" "st_next_listener st \<noteq> 2 ^ 31 - 1"
    by (cases "w_open w name") auto
  then show ?case
  proof cases
    case skip
    with 2 show ?thesis by simp
  next
    case stop
    with 2(3) have "st' = st" "opened' = opened" by (auto split: option.splits)
    with 2 show ?thesis by simp
  next
    case bind
    define st1 where "st1 = upd_list ?l (\<lambda>_. \<lparr>l_address = bound, l_rearm_at = 0\<rparr>)
      (emit (OpenListener ?l (app_listen app)) (st\<lparr>st_next_listener := ?l\<rparr>))"
    have body: "(if w_arm w ?l then open_listeners w apps st1 (opened @ [(name, ?l)])
        else (emit (CloseListener ?l) st1, Some (RegisterFailed name), opened)) = (st', failure, opened')"
      unfolding st1_def using 2(3) bind by (simp add: Let_def split del: if_split)
    have fields: "st_listeners st1 = st_listeners st" "st_next_listener st1 = ?l" "st_fatal st1 = st_fatal st"
      "st_lists st1 = (st_lists st)(?l := \<lparr>l_address = bound, l_rearm_at = 0\<rparr>)"
      "l_rearm_at \<lparr>l_address = bound, l_rearm_at = 0\<rparr> = 0"
      "st_effects st1 = st_effects st @ [OpenListener ?l (app_listen app)]" by (simp_all add: st1_def)
    note next_listener = in_step_next [OF _ refl fields(1-5)]
    have fresh: "?l \<notin> snd ` set opened" using 2(4) next_listener(2) by (auto simp: heard_def)
    show ?thesis
    proof (cases "w_arm w ?l")
      case True
      have "heard base k (snd ` set (opened @ [(name, ?l)])) st1"
      proof (rule heard_effect [OF 2(4) fields(6)])
        fix k' assume "in_step (snd ` set opened) st k'"
        note n = next_listener [OF this]
        show "\<exists>k''. fold epoll_ctl [OpenListener ?l (app_listen app)] (Some k') = Some k''
            \<and> in_step (snd ` set (opened @ [(name, ?l)])) st1 k''"
          using n(1,3) by simp
      qed
      moreover have "distinct (map snd (opened @ [(name, ?l)]))" using 2(5) fresh by simp
      moreover have "open_listeners w apps st1 (opened @ [(name, ?l)]) = (st', failure, opened')" using body True by simp
      ultimately show ?thesis using 2(2) bind True by (simp add: st1_def)
    next
      case False
      with body have eq: "st' = emit (CloseListener ?l) st1" "opened' = opened" by auto
      have "heard base k (snd ` set opened) st'"
      proof (rule heard_effect [OF 2(4), where es = "[OpenListener ?l (app_listen app), CloseListener ?l]"])
        fix k' assume a: "in_step (snd ` set opened) st k'"
        note n = next_listener [OF a]
        have "in_step (snd ` set opened) st' k'" using n(4) by (simp add: eq in_step_def)
        moreover have "(k'(?l \<mapsto> True))(?l := None) = k'" using n(1) by auto
        ultimately show "\<exists>k''. fold epoll_ctl [OpenListener ?l (app_listen app), CloseListener ?l] (Some k') = Some k''
            \<and> in_step (snd ` set opened) st' k''"
          using n(1) by simp
      qed (simp add: eq fields(6))
      then show ?thesis using 2(5) eq by simp
    qed
  qed
qed auto

text \<open>Only applications that need a listener get one.\<close>

lemma open_listeners_names:
  assumes "open_listeners w apps st opened = (st', failure, opened')" and "distinct (map fst opened @ map fst apps)"
  shows "distinct (map fst opened') \<and> set (map fst opened') \<subseteq> set (map fst opened) \<union> set (map fst apps)
    \<and> (\<forall>(n, l) \<in> set opened' - set opened. \<exists>app. (n, app) \<in> set apps \<and> needs_listener st n app)"
  using assms
proof (induction w apps st opened arbitrary: st' rule: open_listeners.induct)
  case (2 w name app apps st opened)
  let ?l = "st_next_listener st + 1"
  show ?case
  proof (cases "needs_listener st name app \<and> w_open w name \<noteq> None \<and> st_next_listener st \<noteq> 2 ^ 31 - 1 \<and> w_arm w ?l")
    case True
    then obtain bound where bound: "w_open w name = Some bound" by blast
    define st1 where "st1 = upd_list ?l (\<lambda>_. \<lparr>l_address = bound, l_rearm_at = 0\<rparr>)
      (emit (OpenListener ?l (app_listen app)) (st\<lparr>st_next_listener := ?l\<rparr>))"
    have "open_listeners w apps st1 (opened @ [(name, ?l)]) = (st', failure, opened')"
      using 2(3) True bound by (simp add: st1_def Let_def)
    moreover have "needs_listener st1 n a = needs_listener st n a" for n a
      by (simp add: st1_def needs_listener_def current_service_def)
    moreover have "distinct (map fst (opened @ [(name, ?l)]) @ map fst apps)" using 2(4) by auto
    ultimately have IH: "distinct (map fst opened')" "set (map fst opened') \<subseteq> set (map fst (opened @ [(name, ?l)])) \<union> set (map fst apps)"
      "\<forall>(n, l) \<in> set opened' - set (opened @ [(name, ?l)]). \<exists>app. (n, app) \<in> set apps \<and> needs_listener st n app"
      using 2(2) [of bound ?l _ st1 st'] True bound unfolding st1_def by simp_all
    have "\<exists>a. (n, a) \<in> set ((name, app) # apps) \<and> needs_listener st n a" if "(n, l) \<in> set opened' - set opened" for n l
    proof (cases "(n, l) = (name, ?l)")
      case False
      then have "(n, l) \<in> set opened' - set (opened @ [(name, ?l)])" using that by auto
      from bspec [OF IH(3) this] show ?thesis by auto
    qed (use True in auto)
    moreover have "set (map fst opened') \<subseteq> set (map fst opened) \<union> set (map fst ((name, app) # apps))" using IH(2) by auto
    ultimately show ?thesis using IH(1) by blast
  next
    case False
    show ?thesis
    proof (cases "needs_listener st name app")
      case True
      then have "opened' = opened"
        using False 2(3) by (auto simp: Let_def split: option.splits if_splits)
      then show ?thesis using 2(4) by auto
    next
      case False
      then have "open_listeners w apps st opened = (st', failure, opened')" using 2(3) by simp
      from 2(1) [OF False this] 2(4) have r: "distinct (map fst opened')"
        "set (map fst opened') \<subseteq> set (map fst opened) \<union> set (map fst apps)"
        "\<forall>(n, l) \<in> set opened' - set opened. \<exists>app. (n, app) \<in> set apps \<and> needs_listener st n app" by simp_all
      have "\<exists>a. (n, a) \<in> set ((name, app) # apps) \<and> needs_listener st n a" if "(n, l) \<in> set opened' - set opened" for n l
        using bspec [OF r(3) that] by auto
      moreover have "set (map fst opened') \<subseteq> set (map fst opened) \<union> set (map fst ((name, app) # apps))" using r(2) by auto
      ultimately show ?thesis using r(1) by blast
    qed
  qed
qed simp

lemma stage_unheard: "unheard st (fst (stage_permissions w apps st staged))"
proof (induction w apps st staged rule: stage_permissions.induct)
  case (2 w name app apps st staged)
  have "unheard st (emit (SetPermissions path m) st)" for path m by (rule unheard_effect) simp
  note u = unheard_trans [OF this]
  from 2 show ?case by (auto intro: u unheard.frame_refl)
qed (simp add: unheard.frame_refl)

lemma finish_permissions_unheard: "unheard st (fold (finish_permissions w committed) paths st)"
proof (rule unheard.frame_fold)
  fix path x
  have "unheard x (emit (FinishPermissions path committed) x)" by (rule unheard_effect) simp
  then show "unheard x (finish_permissions w committed path x)"
    using unheard_trans [OF _ unheard.frame_fatal] by (simp add: finish_permissions_def Let_def)
qed

lemma close_opened_heard:
  assumes "heard base k (snd ` set opened) st" and "distinct (map snd opened)" and "assigned st"
  shows "heard base k {} (fold (\<lambda>(_, l). emit (CloseListener l)) opened st)
    \<and> assigned (fold (\<lambda>(_, l). emit (CloseListener l)) opened st)"
  using assms
proof (induction opened arbitrary: st)
  case (Cons e opened)
  obtain n l where e: "e = (n, l)" by fastforce
  have "heard base k (snd ` set opened) (emit (CloseListener l) st)"
  proof (rule heard_effect [OF Cons.prems(1), where es = "[CloseListener l]"])
    fix k' assume a: "in_step (snd ` set (e # opened)) st k'"
    then have "in_step (snd ` set opened) (emit (CloseListener l) st) (k'(l := None))"
      using Cons.prems(2) by (fastforce simp: in_step_def e)
    then show "\<exists>k''. fold epoll_ctl [CloseListener l] (Some k') = Some k'' \<and> in_step (snd ` set opened) (emit (CloseListener l) st) k''"
      using a by (auto simp: in_step_def e)
  qed simp
  moreover have "assigned (emit (CloseListener l) st)" using Cons.prems(3) by (subst assigned_same) simp_all
  ultimately show ?case using Cons.IH Cons.prems(2) by (simp add: e)
qed simp

text \<open>Retiring a service closes its listener when the service goes.\<close>

definition dropped :: "go_string \<times> service_id \<Rightarrow> store \<Rightarrow> store" where
  "dropped = (\<lambda>(name, s) st.
     (let st = (case s_listener (st_servs st s) of None \<Rightarrow> st | Some l \<Rightarrow> close_listener l st)
      in st\<lparr>st_services := AList.delete name (st_services st)\<rparr>))"

lemma in_step_close:
  assumes a: "in_step opening st k" and l: "l \<in> fst ` set (st_listeners st)"
    and same: "fst ` set (st_listeners st') = fst ` set (st_listeners st) - {l}"
      "st_next_listener st' = st_next_listener st" "st_fatal st' = st_fatal st" "st_lists st' = st_lists st"
  shows "in_step opening st' (k(l := None))"
proof -
  have "dom k = fst ` set (st_listeners st) \<union> opening" "opening \<inter> fst ` set (st_listeners st) = {}"
    using a unfolding in_step_def by blast+
  then have "dom (k(l := None)) = fst ` set (st_listeners st') \<union> opening \<and> opening \<inter> fst ` set (st_listeners st') = {}"
    using l unfolding same(1) by auto
  moreover have "m \<noteq> l \<and> m \<in> dom k" if "m \<in> dom (k(l := None))" for m using that by auto
  ultimately show ?thesis using a unfolding in_step_def same(2-4) by (metis fun_upd_other)
qed

lemma dropped_heard:
  assumes h: "heard base k opening st" and t: "assigned st" and e: "(name, s) \<in> set (st_services st)"
    and names: "distinct (map fst (st_services st))" and only: "\<And>n. (n, s) \<in> set (st_services st) \<Longrightarrow> n = name"
  shows "heard base k opening (dropped (name, s) st) \<and> assigned (dropped (name, s) st)"
proof -
  define st' where "st' = dropped (name, s) st"
  note d = assignedD(1) [OF t]
  have sv: "set (st_services st') = set (st_services st) - {(name, s)}"
    using e names by (auto simp: st'_def dropped_def Let_def close_listener_def AList.delete_eq eq_key_imp_eq_value split: option.split)
  have servs: "st_servs st' = st_servs st" by (simp add: st'_def dropped_def Let_def close_listener_def split: option.split)
  have ls: "set (st_listeners st') = {(m, r) \<in> set (st_listeners st). r \<noteq> s}"
  proof (cases "s_listener (st_servs st s)")
    case None
    then have "s \<notin> snd ` set (st_listeners st)" using assignedD(2) [OF t] by fastforce
    then show ?thesis using None by (force simp: st'_def dropped_def)
  next
    case (Some l)
    then have mem: "(l, s) \<in> set (st_listeners st)" using assignedD(3) [OF t e] by blast
    have "set (st_listeners st') = {(m, r) \<in> set (st_listeners st). m \<noteq> l}"
      using Some by (auto simp: st'_def dropped_def Let_def close_listener_def AList.delete_eq)
    moreover have "m \<noteq> l \<longleftrightarrow> r \<noteq> s" if "(m, r) \<in> set (st_listeners st)" for m r
      using that mem assignedD(2) [OF t that] assignedD(2) [OF t mem] eq_key_imp_eq_value [OF d] by fastforce
    ultimately show ?thesis by auto
  qed
  have "assigned st'"
    unfolding assigned_def
  proof (intro conjI)
    show "distinct (map fst (st_listeners st'))"
      using d by (simp add: st'_def dropped_def Let_def close_listener_def distinct_delete split: option.split)
    show "\<forall>(l, r) \<in> set (st_listeners st'). r \<in> snd ` set (st_services st') \<and> s_listener (st_servs st' r) = Some l"
    proof clarify
      fix l r assume "(l, r) \<in> set (st_listeners st')"
      then have r: "(l, r) \<in> set (st_listeners st)" "r \<noteq> s" unfolding ls by auto
      then obtain n where "(n, r) \<in> set (st_services st)" using assignedD(2) [OF t] by force
      then have "(n, r) \<in> set (st_services st')" using r(2) sv by simp
      then show "r \<in> snd ` set (st_services st') \<and> s_listener (st_servs st' r) = Some l"
        using assignedD(2) [OF t r(1)] servs by force
    qed
    show "\<forall>(n, r) \<in> set (st_services st'). \<forall>l. s_listener (st_servs st' r) = Some l \<longrightarrow> (l, r) \<in> set (st_listeners st')"
      using assignedD(3) [OF t] only unfolding sv servs ls by fastforce
  qed
  moreover have "heard base k opening st'"
  proof (cases "s_listener (st_servs st s)")
    case None
    then have "st_listeners st' = st_listeners st" by (simp add: st'_def dropped_def)
    then show ?thesis
      using None by (intro heard_effect [OF h, where es = "[]"]) (auto simp: st'_def dropped_def in_step_def)
  next
    case (Some l)
    then have mem: "(l, s) \<in> set (st_listeners st)" using assignedD(3) [OF t e] by blast
    show ?thesis
    proof (rule heard_effect [OF h, where es = "[CloseListener l]"])
      show "st_effects st' = st_effects st @ [CloseListener l]" by (simp add: st'_def dropped_def Some close_listener_def)
      fix k' assume a: "in_step opening st k'"
      have l: "l \<in> fst ` set (st_listeners st)" using mem by force
      have "fst ` set (st_listeners st') = fst ` set (st_listeners st) - {l}"
        by (force simp: st'_def dropped_def Some close_listener_def AList.delete_eq)
      moreover have "st_next_listener st' = st_next_listener st" "st_fatal st' = st_fatal st" "st_lists st' = st_lists st"
        by (simp_all add: st'_def dropped_def Some close_listener_def)
      ultimately have "in_step opening st' (k'(l := None))" by (rule in_step_close [OF a l])
      then show "\<exists>k''. fold epoll_ctl [CloseListener l] (Some k') = Some k'' \<and> in_step opening st' k''"
        using a l by (auto simp: in_step_def dom_def)
    qed
  qed
  ultimately show ?thesis by (simp add: st'_def)
qed

lemma retire_service_heard:
  assumes h: "heard base k opening st" and t: "assigned st" and i: "inv st" and e: "(name, s) \<in> set (st_services st)"
  shows "heard base k opening (retire_service w apps (name, s) st) \<and> assigned (retire_service w apps (name, s) st)"
proof -
  define st1 where "st1 = fold (\<lambda>p. stop w p (w_clock w p)) (w_order w (LoopService s) (s_workers (st_servs st s))) st"
  have u: "unheard st st1" unfolding st1_def by (rule unheard.frame_fold [OF unheard.each.stop_frame])
  have sv: "st_services st1 = st_services st" using u by (simp add: unheard_def)
  have only: "n = name" if "(n, s) \<in> set (st_services st)" for n
    using service_name_unique [OF _ that e] i by (simp add: inv_def)
  note h1 = heard_unheard [OF h u] and t1 = assigned_unheard [OF u t]
  have d: "heard base k opening (dropped (name, s) st1) \<and> assigned (dropped (name, s) st1)"
  proof (rule dropped_heard [OF h1 t1])
    show "(name, s) \<in> set (st_services st1)" using e sv by simp
    show "distinct (map fst (st_services st1))" using inv_distinct [OF i] sv by simp
    show "n = name" if "(n, s) \<in> set (st_services st1)" for n using that sv only [of n] by simp
  qed
  define same where "same \<longleftrightarrow> map_of apps name = Some (s_config (st_servs st s))"
  define gone where "gone \<longleftrightarrow> (case map_of apps name of None \<Rightarrow> True
    | Some app \<Rightarrow> app_listen (s_config (st_servs st s)) \<noteq> app_listen app)"
  have eq: "retire_service w apps (name, s) st = (if same then st else if gone then dropped (name, s) st1 else st1)"
    by (simp only: retire_service_def Let_def prod.case st1_def [symmetric] dropped_def same_def gone_def)
  consider "same" | "\<not> same" "gone" | "\<not> same" "\<not> gone" by blast
  then show ?thesis
    by cases (simp_all only: eq h t h1 t1 d if_True if_False simp_thms)
qed

text \<open>The listener an application is installed with: that of its last service, or the one just opened.\<close>

definition listener_for :: "store \<Rightarrow> (go_string \<times> listener_id) list \<Rightarrow> go_string \<Rightarrow> listener_id option" where
  "listener_for st opened name = (case current_service st name of None \<Rightarrow> map_of opened name | Some service \<Rightarrow> s_listener service)"

lemma adopt_unheard: "unheard st (fold (adopt s) ps st)"
  unfolding adopt_def by (rule unheard.frame_fold [OF unheard.each.frame_proc])

lemma install_fields:
  fixes w :: world and opened :: "(go_string \<times> listener_id) list"
    and plans :: "(go_string \<times> schedule) list" and app :: app
  assumes "map_option s_config (current_service st name) \<noteq> Some app"
  defines "st' \<equiv> install_service w plans opened (name, app) st"
  shows "st_services st' = AList.update name (st_next_serv st) (st_services st)"
    and "s_listener (st_servs st' r) = (if r = st_next_serv st then listener_for st opened name else s_listener (st_servs st r))"
    and "st_listeners st' = (case listener_for st opened name of None \<Rightarrow> st_listeners st
      | Some l \<Rightarrow> AList.update l (st_next_serv st) (st_listeners st))"
    and "st_lists st' = st_lists st" and "st_fatal st' = st_fatal st" and "st_next_listener st' = st_next_listener st"
    and "st_effects st' = st_effects st"
proof -
  define workers where "workers = (case current_service st name of None \<Rightarrow> [] | Some service \<Rightarrow> s_workers service)"
  define sv where "sv = new_service name app (listener_for st opened name) (lookup_or zero_schedule plans name)
    (w_clock w (st_next_serv st)) workers"
  define st1 where "st1 = fold (adopt (st_next_serv st)) workers (alloc_serv sv st)"
  have alloc: "st_services (alloc_serv sv st) = st_services st" "st_listeners (alloc_serv sv st) = st_listeners st"
    "st_lists (alloc_serv sv st) = st_lists st" "st_fatal (alloc_serv sv st) = st_fatal st"
    "st_next_listener (alloc_serv sv st) = st_next_listener st" "st_effects (alloc_serv sv st) = st_effects st"
    "st_servs (alloc_serv sv st) = (st_servs st)(st_next_serv st := sv)"
    by (simp_all add: alloc_serv_def)
  have fatal: "st_fatal (fold (adopt c) ps x) = st_fatal x" for c ps x
    by (induction ps arbitrary: x) (simp_all add: adopt_def)
  have st1: "st_services st1 = st_services st" "st_listeners st1 = st_listeners st" "st_lists st1 = st_lists st"
    "st_next_listener st1 = st_next_listener st" "st_effects st1 = st_effects st" "st_fatal st1 = st_fatal st"
    "st_servs st1 = (st_servs st)(st_next_serv st := sv)"
    using adopt_unheard [of "alloc_serv sv st" "st_next_serv st" workers] alloc fatal
    by (simp_all add: st1_def unheard_def)
  have eq: "st' = (let st = st1\<lparr>st_services := AList.update name (st_next_serv st) (st_services st1)\<rparr>
      in case listener_for st0 opened name of None \<Rightarrow> st
        | Some l \<Rightarrow> st\<lparr>st_listeners := AList.update l (st_next_serv st0) (st_listeners st)\<rparr>)" if "st0 = st" for st0
    using assms(1) unfolding st'_def that
    by (simp only: install_service_def Let_def prod.case if_False listener_for_def [symmetric] workers_def [symmetric]
        sv_def [symmetric] st1_def [symmetric])
  have name: "s_listener sv = listener_for st opened name" by (simp add: sv_def new_service_def)
  show "st_services st' = AList.update name (st_next_serv st) (st_services st)"
    "s_listener (st_servs st' r) = (if r = st_next_serv st then listener_for st opened name else s_listener (st_servs st r))"
    "st_listeners st' = (case listener_for st opened name of None \<Rightarrow> st_listeners st
      | Some l \<Rightarrow> AList.update l (st_next_serv st) (st_listeners st))"
    "st_lists st' = st_lists st" "st_fatal st' = st_fatal st" "st_next_listener st' = st_next_listener st"
    "st_effects st' = st_effects st"
    unfolding eq [OF refl] by (simp_all add: st1 name Let_def split: option.split)
qed

lemma install_service_heard:
  fixes w :: world and opened :: "(go_string \<times> listener_id) list"
    and plans :: "(go_string \<times> schedule) list" and app :: app
  assumes h: "heard base k opening st" and t: "assigned st" and i: "inv st"
    and opens: "\<And>l. map_of (st_services st) name = None \<Longrightarrow> map_of opened name = Some l \<Longrightarrow> l \<in> opening"
  defines "st' \<equiv> install_service w plans opened (name, app) st"
    and "used \<equiv> {l. map_of (st_services st) name = None \<and> map_of opened name = Some l}"
  shows "heard base k (opening - used) st' \<and> assigned st'"
proof (cases "map_option s_config (current_service st name) = Some app")
  case True
  then have "st' = st" "used = {}" by (auto simp: st'_def used_def install_service_def current_service_def)
  then show ?thesis using h t by simp
next
  case False
  note f = install_fields [OF False, where w = w and plans = plans and opened = opened, folded st'_def]
  let ?c = "st_next_serv st"
  note d = assignedD(1) [OF t] and names = inv_distinct [OF i]
  have fresh: "r \<noteq> ?c" if "(n, r) \<in> set (st_services st)" for n r
    using that i services_okD(3) by (fastforce simp: inv_def service_ok_def Let_def)
  have sv: "(n, r) \<in> set (st_services st') \<longleftrightarrow> (if n = name then r = ?c else (n, r) \<in> set (st_services st))" for n r
    using update_entry [OF names, of n r name ?c] by (simp add: f(1))
  have ls: "(m, r) \<in> set (st_listeners st') \<longleftrightarrow>
      (if listener_for st opened name = Some m then r = ?c else (m, r) \<in> set (st_listeners st))" for m r
    using update_entry [OF d] by (auto simp: f(3) split: option.split)
  have apart: "l \<notin> fst ` set (st_listeners st)" if "l \<in> opening" for l
    using h that by (auto simp: heard_def in_step_def)
  have other: "listener_for st opened name \<noteq> Some m" if "(m, r) \<in> set (st_listeners st)" "(n, r) \<in> set (st_services st)" "n \<noteq> name" for m n r
  proof
    assume l: "listener_for st opened name = Some m"
    show False
    proof (cases "map_of (st_services st) name")
      case None
      then have "m \<in> opening" using l opens by (simp add: listener_for_def current_service_def)
      then show False using apart that(1) by force
    next
      case (Some s0)
      then have "(m, s0) \<in> set (st_listeners st)"
        using assignedD(3) [OF t map_of_SomeD [OF Some]] l by (simp add: listener_for_def current_service_def)
      then have "s0 = r" using that(1) d eq_key_imp_eq_value by fast
      then have "n = name" using service_name_unique [OF _ that(2)] map_of_SomeD [OF Some] i by (simp add: inv_def)
      then show False using that(3) by simp
    qed
  qed
  have "assigned st'"
    unfolding assigned_def
  proof (intro conjI)
    show "distinct (map fst (st_listeners st'))" using d by (simp add: f(3) distinct_update split: option.split)
    show "\<forall>(m, r) \<in> set (st_listeners st'). r \<in> snd ` set (st_services st') \<and> s_listener (st_servs st' r) = Some m"
    proof clarify
      fix m r assume mr: "(m, r) \<in> set (st_listeners st')"
      show "r \<in> snd ` set (st_services st') \<and> s_listener (st_servs st' r) = Some m"
      proof (cases "listener_for st opened name = Some m")
        case True
        then have "r = ?c" "(name, ?c) \<in> set (st_services st')" using mr ls sv by simp_all
        then show ?thesis using True f(2) by force
      next
        case False
        then have old: "(m, r) \<in> set (st_listeners st)" using mr ls by simp
        then obtain n where n: "(n, r) \<in> set (st_services st)" using assignedD(2) [OF t] by force
        have r: "s_listener (st_servs st r) = Some m" using assignedD(2) [OF t old] by simp
        have "n \<noteq> name"
        proof
          assume "n = name"
          then have "map_of (st_services st) name = Some r" using n names by simp
          then show False using False r by (simp add: listener_for_def current_service_def)
        qed
        then have "(n, r) \<in> set (st_services st')" using n sv by simp
        then show ?thesis using r fresh [OF n] f(2) by force
      qed
    qed
    show "\<forall>(n, r) \<in> set (st_services st'). \<forall>m. s_listener (st_servs st' r) = Some m \<longrightarrow> (m, r) \<in> set (st_listeners st')"
    proof clarify
      fix n r m assume nr: "(n, r) \<in> set (st_services st')" and m: "s_listener (st_servs st' r) = Some m"
      show "(m, r) \<in> set (st_listeners st')"
      proof (cases "n = name")
        case True
        then show ?thesis using nr m sv f(2) ls by simp
      next
        case False
        then have n: "(n, r) \<in> set (st_services st)" using nr sv by simp
        then have "(m, r) \<in> set (st_listeners st)" using assignedD(3) [OF t n] m f(2) fresh [OF n] by simp
        then show ?thesis using ls other [OF _ n False] by simp
      qed
    qed
  qed
  moreover have "heard base k (opening - used) st'"
  proof (rule heard_effect [OF h, where es = "[]"])
    fix k' assume a: "in_step opening st k'"
    have fst': "fst ` set (st_listeners st') = fst ` set (st_listeners st) \<union> set_option (listener_for st opened name)"
      using f(3) by (auto simp: dom_update split: option.split)
    have "fst ` set (st_listeners st') \<union> (opening - used) = fst ` set (st_listeners st) \<union> opening
      \<and> (opening - used) \<inter> fst ` set (st_listeners st') = {}"
    proof (cases "map_of (st_services st) name")
      case None
      then have i': "listener_for st opened name = map_of opened name" by (simp add: listener_for_def current_service_def)
      have "used = set_option (map_of opened name)" using None by (auto simp: used_def)
      moreover have "set_option (map_of opened name) \<subseteq> opening" using opens [OF None] by auto
      ultimately show ?thesis using apart unfolding fst' i' by blast
    next
      case (Some s0)
      then have "used = {}" by (simp add: used_def)
      moreover have "l \<in> fst ` set (st_listeners st)" if "listener_for st opened name = Some l" for l
        using assignedD(3) [OF t map_of_SomeD [OF Some]] that Some by (force simp: listener_for_def current_service_def)
      ultimately show ?thesis using apart unfolding fst' by auto
    qed
    then have "in_step (opening - used) st' k'" using a by (simp add: in_step_def f(4-6))
    then show "\<exists>k''. fold epoll_ctl [] (Some k') = Some k'' \<and> in_step (opening - used) st' k''" by simp
  qed (simp add: f(7))
  ultimately show ?thesis by blast
qed

lemma retire_all_heard:
  assumes "heard base k opening st" and "assigned st" and "inv st" and w: "world_ok w"
    and "distinct es" and "set es \<subseteq> set (st_services st)"
  shows "heard base k opening (fold (retire_service w apps) es st) \<and> assigned (fold (retire_service w apps) es st)"
  using assms(1-3,5-6)
proof (induction es arbitrary: st)
  case (Cons e es)
  let ?st = "retire_service w apps e st"
  obtain name s where e: "e = (name, s)" by fastforce
  have mem: "(name, s) \<in> set (st_services st)" using Cons.prems(5) e by simp
  have h: "heard base k opening ?st" "assigned ?st"
    using retire_service_heard [OF Cons.prems(1-3) mem] by (simp_all add: e)
  have r: "steps st ?st" "retires apps e st ?st"
    using retire_service_retires [OF Cons.prems(3) w mem, of apps] by (simp_all add: e)
  have "set es \<subseteq> set (st_services ?st)" using r(2) Cons.prems(4,5) by (auto simp: retires_def)
  with Cons.IH [OF h steps_inv [OF r(1) Cons.prems(3)]] Cons.prems(4) show ?case by simp
qed simp

text \<open>The listeners of applications still to install.\<close>

definition waiting :: "(go_string \<times> listener_id) list \<Rightarrow> apps \<Rightarrow> listener_id set" where
  "waiting opened entries = {l. \<exists>n \<in> fst ` set entries. map_of opened n = Some l}"

lemma install_all_heard:
  fixes w :: world and opened :: "(go_string \<times> listener_id) list" and plans :: "(go_string \<times> schedule) list"
  assumes h: "heard base k (waiting opened entries) st" "assigned st" "inv st"
    and d: "distinct (map fst apps)" "distinct (map fst entries)" "set entries \<subseteq> set apps"
    and settled: "\<forall>e \<in> set (st_services st). settled apps st e"
    and opened: "distinct (map fst opened)" "distinct (map snd opened)"
    and new: "\<forall>n \<in> fst ` set entries. map_of opened n \<noteq> None \<longrightarrow> map_of (st_services st) n = None"
  shows "heard base k {} (fold (install_service w plans opened) entries st)
    \<and> assigned (fold (install_service w plans opened) entries st)"
  using h d(2,3) settled new
proof (induction entries arbitrary: st)
  case Nil
  then show ?case by (simp add: waiting_def)
next
  case (Cons e entries)
  obtain name app where e: "e = (name, app)" by fastforce
  let ?st = "install_service w plans opened e st"
  let ?used = "{l. map_of (st_services st) name = None \<and> map_of opened name = Some l}"
  have one: "heard base k (waiting opened (e # entries) - ?used) ?st \<and> assigned ?st"
    unfolding e
    by (rule install_service_heard [OF Cons.prems(1) [unfolded e] Cons.prems(2,3)]) (auto simp: waiting_def)
  have "waiting opened (e # entries) - ?used = waiting opened entries"
  proof -
    have "?used = {l. map_of opened name = Some l}" using Cons.prems(7) e by auto
    moreover have "l \<notin> waiting opened entries" if "map_of opened name = Some l" for l
    proof
      assume "l \<in> waiting opened entries"
      then obtain n where n: "n \<in> fst ` set entries" "map_of opened n = Some l" by (auto simp: waiting_def)
      have "(n, l) \<in> set opened" "(name, l) \<in> set opened" using n(2) that map_of_SomeD by fast+
      then have "n = name" using opened(2) by (fastforce simp: distinct_map inj_on_def)
      then show False using n(1) Cons.prems(4) e by auto
    qed
    ultimately show ?thesis by (auto simp: waiting_def e)
  qed
  with one have h: "heard base k (waiting opened entries) ?st" "assigned ?st" by simp_all
  have app: "map_of apps name = Some app" using Cons.prems(5) d(1) e by simp
  from install_service_steps [OF Cons.prems(3) app Cons.prems(6), of w plans opened]
  have r: "steps st ?st" "\<forall>x \<in> set (st_services ?st). settled apps ?st x" by (simp_all add: e)
  have kept: "map_of (st_services ?st) n = map_of (st_services st) n" if "n \<noteq> name" for n
    using install_service_config(2) [OF Cons.prems(3), of n name app w plans opened] that by (simp add: e)
  have "map_of (st_services ?st) n = None" if "n \<in> fst ` set entries" "map_of opened n \<noteq> None" for n
  proof -
    have "n \<noteq> name" using that(1) Cons.prems(4) e by auto
    moreover have "map_of (st_services st) n = None" using bspec [OF Cons.prems(7), of n] that by simp
    ultimately show ?thesis using kept by simp
  qed
  then have "heard base k {} (fold (install_service w plans opened) entries ?st)
      \<and> assigned (fold (install_service w plans opened) entries ?st)"
    using Cons.prems(4,5) by (intro Cons.IH h steps_inv [OF r(1) Cons.prems(3)] r(2)) auto
  then show ?case unfolding fold_Cons comp_apply .
qed

lemma finish_heard:
  assumes "heard base k (snd ` set opened) st" and "assigned st" and "distinct (map snd opened)"
  shows "heard base k {} (finish_apply w False staged opened st) \<and> assigned (finish_apply w False staged opened st)"
  using close_opened_heard [OF heard_unheard [OF assms(1) finish_permissions_unheard] assms(3)
      assigned_unheard [OF finish_permissions_unheard assms(2)]]
  by (simp add: finish_apply_def Let_def)

theorem apply_heard:
  assumes h: "heard base k {} st" and t: "assigned st" and i: "inv st" and w: "world_ok w"
    and d: "distinct (map fst (sn_apps sn))"
  shows "heard base k {} (fst (apply_snapshot w sn st)) \<and> assigned (fst (apply_snapshot w sn st))"
proof (cases "sn_cgroup sn = st_cgroup st \<and> (\<exists>plans. plan_schedules (sn_apps sn) = Inr plans)")
  case False
  then have "fst (apply_snapshot w sn st) = st"
    by (cases "plan_schedules (sn_apps sn)") (auto simp: apply_snapshot_def)
  then show ?thesis using h t by simp
next
  case True
  then obtain plans where plans: "plan_schedules (sn_apps sn) = Inr plans" by blast
  obtain st1 failure1 opened where st1: "open_listeners w (sn_apps sn) st [] = (st1, failure1, opened)"
    by (metis prod_cases3)
  obtain st2 failure2 staged where st2: "stage_permissions w (sn_apps sn) st1 [] = (st2, failure2, staged)"
    by (metis prod_cases3)
  have h1: "heard base k (snd ` set opened) st1" and o: "distinct (map snd opened)"
    using open_listeners_heard [OF st1] h by simp_all
  have names: "distinct (map fst opened)" "set (map fst opened) \<subseteq> set (map fst (sn_apps sn))"
    "\<forall>(n, l) \<in> set opened. \<exists>app. (n, app) \<in> set (sn_apps sn) \<and> needs_listener st n app"
    using open_listeners_names [OF st1] d by simp_all
  have c1: "same_core st st1" using open_listeners_same [of st w "sn_apps sn" "[]"] st1 by simp
  have l1: "st_listeners st1 = st_listeners st"
    using open_listeners_effects [OF st1] by (auto simp: staged_like_def)
  have t1: "assigned st1" using t c1 l1 by (subst assigned_same) (simp_all add: same_core_def)
  have u2: "unheard st1 st2" using stage_unheard [of st1 w "sn_apps sn" "[]"] st2 by simp
  note h2 = heard_unheard [OF h1 u2] and t2 = assigned_unheard [OF u2 t1]
  have c2: "same_core st st2"
    using stage_permissions_same [of st1 w "sn_apps sn" "[]"] st2 same_core_trans [OF c1] by simp
  have i2: "inv st2" using steps_inv [OF same_core_steps [OF c2] i] .
  have eq2: "st_services st2 = st_services st" "st_servs st2 = st_servs st" using c2 by (simp_all add: same_core_def)
  define st3 where "st3 = fold (retire_service w (sn_apps sn)) (st_services st2) st2"
  define st4 where "st4 = fold (install_service w plans opened) (sn_apps sn) st3"
  define st5 where "st5 = st4\<lparr>st_limits := sn_resources sn\<rparr>"
  have dist: "distinct (st_services st2)" using inv_distinct [OF i2] by (simp add: distinct_map)
  have r3: "steps st2 st3" "\<forall>e \<in> set (st_services st3). settled (sn_apps sn) st3 e"
    unfolding st3_def using retire_all [OF i2 w dist subset_refl, of "sn_apps sn"] by simp_all
  have i3: "inv st3" by (rule steps_inv [OF r3(1) i2])
  have h3: "heard base k (snd ` set opened) st3" "assigned st3"
    unfolding st3_def using retire_all_heard [OF h2 t2 i2 w dist subset_refl] by simp_all
  have all: "waiting opened (sn_apps sn) = snd ` set opened"
    using names(1,2) by (force simp: waiting_def image_iff)
  have gone: "map_of (st_services st3) n = None" if n: "map_of opened n \<noteq> None" for n
  proof (rule ccontr)
    assume "map_of (st_services st3) n \<noteq> None"
    then obtain s where s: "(n, s) \<in> set (st_services st3)" using map_of_SomeD by fast
    obtain l where "(n, l) \<in> set opened" using n map_of_SomeD by fast
    then obtain app where app: "(n, app) \<in> set (sn_apps sn)" "needs_listener st n app" using names(3) by auto
    have s2: "(n, s) \<in> set (st_services st2)" "survives (sn_apps sn) st2 (n, s)"
      using retire_all_table [OF i2 w dist subset_refl, of "sn_apps sn", folded st3_def] s by auto
    have "map_of (st_services st) n = Some s" using s2(1) inv_distinct [OF i] eq2 by simp
    moreover have "map_of (sn_apps sn) n = Some app" using app(1) d by simp
    ultimately show False using app(2) s2(2) eq2 by (simp add: needs_listener_def current_service_def survives_def)
  qed
  have h4: "heard base k {} st4" "assigned st4"
    unfolding st4_def
    using install_all_heard [OF h3(1) [folded all] h3(2) i3 d d subset_refl r3(2) names(1) o, of w plans] gone by auto
  have u5: "unheard st4 (finish_apply w True staged opened st5)"
    using unheard_trans [OF unheard_same(1) finish_permissions_unheard] by (simp add: finish_apply_def Let_def st5_def)
  have "fst (apply_snapshot w sn st) = (case failure1 of Some e \<Rightarrow> finish_apply w False [] opened st1
      | None \<Rightarrow> (case failure2 of Some e \<Rightarrow> finish_apply w False staged opened st2
          | None \<Rightarrow> finish_apply w True staged opened st5))"
    using True plans
    by (simp add: apply_snapshot_def Let_def st1 st2 st3_def [symmetric] st4_def [symmetric]
        st5_def [symmetric] split: option.split)
  also have "heard base k {} \<dots> \<and> assigned \<dots>"
    using finish_heard [OF h1 t1 o, of w "[]"] finish_heard [OF h2 t2 o, of w staged]
      heard_unheard [OF h4(1) u5] assigned_unheard [OF u5 h4(2)]
    by (cases failure1; cases failure2) (simp_all only: option.case simp_thms)
  finally show ?thesis .
qed

subsection \<open>The loop\<close>

definition polled :: "supervisor \<Rightarrow> interest \<Rightarrow> bool" where
  "polled su k \<longleftrightarrow> in_step {} (su_store su) k \<and> assigned (su_store su) \<and> (su_stopping su \<longrightarrow> st_listeners (su_store su) = [])"

definition polled_since :: "store \<Rightarrow> interest option \<Rightarrow> supervisor \<Rightarrow> bool" where
  "polled_since base k su \<longleftrightarrow> heard base k {} (su_store su) \<and> assigned (su_store su)
     \<and> (su_stopping su \<longrightarrow> st_listeners (su_store su) = [])"

lemma polled_since_start: "polled su k \<Longrightarrow> polled_since (su_store su) (Some k) su"
  by (simp add: polled_def polled_since_def heard_start)

lemma polled_since_calls: "polled_since base k su \<Longrightarrow> \<exists>k'. epoll_calls base (su_store su) k = Some k' \<and> polled su k'"
  using heard_calls by (fastforce simp: polled_since_def polled_def)

lemma polled_shutdown:
  assumes "polled_since base k su" and "su_store su' = shutdown w now (su_store su)"
  shows "polled_since base k su'"
  using shutdown_heard [of base k "su_store su" w now] assms by (simp add: polled_since_def)

lemma polled_unheard:
  assumes "polled_since base k su" and "unheard (su_store su) (su_store su')" and "su_stopping su' = su_stopping su"
  shows "polled_since base k su'"
  using heard_unheard [OF _ assms(2)] assigned_unheard [OF assms(2)] assms by (simp add: polled_since_def unheard_def)

lemma check_polled: "polled_since base k su \<Longrightarrow> polled_since base k (check_fatal w now su)"
  by (cases "st_fatal (su_store su)")
    (auto simp: check_fatal_def Let_def polled_since_def shutdown_heard)

lemma polled_apply:
  assumes p: "polled_since base k su" and "\<not> su_stopping su" and "inv (su_store su)" and "world_ok w" and "snapshot_ok sn"
    and "su_store su' = fst (apply_snapshot w sn (su_store su))" and "\<not> su_stopping su'"
  shows "polled_since base k su'"
  using apply_heard [of base k "su_store su" w sn] assms by (simp add: polled_since_def snapshot_ok_def)

lemma update_polled:
  assumes "polled_since base k su" and "\<not> su_stopping su" and "supervisor_ok su" and "world_ok w"
    and "case snapshot of None \<Rightarrow> True | Some sn \<Rightarrow> snapshot_ok sn"
  shows "polled_since base k (update_snapshot w now snapshot su) \<and> \<not> su_stopping (update_snapshot w now snapshot su)"
proof (cases snapshot)
  case (Some sn)
  obtain st failure where a: "apply_snapshot w sn (su_store su) = (st, failure)" by fastforce
  then have "su_store (update_snapshot w now snapshot su) = fst (apply_snapshot w sn (su_store su))"
    "\<not> su_stopping (update_snapshot w now snapshot su)"
    using Some assms(2) by (auto simp: update_snapshot_def split: option.split)
  then show ?thesis using polled_apply [OF assms(1,2) _ assms(4)] assms(3,5) Some by (simp add: supervisor_ok_def)
qed (use assms in \<open>simp add: update_snapshot_def\<close>)

lemma retry_polled:
  assumes p: "polled_since base k su" and ok: "supervisor_ok su" and "world_ok w"
  shows "polled_since base k (retry_pending w now su) \<and> su_stopping (retry_pending w now su) = su_stopping su"
proof (cases "su_pending su")
  case (Some sn)
  show ?thesis
  proof (cases "su_stopping su \<or> now < su_retry su")
    case False
    obtain st failure where a: "apply_snapshot w sn (su_store su) = (st, failure)" by fastforce
    then have r: "su_store (retry_pending w now su) = fst (apply_snapshot w sn (su_store su))"
      "\<not> su_stopping (retry_pending w now su)"
      using Some False by (auto simp: retry_pending_def)
    have "polled_since base k (retry_pending w now su)"
      using polled_apply [OF p _ _ assms(3) _ r] ok Some False by (simp add: supervisor_ok_def)
    then show ?thesis using r False by simp
  next
    case True
    then show ?thesis using p Some by (simp add: retry_pending_def)
  qed
qed (use p in \<open>simp add: retry_pending_def\<close>)

lemma restart_named_unheard: "unheard st (fold (restart_named w) entries st)"
  by (rule unheard.frame_fold)
    (auto simp: restart_named_def unheard.restart_frame unheard.frame_refl split: prod.split option.split)

lemma handle_listeners: "st_listeners (handle w msg now st) = st_listeners st"
proof (cases "\<exists>es. msg = PollEvents es")
  case True
  have "st_listeners (fold (handle_socket now) es x) = st_listeners x" for es x
    by (induction es arbitrary: x) (auto simp: handle_socket_def set_fatal_def Let_def split: prod.split option.split)
  then show ?thesis using True by (auto simp: handle_def)
next
  case False
  then show ?thesis using handle_unheard [of msg st w now] by (simp add: unheard_def)
qed

lemma react_polled:
  assumes p: "polled su k" and ok: "supervisor_ok su" and m: "moment_ok (w, now)" and a: "admissible su input"
  shows "polled_since (su_store su) (Some (deliver input k)) (react w now input su)"
proof (cases input)
  case (Received msg)
  have "heard (su_store su) (Some (deliver input k)) {} (handle w msg now (su_store su))
    \<and> assigned (handle w msg now (su_store su))"
    using handle_heard [of "su_store su" k now msg w] p m by (simp add: Received polled_def moment_ok_def)
  then show ?thesis using p by (simp add: react_def Received polled_since_def polled_def handle_listeners)
next
  case (Sampled sample)
  then show ?thesis
    using polled_unheard [OF polled_since_start [OF p], of "react w now input su"] unheard_same(2)
    by (simp add: react_def deliver_def)
next
  case Cancelled
  then show ?thesis
    using polled_shutdown [OF polled_since_start [OF p], of "react w now input su" w now]
    by (simp add: react_def deliver_def)
next
  case (WatchEnded running)
  have "polled_since (su_store su) (Some k) (su\<lparr>su_watch := False\<rparr>)"
    using polled_since_start [OF p] by (simp add: polled_since_def)
  moreover have "su_store (react w now input su) = shutdown w now (su_store su)" if "\<not> su_stopping su"
    using that by (simp add: react_def WatchEnded Let_def)
  moreover have "react w now input su = su\<lparr>su_watch := False\<rparr>" if "su_stopping su"
    using that by (simp add: react_def WatchEnded)
  ultimately show ?thesis
    using polled_shutdown [OF polled_since_start [OF p]] by (cases "su_stopping su") (simp_all add: deliver_def WatchEnded)
next
  case (Updated snapshot restarts)
  note s = polled_since_start [OF p]
  show ?thesis
  proof (cases "su_stopping su")
    case False
    let ?su = "update_snapshot w now snapshot su"
    have u: "polled_since (su_store su) (Some k) ?su"
      using update_polled [OF s False ok] m a Updated by (simp add: moment_ok_def admissible_def split: option.splits)
    have "polled_since (su_store su) (Some k) (?su\<lparr>su_store := fold (restart_named w) restarts (su_store ?su)\<rparr>)"
      by (rule polled_unheard [OF u]) (simp_all add: restart_named_unheard)
    then show ?thesis using False by (simp add: react_def Updated deliver_def Let_def)
  qed (use s in \<open>simp add: react_def Updated deliver_def\<close>)
next
  case Ticked
  let ?su = "retry_pending w now su"
  have r: "polled_since (su_store su) (Some k) ?su"
    using retry_polled [OF polled_since_start [OF p] ok] m by (simp add: moment_ok_def)
  have "react w now input su = ?su\<lparr>su_store := tick w now (su_stopping ?su) (su_store ?su)\<rparr>"
    by (simp add: react_def Ticked Let_def)
  moreover have "deliver input k = k" by (simp add: deliver_def Ticked)
  ultimately show ?thesis
    using r tick_heard [of "su_store su" "Some k" "su_store ?su" w now "su_stopping ?su"]
    by (auto simp: polled_since_def)
qed

text \<open>What a tick of a running supervisor leaves unarmed has a later date.\<close>

lemma tick_arms:
  assumes p: "polled su k" and ok: "supervisor_ok su" and m: "moment_ok (w, now)" and running: "\<not> su_stopping su"
    and l: "l \<in> fst ` set (st_listeners (su_store (react w now Ticked su)))"
  shows "l_rearm_at (st_lists (su_store (react w now Ticked su)) l) = 0
    \<or> now < l_rearm_at (st_lists (su_store (react w now Ticked su)) l)"
proof -
  let ?su = "retry_pending w now su"
  have r: "polled_since (su_store su) (Some k) ?su" "\<not> su_stopping ?su"
    using retry_polled [OF polled_since_start [OF p] ok] m running by (simp_all add: moment_ok_def)
  have eq: "su_store (react w now Ticked su) = tick w now False (su_store ?su)"
    using r(2) by (simp add: react_def Let_def)
  have "\<forall>l \<in> fst ` set (st_listeners (tick w now False (su_store ?su))).
      l_rearm_at (st_lists (tick w now False (su_store ?su)) l) = 0 \<or> now < l_rearm_at (st_lists (tick w now False (su_store ?su)) l)"
    using tick_heard [of "su_store su" "Some k" "su_store ?su" w now False] r(1) unfolding polled_since_def by blast
  from bspec [OF this l [unfolded eq]] show ?thesis unfolding eq .
qed

subsection \<open>No listener falls silent\<close>

definition listen_ok :: "supervisor \<times> interest option \<Rightarrow> bool" where
  "listen_ok = (\<lambda>(su, k). supervisor_ok su \<and> (\<exists>i. k = Some i \<and> polled su i))"

lemma listen_iteration:
  assumes p: "polled su i" and ok: "supervisor_ok su" and m: "moment_ok before" "moment_ok after"
  defines "checked \<equiv> check_fatal (fst before) (snd before) su"
  shows "supervisor_ok checked" and "\<exists>i'. epoll_calls (su_store su) (su_store checked) (Some i) = Some i' \<and> polled checked i'"
  using check_fatal_advances [of "fst before" "snd before" su] polled_since_calls [OF check_polled [OF polled_since_start [OF p]]] ok m
  by (simp_all add: advances_def checked_def)

interpretation listening: guarded_system listen_start listen_step listen_ok
proof
  show "listen_ok s" if "listen_start s" for s
    using that
  proof (cases rule: listen_start.cases)
    case (Begin w sn st)
    let ?st = "empty_store (sn_cgroup sn)"
    have "polled (initial ?st) Map.empty"
      by (simp add: polled_def in_step_def assigned_def initial_def empty_store_def)
    from polled_since_start [OF this] have "heard ?st (Some Map.empty) {} ?st" "assigned ?st"
      by (simp_all add: polled_since_def initial_def)
    then have "heard ?st (Some Map.empty) {} st" "assigned st"
      using apply_heard [of ?st "Some Map.empty" ?st w sn] inv_empty Begin(2-4) by (simp_all add: snapshot_ok_def)
    then have "\<exists>i. fold epoll_ctl (st_effects st) (Some Map.empty) = Some i \<and> polled (initial st) i"
      using heard_calls [of ?st "Some Map.empty" "{}" st]
      by (auto simp: epoll_calls_def polled_def initial_def empty_store_def)
    moreover have "supervisor_ok (initial st)" by (rule started_ok [OF Started [OF Begin(2-4)]])
    ultimately show ?thesis using Begin(1) by (simp add: listen_ok_def)
  qed
  show "listen_ok s'" if good: "listen_ok s" and step: "listen_step s s'" for s s'
    using step
  proof (cases rule: listen_step.cases)
    case (Listen before after checked su input su' k1 k k')
    then obtain i where k: "k = Some i" "supervisor_ok su" "polled su i" using good by (auto simp: listen_ok_def)
    note c = listen_iteration [OF k(3,2) Listen(3,4), folded Listen(5)]
    obtain i' where i': "epoll_calls (su_store su) (su_store checked) (Some i) = Some i'" "polled checked i'" using c(2) by blast
    have su': "su' = react (fst after) (snd after) input checked"
      using Listen(5,7) by (simp add: iteration_def Let_def split: if_splits)
    have "polled_since (su_store checked) (Some (deliver input i')) su'"
      unfolding su' using react_polled [OF i'(2) c(1) _ Listen(6), of "fst after" "snd after"] Listen(4) by simp
    from polled_since_calls [OF this] obtain i'' where
      "epoll_calls (su_store checked) (su_store su') (Some (deliver input i')) = Some i''" "polled su' i''" by blast
    moreover have "k1 = Some (deliver input i')" using Listen(8) k(1) i'(1) by simp
    moreover have "supervisor_ok su'"
      using react_advances [of "fst after" "snd after" checked input] Listen(4,6) c(1) unfolding su' by (simp add: advances_def)
    ultimately show ?thesis using Listen(2,9) by (simp add: listen_ok_def)
  qed
qed

text \<open>
  C8: In every state the supervisor reaches, no call of \<^verbatim>\<open>EpollCtl\<close> has been refused, the listeners the
  poller watches are exactly those of the services that run, and none at all once the supervisor is
  stopping.  Unless a fatal error is pending, a listener that is not armed has a date at which
  to arm it again, and a tick of the running supervisor leaves only dates that are still to come: no
  listener falls silent.
\<close>

theorem no_silent_listener:
  assumes "listen_start s0" and "listen_step\<^sup>*\<^sup>* s0 (su, k)"
  shows "\<exists>i. k = Some i \<and> dom i = fst ` set (st_listeners (su_store su))
    \<and> (\<forall>(l, s) \<in> set (st_listeners (su_store su)).
        s \<in> snd ` set (st_services (su_store su)) \<and> s_listener (st_servs (su_store su) s) = Some l)
    \<and> (\<forall>(n, s) \<in> set (st_services (su_store su)). set_option (s_listener (st_servs (su_store su) s)) \<subseteq> dom i)
    \<and> (su_stopping su \<longrightarrow> dom i = {})
    \<and> (st_fatal (su_store su) = None \<longrightarrow>
        (\<forall>l \<in> dom i. i l = Some (l_rearm_at (st_lists (su_store su) l) = 0))
        \<and> (\<forall>w now. \<not> su_stopping su \<longrightarrow> moment_ok (w, now) \<longrightarrow>
            (let st' = su_store (react w now Ticked su) in \<forall>l \<in> fst ` set (st_listeners st').
              l_rearm_at (st_lists st' l) = 0 \<or> now < l_rearm_at (st_lists st' l))))"
proof -
  have "listen_ok (su, k)" using listening.reached_good assms by blast
  then obtain i where ok: "k = Some i" "supervisor_ok su" "polled su i" by (auto simp: listen_ok_def)
  then have a: "in_step {} (su_store su) i" and t: "assigned (su_store su)"
    and s: "su_stopping su \<Longrightarrow> st_listeners (su_store su) = []" by (simp_all add: polled_def)
  have d: "dom i = fst ` set (st_listeners (su_store su))" using a by (simp add: in_step_def)
  have own: "set_option (s_listener (st_servs (su_store su) s)) \<subseteq> dom i" if "(n, s) \<in> set (st_services (su_store su))" for n s
    using assignedD(3) [OF t that] unfolding d by force
  show ?thesis
    using ok(1) d t s a own tick_arms [OF ok(3,2)]
    unfolding assigned_def in_step_def Let_def by (intro exI [of _ i]) auto
qed

definition sock_snapshot :: snapshot where
  "sock_snapshot = demo_snapshot\<lparr>sn_apps := [(''a'', unix_app ''/a'')]\<rparr>"

definition sock_start :: supervisor where
  "sock_start = initial (fst (apply_snapshot demo_world sock_snapshot (empty_store [])))"

definition sock_heard :: supervisor where
  "sock_heard = react demo_world 2000 (Received (PollEvents [(1, False)])) sock_start"

text \<open>A connection arrives: the listener is disarmed, and a date is set.\<close>

lemma no_silent_listener_witness:
  "\<exists>s0 i. listen_start s0 \<and> listen_step\<^sup>*\<^sup>* s0 (sock_heard, Some i) \<and> dom i = {1} \<and> i 1 = Some False
     \<and> l_rearm_at (st_lists (su_store sock_heard) 1) = 2000 + 25 * millisecond"
proof -
  let ?k = "fold epoll_ctl (st_effects (su_store sock_start)) (Some Map.empty)"
  have "snd (apply_snapshot demo_world sock_snapshot (empty_store (sn_cgroup sock_snapshot))) = None" by code_simp
  then have a: "apply_snapshot demo_world sock_snapshot (empty_store (sn_cgroup sock_snapshot)) = (su_store sock_start, None)"
    by (simp add: prod_eq_iff sock_start_def initial_def sock_snapshot_def demo_snapshot_def)
  have "world_ok demo_world" using demo_world_ok [of 1] by (simp add: moment_ok_def)
  moreover have "snapshot_ok sock_snapshot" by (simp add: snapshot_ok_def sock_snapshot_def)
  moreover have i: "initial (su_store sock_start) = sock_start" by (simp add: sock_start_def initial_def)
  ultimately have start: "listen_start (sock_start, ?k)" using Begin [OF _ _ a] by simp
  have f: "st_fatal (su_store sock_start) = None" "\<not> su_stopping sock_start"
    by (code_simp, simp add: sock_start_def initial_def)
  then have c: "check_fatal demo_world 2000 sock_start = sock_start" by (simp add: check_fatal_def)
  have "iteration (demo_world, 2000) (demo_world, 2000) (Received (PollEvents [(1, False)])) sock_start = Inr sock_heard"
    using f c by (simp add: iteration_def run_finished_def sock_heard_def)
  moreover have "admissible sock_start (Received (PollEvents [(1, False)]))" by (simp add: admissible_def deliverable_def)
  ultimately obtain k where "listen_step (sock_start, ?k) (sock_heard, k)"
    using Listen [of "(demo_world, 2000)" "(demo_world, 2000)" sock_start sock_start] demo_world_ok c by fastforce
  then have steps: "listen_step\<^sup>*\<^sup>* (sock_start, ?k) (sock_heard, k)" by blast
  have state: "map fst (st_listeners (su_store sock_heard)) = [1]" "st_fatal (su_store sock_heard) = None"
    "l_rearm_at (st_lists (su_store sock_heard) 1) = 2000 + 25 * millisecond" by code_simp+
  then have "fst ` set (st_listeners (su_store sock_heard)) = {1}" by (metis list.set(1,2) set_map)
  with no_silent_listener [OF start steps] state obtain i where "k = Some i" "dom i = {1}"
    "\<forall>l \<in> dom i. i l = Some (l_rearm_at (st_lists (su_store sock_heard) l) = 0)" by auto
  then show ?thesis using start steps state(3) by auto
qed

end
