(* ===== verification/CommandLine.thy ===== *)
theory CommandLine
  imports Startup Scm
begin

text \<open>
  The command line of \<^verbatim>\<open>src/main.go\<close>: what \<^verbatim>\<open>main\<close> does for the flags it has been given and the code it
  exits with, the numbers of a percentage, and the rounds of \<^verbatim>\<open>sampleResources\<close>.
\<close>

subsection \<open>main\<close>

text \<open>The values of the flags after \<^verbatim>\<open>flag.Parse\<close>.\<close>

record flags =
  fg_config :: go_string
  fg_check :: bool
  fg_debug :: bool
  fg_version :: bool
  fg_service :: go_string
  fg_log :: go_string

text \<open>\<^verbatim>\<open>runSCM\<close> on Linux.\<close>

definition run_scm_linux :: "go_string \<Rightarrow> go_string \<Rightarrow> go_string option option" where
  "run_scm_linux name path = Some (Some ''SCM service mode requires Windows'')"

text \<open>
  What is outside \<^verbatim>\<open>main\<close>: whether the log file opens, what loading a configuration reads, and the errors
  of \<^verbatim>\<open>runSCM\<close> and \<^verbatim>\<open>Run\<close>; these have no result while they run.
\<close>

record main_world =
  mw_log :: "go_string \<Rightarrow> bool"
  mw_load :: load_world
  mw_scm :: "go_string \<Rightarrow> go_string \<Rightarrow> go_string option option"
  mw_run :: "go_string \<Rightarrow> run_error option option"

datatype main_output =
    PrintedVersion
  | PrintedValid
  | PrintedLogError
  | LoggedInvalid load_error
  | LoggedScm go_string
  | LoggedStop run_error

datatype log_level = InfoLevel | DebugLevel

datatype log_target = StandardError | LogFile go_string

text \<open>Level and target of the log.\<close>

definition main_log :: "flags \<Rightarrow> log_level \<times> log_target" where
  "main_log f = (if fg_debug f then DebugLevel else InfoLevel,
     if fg_log f = [] then StandardError else LogFile (fg_log f))"

text \<open>What is written and the code of the exit, none while the supervisor runs.\<close>

definition main_program :: "main_world \<Rightarrow> flags \<Rightarrow> main_output list \<times> int option" where
  "main_program w f =
     (if fg_version f then ([PrintedVersion], Some 0)
      else if fg_log f \<noteq> [] \<and> \<not> mw_log w (fg_log f) then ([PrintedLogError], Some 1)
      else if fg_check f then
        (case load (mw_load w) (fg_config f) of
           Inl e \<Rightarrow> ([LoggedInvalid e], Some 1)
         | Inr sn \<Rightarrow> ([PrintedValid], Some 0))
      else if fg_service f \<noteq> [] then
        (case mw_scm w (fg_service f) (fg_config f) of
           None \<Rightarrow> ([], None)
         | Some (Some e) \<Rightarrow> ([LoggedScm e], Some 1)
         | Some None \<Rightarrow> ([], Some 0))
      else
        (case mw_run w (fg_config f) of
           None \<Rightarrow> ([], None)
         | Some (Some e) \<Rightarrow> ([LoggedStop e], Some 1)
         | Some None \<Rightarrow> ([], Some 0)))"

text \<open>A configuration that \<^verbatim>\<open>-check\<close> calls valid is one that \<^verbatim>\<open>run\<close> does not reject, and no other.\<close>

lemma check_agrees_with_run:
  assumes "fg_check f" and "\<not> fg_version f" and "fg_log f = [] \<or> mw_log w (fg_log f)" and "bg_load b = mw_load w"
  shows "main_program w f = ([PrintedValid], Some 0) \<longleftrightarrow> (\<forall>e. fst (begin_run b (fg_config f)) \<noteq> Inl (ConfigRejected e))"
    and "snd (main_program w f) = Some (if \<exists>e. fst (begin_run b (fg_config f)) = Inl (ConfigRejected e) then 1 else 0)"
  using assms
  by (auto simp: main_program_def begin_run_def Let_def split: sum.splits prod.splits bool.splits option.splits)

text \<open>It exits with an error exactly when it has reported one.\<close>

lemma main_exit:
  "snd (main_program w f) = Some code \<Longrightarrow>
     code = (if \<exists>e. fst (main_program w f) \<in> {[PrintedLogError], [LoggedInvalid e]} \<or> (\<exists>s. fst (main_program w f) = [LoggedScm s])
       \<or> (\<exists>r. fst (main_program w f) = [LoggedStop r]) then 1 else 0)"
  by (auto simp: main_program_def split: if_splits sum.splits option.splits)

lemma linux_services: "mw_scm w = run_scm_linux \<Longrightarrow> fg_service f \<noteq> [] \<Longrightarrow> \<not> fg_version f \<Longrightarrow> \<not> fg_check f \<Longrightarrow> snd (main_program w f) = Some 1"
  by (simp add: main_program_def run_scm_linux_def)

subsection \<open>Percentages\<close>

text \<open>\<^verbatim>\<open>strings.TrimSuffix\<close> of a percent sign.\<close>

definition trim_percent :: "go_string \<Rightarrow> go_string" where
  "trim_percent s = (if s \<noteq> [] \<and> last s = CHR ''%'' then butlast s else s)"

text \<open>
  \<^verbatim>\<open>Percent.UnmarshalYAML\<close>: the value as \<^verbatim>\<open>fmt.Sprint\<close> writes it, none when it is not YAML;
  \<^verbatim>\<open>strconv.ParseFloat\<close> is an argument, with no result for an error or a number that is not one.
\<close>

definition unmarshal_percent :: "(go_string \<Rightarrow> percent option) \<Rightarrow> go_string option \<Rightarrow> percent option" where
  "unmarshal_percent parse_float value =
     (case value of
        None \<Rightarrow> None
      | Some s \<Rightarrow>
          (case parse_float (trim_percent s) of
             None \<Rightarrow> None
           | Some number \<Rightarrow> if number < 0 \<or> number > 100 then None else Some number))"

lemma unmarshal_percent_ok: "unmarshal_percent parse_float value = Some p \<Longrightarrow> percent_ok p"
  by (auto simp: unmarshal_percent_def percent_ok_def split: option.splits if_splits)

subsection \<open>Rounds of the sampler\<close>

text \<open>
  \<^verbatim>\<open>sampleResources\<close> over its successive samples: whether the supervisor takes the sample, and whether
  the ticker comes, before the context is done.  The samples sent, and whether it has returned.
\<close>

fun sample_resources :: "(resource_sample \<times> bool \<times> bool) list \<Rightarrow> resource_sample list \<times> bool" where
  "sample_resources [] = ([], False)"
| "sample_resources ((sample, taken, ticked) # rounds) =
     (if \<not> taken then ([], True)
      else if \<not> ticked then ([sample], True)
      else (case sample_resources rounds of (sent, returned) \<Rightarrow> (sample # sent, returned)))"

lemma sample_resources_sent:
  "prefix (fst (sample_resources rounds)) (map fst rounds)
   \<and> (snd (sample_resources rounds) \<longleftrightarrow> (\<exists>r \<in> set rounds. \<not> fst (snd r) \<or> \<not> snd (snd r)))
   \<and> (\<not> snd (sample_resources rounds) \<longrightarrow> fst (sample_resources rounds) = map fst rounds)"
  by (induction rounds rule: sample_resources.induct) (auto simp: case_prod_unfold)

end
