(* ===== verification/Spec2Isabelle.thy ===== *)
theory Spec2Isabelle
  imports Protocol Permissions Schedule Config Dependencies Guarantees Supervision Reloading Activation Globs Templates Trials Loading Cgroups Jobs Watcher Scm Launch Endpoints Startup WindowsJobs Toolchain Listening CommandLine
begin

section \<open>A model of ooth\<close>

text \<open>
  ooth is a process supervisor with lazy socket activation, written in Go.  This development models
  its sources, \<^verbatim>\<open>src/src/main.go\<close>, \<^verbatim>\<open>src/src/job_linux.go\<close>, \<^verbatim>\<open>src/src/job_windows.go\<close>,
  \<^verbatim>\<open>src/src/scm_windows.go\<close>, \<^verbatim>\<open>src/src/scm_linux.go\<close> and \<^verbatim>\<open>src/golang_patch/main.go\<close>, and proves what makes them correct.

  \<^bold>\<open>The parts and how they interact.\<close>  \<^verbatim>\<open>run\<close> loads a configuration, creates the owner of all processes
  and a poller for the listening sockets, installs a service for each application and enters a loop
  that owns all state.  Goroutines send it messages: the poller that a listener is ready, the reader
  of a worker's output its events, the one that waits for a process its exit, an action its result,
  the sampler its measurements, and the watcher a changed configuration or requests to restart.
  The loop reacts to one of these or to its ticker at a time, so the model is a function on an
  explicit state, and goroutines are the inputs they send.

  \<^bold>\<open>From theories to code.\<close>

  \<^item> \<open>Prelude\<close>, \<open>GoText\<close>, \<open>GoTime\<close>: byte strings, the functions of \<^verbatim>\<open>strings\<close>, \<^verbatim>\<open>strconv\<close> and \<^verbatim>\<open>time\<close> the
    code calls, two's complement integers, and the lemmas on them everything shares.
  \<^item> \<open>Protocol\<close>: the worker event protocol, \<^verbatim>\<open>WriteEvent\<close>, \<^verbatim>\<open>ParseEvent\<close> and the goroutine of
    \<^verbatim>\<open>startProcess\<close> that reads a worker's output.
  \<^item> \<open>Permissions\<close>, \<open>Schedule\<close>: \<^verbatim>\<open>parsePermissions\<close>, and \<^verbatim>\<open>parseSchedule\<close> and \<^verbatim>\<open>schedule.next\<close> with the
    cron fields as 64-bit words.
  \<^item> \<open>Config\<close>, \<open>Dependencies\<close>: the \<^verbatim>\<open>App\<close> record, \<^verbatim>\<open>validate\<close>, and \<^verbatim>\<open>validateDependencies\<close>.
  \<^item> \<open>Paths\<close>, \<open>Globs\<close>: the package \<^verbatim>\<open>path/filepath\<close> for Linux paths, \<^verbatim>\<open>matchGlob\<close>, \<^verbatim>\<open>RestartRule.matches\<close>
    and \<^verbatim>\<open>watchRoot\<close>.
  \<^item> \<open>Templates\<close>, \<open>Actions\<close>, \<open>Trials\<close>: \<^verbatim>\<open>templateValues\<close>, \<^verbatim>\<open>expandCommand\<close> and \<^verbatim>\<open>expandLaunch\<close>; actions,
    their triggers and validation; the trials of a command, an HTTP, TCP or UDP check, and \<^verbatim>\<open>Action.execute\<close>
    with its retries and delays.
  \<^item> \<open>Loading\<close>: \<^verbatim>\<open>Load\<close>, from the main file and its globs to a snapshot of applications and watched roots.
  \<^item> \<open>Capacity\<close>: resource limits, the samples of \<^verbatim>\<open>sampleResources\<close> and the pressure window.
  \<^item> \<open>Store\<close>, \<open>Lifecycle\<close>, \<open>Manager\<close>, \<open>Reload\<close>: the objects of the loop (\<^verbatim>\<open>process\<close>, \<^verbatim>\<open>appCycle\<close>, \<^verbatim>\<open>actionScope\<close>,
    \<^verbatim>\<open>actionRun\<close>, \<^verbatim>\<open>service\<close>, \<^verbatim>\<open>manager\<close>) as records in heaps, addressed by numbers because the code shares
    them by pointer; and its methods, one definition each: phases of actions, \<^verbatim>\<open>lifecycle\<close>, \<^verbatim>\<open>stop\<close>, \<^verbatim>\<open>spawn\<close>,
    \<^verbatim>\<open>handle\<close>, \<^verbatim>\<open>tick\<close>, \<^verbatim>\<open>shutdown\<close>, \<^verbatim>\<open>restart\<close>, \<^verbatim>\<open>apply\<close>.
  \<^item> \<open>Supervisor\<close>: the loop of \<^verbatim>\<open>run\<close> as \<open>iteration\<close>, and the states it reaches.
  \<^item> \<open>Cgroups\<close>: \<^verbatim>\<open>resourceGroupPaths\<close> and \<^verbatim>\<open>readResourceGroup\<close>.
  \<^item> \<open>Jobs\<close>, \<open>WindowsJobs\<close>, \<open>Scm\<close>: processes, families and identities on Linux and on Windows, and the
    service of the Windows service control manager.
  \<^item> \<open>Launch\<close>, \<open>Endpoints\<close>: the launch of a worker by \<^verbatim>\<open>startProcess\<close>, with its environment and its file
    handles; listeners, poller, \<^verbatim>\<open>watchListeners\<close> and \<^verbatim>\<open>startWatcher\<close>.
  \<^item> \<open>Watcher\<close>, \<open>Startup\<close>: \<^verbatim>\<open>Watch\<close>; how \<^verbatim>\<open>run\<close> comes up, and the supervisor and the watcher together.
  \<^item> \<open>Listening\<close>: the supervisor next to the table of the kernel that \<^verbatim>\<open>serviceListener.arm\<close> and \<^verbatim>\<open>close\<close>
    change, in which an event that is received disarms its listener.
  \<^item> \<open>CommandLine\<close>: \<^verbatim>\<open>main\<close> for the flags it is given, \<^verbatim>\<open>Percent.UnmarshalYAML\<close> and the rounds of
    \<^verbatim>\<open>sampleResources\<close>.
  \<^item> \<open>Toolchain\<close>: the tool that patches the Go distribution ooth is built with.

  \<^bold>\<open>The lemmas.\<close>  \<open>Moves\<close> is the abstract specification of the loop: an \<open>inductive\<close> relation with one
  guarded rule per kind of change, and the invariant \<open>inv\<close> that all of them keep.  \<open>Operations\<close> and
  \<open>Reconfiguration\<close> show that every operation of the code is a sequence of such moves, so that the
  properties in \<open>Guarantees\<close>, \<open>Supervision\<close>, \<open>Activation\<close> and \<open>Reloading\<close>, on what is launched, stopped, killed
  and replaced, follow for all reachable states.  \<open>Frames\<close> states as locales what an operation leaves
  alone; \<open>Supervisor\<close> has the locale of a system whose steps keep an invariant, interpreted on the loop,
  in \<open>Startup\<close> on loop and watcher together, and in \<open>Listening\<close> on loop and kernel together; \<open>Protocol\<close> has the locale of a codec of lines.
  \<open>Scenario\<close> computes one run of the supervisor, which the concrete instances use.  The other theories
  prove their components against independent descriptions: what a cron field or a chmod clause
  denotes, which graphs are acyclic, which paths a glob covers, which directories lie below a root.

  \<^bold>\<open>Termination and fuel.\<close>  \<open>visit\<close> has one unit of fuel per application and one more, which is enough
  because a visit only descends into unvisited ones; \<open>activate\<close> has one per service and one more.  The loops
  whose end is not evident, the climbs over directories in \<open>Globs\<close> and \<open>Cgroups\<close> and the growing buffer
  in \<open>WindowsJobs\<close>, are \<open>partial_function (option)\<close>, and a property says when they end.  Waiting for the
  outside world, as closing a family on Linux does, is a list of answers that may be too short.

  \<^bold>\<open>What is idealised.\<close>  Floating point numbers are rationals.  Go's maps are association lists, and where
  the order of a loop over one can matter it is an argument; two maps are the same when the lists are.
  Times are unbounded numbers of nanoseconds with saturating differences, as \<^verbatim>\<open>time.Time\<close> has them.
  Paths are those of Linux.  Log lines are left out.  The operating system, the clock and the packages
  outside the repository (the YAML decoder, \<^verbatim>\<open>text/template\<close>, \<^verbatim>\<open>regexp\<close>, \<^verbatim>\<open>net/http\<close>, \<^verbatim>\<open>net/url\<close>, \<^verbatim>\<open>crypto/md5\<close>,
  the watcher of files, the measurements of processor and memory) are arguments: a record of answers
  per operation.  What an operation does to the outside is recorded as a list of effects.  A lock is held
  for one operation of the model.

  \<^bold>\<open>Not modelled.\<close>  The parsing of flags, the log handler and the signals \<^verbatim>\<open>main\<close> waits for; the layout of
  the Windows structures; a failing \<^verbatim>\<open>EPOLL_CTL_DEL\<close>, which the code only logs; the goroutines themselves,
  apart from the messages they send.
\<close>

end
